(* ===== verification/Aesd_Prelude.thy ===== *)
theory Aesd_Prelude
  imports Main "HOL-Library.Word" "HOL-Library.Monad_Syntax"
begin

text \<open>
  Shared vocabulary of the development.

  The C code runs on a 64-bit target: \<open>size_t\<close>, \<open>ssize_t\<close>, \<open>loff_t\<close> and user addresses are 64-bit
  words, \<open>uint32_t\<close> and \<open>unsigned int\<close> 32-bit words, \<open>uint8_t\<close> 8-bit words; arithmetic wraps as it
  does in C. A \<open>char\<close> of the program is a HOL character. A pointer into a heap is an address option,
  where \<^const>\<open>None\<close> is \<open>NULL\<close>.

  A C computation is a value of an option type: \<^const>\<open>None\<close> stands for an execution with no defined
  result, either because it performs an access the C standard leaves undefined (out of range, through
  \<open>NULL\<close>, to freed memory) or because a loop never ends. Theorems of the form
  \<open>f x = Some y\<close> therefore say that the code returns and that it does so without undefined behaviour.
\<close>

type_synonym u8 = "8 word"
type_synonym u32 = "32 word"
type_synonym size_t = "64 word"
type_synonym loff_t = "64 word"
type_synonym addr = nat

named_theorems cb_simps \<open>facts about the circular buffer that simplify driver goals\<close>
named_theorems unat_simps \<open>conversions of bounded word arithmetic to natural numbers\<close>

abbreviation newline :: char where
  "newline \<equiv> CHR 0x0A"

text \<open>\<open>ensure P\<close> continues when \<open>P\<close> holds and has no defined result otherwise.\<close>

definition ensure :: "bool \<Rightarrow> unit option" where
  "ensure P = (if P then Some () else None)"

lemma ensure_True [simp]: "ensure True = Some ()"
  by (simp add: ensure_def)

lemma ensure_False [simp]: "ensure False = None"
  by (simp add: ensure_def)

lemma ensure_eq_Some [simp]: "ensure P = Some u \<longleftrightarrow> P"
  by (simp add: ensure_def)

lemma ensure_bind [simp]: "P \<Longrightarrow> Option.bind (ensure P) f = f ()"
  by (simp add: ensure_def)

section \<open>Words as bounded numbers\<close>

lemma unat_u8_of_nat [unat_simps]: "n < 256 \<Longrightarrow> unat (of_nat n :: u8) = n"
  by (simp add: unsigned_of_nat take_bit_nat_eq_self)

lemma unat_u32_of_nat [unat_simps]: "n < 2 ^ 32 \<Longrightarrow> unat (of_nat n :: u32) = n"
  by (simp add: unsigned_of_nat take_bit_nat_eq_self)

lemma unat_size_of_nat [unat_simps]: "n < 2 ^ 64 \<Longrightarrow> unat (of_nat n :: size_t) = n"
  by (simp add: unsigned_of_nat take_bit_nat_eq_self)

lemma unat_size_add [unat_simps]:
  "unat a + unat b < 2 ^ 64 \<Longrightarrow> unat (a + b :: size_t) = unat a + unat b"
  by (simp add: unat_word_ariths)

lemma unat_size_diff [unat_simps]:
  "unat b \<le> unat a \<Longrightarrow> unat (a - b :: size_t) = unat a - unat b"
  by (simp add: unat_sub word_le_nat_alt)

lemma size_lt_pow [simp]: "unat (a :: size_t) < 18446744073709551616"
  using unsigned_less [of a, where ?'a = nat] by simp

text \<open>A \<open>loff_t\<close> is signed: the number it stands for, and the signed comparison with a size that is not negative.\<close>

lemma sint_loff:
  "sint (w :: loff_t) = (if unat w < 2 ^ 63 then int (unat w) else int (unat w) - 2 ^ 64)"
proof -
  have r: "- (2 ^ 63) \<le> sint w" "sint w < 2 ^ 63" using sint_ge [of w] sint_lt [of w] by simp_all
  have u: "uint w = sint w mod 2 ^ 64" by (simp add: uint_sint take_bit_eq_mod)
  have "uint w = (if 0 \<le> sint w then sint w else sint w + 2 ^ 64)"
  proof (cases "0 \<le> sint w")
    case True
    then show ?thesis using r unfolding u by (simp add: mod_pos_pos_trivial)
  next
    case False
    have "(sint w + 2 ^ 64) mod 2 ^ 64 = sint w + 2 ^ 64" using False r by (intro mod_pos_pos_trivial) simp_all
    then show ?thesis using False unfolding u by simp
  qed
  moreover have "uint w = int (unat w)" by simp
  ultimately have "int (unat w) = (if 0 \<le> sint w then sint w else sint w + 2 ^ 64)" by (simp only:)
  then show ?thesis using r by (auto split: if_splits simp del: int_nat_eq uint_nat of_nat_unat)
qed

lemma signed_within:
  assumes "unat (sz :: loff_t) < 2 ^ 63"
  shows "0 \<le> sint sz" and "0 \<le> sint (off :: loff_t) \<and> sint off \<le> sint sz \<longleftrightarrow> unat off \<le> unat sz"
  using assms size_lt_pow [of off] by (auto simp: sint_loff simp del: of_nat_unat size_lt_pow)
lemma size_eq_of_nat: "unat w = n \<Longrightarrow> w = (of_nat n :: size_t)"
  by auto

lemma mod_add_cases:
  "i < n \<Longrightarrow> a < n \<Longrightarrow> (i + a) mod n = (if i + a < n then i + a else i + a - n)" for a i n :: nat
  by (simp add: le_mod_geq)

lemma length_concat_bound: "\<forall>x \<in> set xs. length x \<le> n \<Longrightarrow> length (concat xs) \<le> length xs * n"
  by (induction xs) auto

lemma in_set_tlD: "x \<in> set (tl xs) \<Longrightarrow> x \<in> set xs"
  by (cases xs) auto

end
