(* ===== verification/Circular_Buffer.thy ===== *)
theory Circular_Buffer
  imports Aesd_Prelude
begin

text \<open>
  The circular buffer of \<open>aesd-char-driver/aesd-circular-buffer.[ch]\<close>: its two structures, the
  \<open>AESD_CIRCULAR_BUFFER_FOREACH\<close> macro as a loop that may not end, the three operations, the
  representation invariant, and the refinement to a list of at most ten entries. The contract that
  the driver relies on is the locale \<open>bounded_history\<close>, interpreted here on the C operations.
\<close>

section \<open>Data\<close>

definition AESDCHAR_MAX_WRITE_OPERATIONS_SUPPORTED :: nat where
  [simp]: "AESDCHAR_MAX_WRITE_OPERATIONS_SUPPORTED = 10"

text \<open>\<open>size\<close> is a HOL constant, so the field \<open>size\<close> of an entry is called \<open>esize\<close>.\<close>

record aesd_buffer_entry =
  buffptr :: "addr option"
  esize :: size_t

record aesd_circular_buffer =
  entry :: "aesd_buffer_entry list"
  in_offs :: u8
  out_offs :: u8
  full :: bool

section \<open>Operations\<close>

text \<open>
  The position of the \<open>index\<close>-th entry in the array, \<open>(index + out_offs) % 10\<close>. The operands are
  promoted to \<open>int\<close>, so the sum does not wrap at 8 bits.
\<close>

definition foreach_slot :: "aesd_circular_buffer \<Rightarrow> u8 \<Rightarrow> nat" where
  "foreach_slot b index =
     (unat index + unat (out_offs b)) mod AESDCHAR_MAX_WRITE_OPERATIONS_SUPPORTED"

text \<open>
  The macro: \<open>pass\<close> starts as \<open>full\<close> and is cleared after the first round; the test compares
  \<open>index + out_offs\<close>, not reduced, with \<open>in_offs\<close>. The loop body gets the index, the position of the
  entry in the array (the pointer \<open>entryptr\<close>) and the entry; it goes on with a new state (\<^const>\<open>Inl\<close>)
  or leaves the loop (\<^const>\<open>Inr\<close>). \<open>entryptr\<close> points into the array and is never \<open>NULL\<close>.
\<close>

partial_function (option) AESD_CIRCULAR_BUFFER_FOREACH ::
  "(u8 \<Rightarrow> nat \<Rightarrow> aesd_buffer_entry \<Rightarrow> 's \<Rightarrow> 's + 'r) \<Rightarrow> aesd_circular_buffer \<Rightarrow> u8 \<Rightarrow> bool \<Rightarrow> 's
     \<Rightarrow> ('s + 'r) option" where
  "AESD_CIRCULAR_BUFFER_FOREACH body b index pass s =
     (if unat index + unat (out_offs b) \<noteq> unat (in_offs b) \<or> pass then
        (case body index (foreach_slot b index) (entry b ! foreach_slot b index) s of
           Inr r \<Rightarrow> Some (Inr r)
         | Inl s' \<Rightarrow>
             AESD_CIRCULAR_BUFFER_FOREACH body b
               (of_nat ((unat index + 1) mod AESDCHAR_MAX_WRITE_OPERATIONS_SUPPORTED)) False s')
      else Some (Inl s))"

definition find_body ::
  "size_t \<Rightarrow> u8 \<Rightarrow> nat \<Rightarrow> aesd_buffer_entry \<Rightarrow> size_t \<Rightarrow> size_t + (nat \<times> size_t)" where
  "find_body char_offset index slot e total_size =
     (if total_size + esize e > char_offset then Inr (slot, char_offset - total_size)
      else Inl (total_size + esize e))"

text \<open>
  \<open>entry_offset_byte_rtn\<close> is a pointer to a \<open>size_t\<close>: \<^const>\<open>None\<close> for \<open>NULL\<close>, otherwise the value it
  points to. The result is the returned entry pointer (a position in the array, \<^const>\<open>None\<close> for
  \<open>NULL\<close>) and the value pointed to afterwards.
\<close>

definition aesd_circular_buffer_find_entry_offset_for_fpos ::
  "aesd_circular_buffer option \<Rightarrow> size_t \<Rightarrow> size_t option \<Rightarrow> (nat option \<times> size_t option) option" where
  "aesd_circular_buffer_find_entry_offset_for_fpos buffer char_offset entry_offset_byte_rtn =
     (case buffer of
        None \<Rightarrow> Some (None, entry_offset_byte_rtn)
      | Some b \<Rightarrow>
          if char_offset < 0 \<or> entry_offset_byte_rtn = None then Some (None, entry_offset_byte_rtn)
          else
            do {
              r \<leftarrow> AESD_CIRCULAR_BUFFER_FOREACH (find_body char_offset) b 0 (full b) 0;
              Some (case r of
                 Inr (slot, off) \<Rightarrow> (Some slot, Some off)
               | Inl total_size \<Rightarrow> (None, entry_offset_byte_rtn))
            })"

definition aesd_circular_buffer_add_entry ::
  "aesd_circular_buffer option \<Rightarrow> aesd_buffer_entry option \<Rightarrow> aesd_circular_buffer option option" where
  "aesd_circular_buffer_add_entry buffer add_entry =
     (case (buffer, add_entry) of
        (Some b, Some e) \<Rightarrow>
          do {
            ensure (unat (in_offs b) < length (entry b));
            let b = b\<lparr>entry := (entry b)[unat (in_offs b) := e]\<rparr>;
            let b = b\<lparr>in_offs := in_offs b + 1\<rparr>;
            let b = (if unat (in_offs b) \<ge> AESDCHAR_MAX_WRITE_OPERATIONS_SUPPORTED
                     then b\<lparr>in_offs := 0\<rparr> else b);
            Some (Some
              (if full b then
                 let b = b\<lparr>out_offs := out_offs b + 1\<rparr>
                 in if unat (out_offs b) \<ge> AESDCHAR_MAX_WRITE_OPERATIONS_SUPPORTED
                    then b\<lparr>out_offs := 0\<rparr> else b
               else if in_offs b = out_offs b then b\<lparr>full := True\<rparr>
               else b))
          }
      | _ \<Rightarrow> Some buffer)"

definition aesd_circular_buffer_init :: "aesd_circular_buffer \<Rightarrow> aesd_circular_buffer" where
  "aesd_circular_buffer_init buffer =
     \<lparr>entry = replicate AESDCHAR_MAX_WRITE_OPERATIONS_SUPPORTED \<lparr>buffptr = None, esize = 0\<rparr>,
      in_offs = 0, out_offs = 0, full = False\<rparr>"

section \<open>Invariant and abstraction\<close>

definition cb_wf :: "aesd_circular_buffer \<Rightarrow> bool" where
  "cb_wf b \<longleftrightarrow>
     length (entry b) = AESDCHAR_MAX_WRITE_OPERATIONS_SUPPORTED \<and>
     unat (in_offs b) < AESDCHAR_MAX_WRITE_OPERATIONS_SUPPORTED \<and>
     unat (out_offs b) < AESDCHAR_MAX_WRITE_OPERATIONS_SUPPORTED \<and>
     (if full b then in_offs b = out_offs b else out_offs b = 0)"

definition cb_count :: "aesd_circular_buffer \<Rightarrow> nat" where
  "cb_count b = (if full b then AESDCHAR_MAX_WRITE_OPERATIONS_SUPPORTED else unat (in_offs b))"

definition cb_pos :: "aesd_circular_buffer \<Rightarrow> nat \<Rightarrow> nat" where
  "cb_pos b i = (i + unat (out_offs b)) mod AESDCHAR_MAX_WRITE_OPERATIONS_SUPPORTED"

definition cb_list :: "aesd_circular_buffer \<Rightarrow> aesd_buffer_entry list" where
  "cb_list b = map (\<lambda>i. entry b ! cb_pos b i) [0..<cb_count b]"

text \<open>The loop body run over a list of index, position and entry.\<close>

fun foreach_list ::
  "(u8 \<Rightarrow> nat \<Rightarrow> aesd_buffer_entry \<Rightarrow> 's \<Rightarrow> 's + 'r) \<Rightarrow> (u8 \<times> nat \<times> aesd_buffer_entry) list \<Rightarrow> 's
     \<Rightarrow> 's + 'r" where
  "foreach_list body [] s = Inl s"
| "foreach_list body ((index, slot, e) # xs) s =
     (case body index slot e s of Inr r \<Rightarrow> Inr r | Inl s' \<Rightarrow> foreach_list body xs s')"

definition cb_item :: "aesd_circular_buffer \<Rightarrow> nat \<Rightarrow> u8 \<times> nat \<times> aesd_buffer_entry" where
  "cb_item b i = (of_nat i, cb_pos b i, entry b ! cb_pos b i)"

section \<open>The iteration macro\<close>

lemma foreach_slot_cb_pos: "i \<le> 10 \<Longrightarrow> foreach_slot b (of_nat (i mod 10)) = cb_pos b i"
  by (cases "i = 10") (simp_all add: foreach_slot_def cb_pos_def unat_u8_of_nat)

lemma foreach_continues:
  assumes "cb_wf b" and "i \<le> cb_count b"
  shows "(unat (of_nat (i mod 10) :: u8) + unat (out_offs b) \<noteq> unat (in_offs b) \<or> (full b \<and> i = 0))
           \<longleftrightarrow> i < cb_count b"
  using assms
  by (cases "i = 10") (auto simp: cb_wf_def cb_count_def unat_u8_of_nat split: if_splits)

lemma foreach_from:
  assumes "cb_wf b"
  shows "i \<le> cb_count b \<Longrightarrow>
    AESD_CIRCULAR_BUFFER_FOREACH body b (of_nat (i mod 10)) (full b \<and> i = 0) s =
      Some (foreach_list body (map (cb_item b) [i..<cb_count b]) s)"
proof (induction "cb_count b - i" arbitrary: i s)
  case 0
  then show ?case
    using foreach_continues [OF assms, of i]
    by (subst AESD_CIRCULAR_BUFFER_FOREACH.simps) auto
next
  case (Suc k)
  then have i: "i < cb_count b" "i < 10" and k: "k = cb_count b - Suc i"
    using assms by (auto simp: cb_wf_def cb_count_def split: if_splits)
  have next_index: "of_nat ((unat (of_nat (i mod 10) :: u8) + 1) mod 10) = (of_nat (Suc i mod 10) :: u8)"
    using i(2) by (simp add: unat_u8_of_nat)
  have ih: "AESD_CIRCULAR_BUFFER_FOREACH body b (of_nat (Suc i mod 10)) False s' =
      Some (foreach_list body (map (cb_item b) [Suc i..<cb_count b]) s')" for s'
    using Suc.hyps(1) [OF k] i(1) by simp
  have item: "cb_item b i = (of_nat (i mod 10), cb_pos b i, entry b ! cb_pos b i)"
    using i(2) by (simp add: cb_item_def)
  show ?case
    using i ih foreach_continues [OF assms, of i] foreach_slot_cb_pos [of i b] next_index
    by (subst AESD_CIRCULAR_BUFFER_FOREACH.simps)
      (simp add: upt_conv_Cons item split: sum.split)
qed

lemma foreach_wf:
  assumes "cb_wf b"
  shows "AESD_CIRCULAR_BUFFER_FOREACH body b 0 (full b) s =
           Some (foreach_list body (map (cb_item b) [0..<cb_count b]) s)"
  using foreach_from [OF assms, of 0] by simp

section \<open>Finding the entry of a character offset\<close>

text \<open>
  \<open>locate sizes off\<close> is the reference: which of the consecutive pieces of the given sizes holds the
  character number \<open>off\<close> of their concatenation, and where in that piece.
\<close>

fun locate :: "nat list \<Rightarrow> nat \<Rightarrow> (nat \<times> nat) option" where
  "locate [] off = None"
| "locate (n # ns) off =
     (if off < n then Some (0, off)
      else map_option (\<lambda>(j, k). (Suc j, k)) (locate ns (off - n)))"

lemma locate_None_iff: "locate ns off = None \<longleftrightarrow> sum_list ns \<le> off"
  by (induction ns off rule: locate.induct) auto

lemma locate_SomeD:
  "locate ns off = Some (j, k) \<Longrightarrow>
     j < length ns \<and> k < ns ! j \<and> off = sum_list (take j ns) + k"
  by (induction ns off arbitrary: j rule: locate.induct) (fastforce split: if_splits)+

lemma locate_concat:
  assumes "locate (map length xss) off = Some (j, k)"
  shows "j < length xss \<and> k < length (xss ! j) \<and> off < length (concat xss) \<and>
         concat xss ! off = xss ! j ! k"
  using assms
  by (induction "map length xss" off arbitrary: xss j rule: locate.induct)
    (fastforce simp: nth_append split: if_splits)+

definition item_size :: "u8 \<times> nat \<times> aesd_buffer_entry \<Rightarrow> nat" where
  "item_size x = unat (esize (snd (snd x)))"

definition cb_sizes :: "aesd_circular_buffer \<Rightarrow> nat list" where
  "cb_sizes b = map (\<lambda>e. unat (esize e)) (cb_list b)"

lemma item_size_cb_item [simp]: "item_size (cb_item b i) = unat (esize (entry b ! cb_pos b i))"
  by (simp add: item_size_def cb_item_def)

lemma foreach_find_Cons:
  "foreach_list (find_body off) ((index, slot, e) # xs) t =
     (if off < t + esize e then Inr (slot, off - t)
      else foreach_list (find_body off) xs (t + esize e))"
  by (simp add: find_body_def)

lemma foreach_find_body:
  assumes "unat t + sum_list (map item_size xs) < 2 ^ 64" and "unat t \<le> unat off"
  shows "foreach_list (find_body off) xs t =
           (case locate (map item_size xs) (unat off - unat t) of
              Some (j, k) \<Rightarrow> Inr (fst (snd (xs ! j)), of_nat k)
            | None \<Rightarrow> Inl (t + of_nat (sum_list (map item_size xs))))"
  using assms
proof (induction xs arbitrary: t)
  case Nil
  then show ?case by simp
next
  case (Cons x xs)
  obtain index slot e where x: "x = (index, slot, e)" by (cases x)
  have size_x: "item_size x = unat (esize e)"
    by (simp add: x item_size_def)
  have t: "unat (t + esize e) = unat t + unat (esize e)"
    using Cons.prems(1) by (simp add: size_x unat_size_add)
  have IH: "foreach_list (find_body off) xs (t + esize e) =
      (case locate (map item_size xs) (unat off - unat t - unat (esize e)) of
         Some (j, k) \<Rightarrow> Inr (fst (snd (xs ! j)), of_nat k)
       | None \<Rightarrow> Inl (t + esize e + of_nat (sum_list (map item_size xs))))"
    if "\<not> off < t + esize e"
    using Cons.IH [of "t + esize e"] Cons.prems(1) that t
    by (simp add: size_x word_less_nat_alt)
  have less: "off < t + esize e \<longleftrightarrow> unat off - unat t < item_size x"
    using Cons.prems(2) t size_x by (simp add: word_less_nat_alt less_diff_conv2 add.commute)
  have diff: "of_nat (unat off - unat t) = off - t"
    using Cons.prems(2) by simp
  show ?case
  proof (cases "off < t + esize e")
    case True
    then show ?thesis
      using less diff by (simp add: x foreach_find_Cons del: foreach_list.simps)
  next
    case False
    then show ?thesis
      using less IH size_x
      by (auto simp: x foreach_find_Cons add.assoc simp del: foreach_list.simps split: option.split)
  qed
qed

lemma cb_sizes_items: "map item_size (map (cb_item b) [0..<cb_count b]) = cb_sizes b"
  by (simp add: cb_sizes_def cb_list_def)

lemma length_cb_list [simp]: "length (cb_list b) = cb_count b"
  by (simp add: cb_list_def)

lemma length_cb_sizes [simp]: "length (cb_sizes b) = cb_count b"
  by (simp add: cb_sizes_def)

lemma find_entry_wf:
  assumes "cb_wf b" and "sum_list (cb_sizes b) < 2 ^ 64"
  shows "aesd_circular_buffer_find_entry_offset_for_fpos (Some b) off (Some old) =
           Some (case locate (cb_sizes b) (unat off) of
                   Some (j, k) \<Rightarrow> (Some (cb_pos b j), Some (of_nat k))
                 | None \<Rightarrow> (None, Some old))"
proof -
  let ?items = "map (cb_item b) [0..<cb_count b]"
  have "foreach_list (find_body off) ?items 0 =
      (case locate (cb_sizes b) (unat off) of
         Some (j, k) \<Rightarrow> Inr (fst (snd (?items ! j)), of_nat k)
       | None \<Rightarrow> Inl (of_nat (sum_list (cb_sizes b))))"
    using foreach_find_body [of 0 ?items off] assms(2) unfolding cb_sizes_items
    by (simp split: option.split)
  then show ?thesis
    using assms(1)
    by (auto simp: aesd_circular_buffer_find_entry_offset_for_fpos_def foreach_wf cb_item_def
        dest: locate_SomeD split: option.split)
qed

section \<open>Adding an entry\<close>

text \<open>The effect of \<open>aesd_circular_buffer_add_entry\<close> on a well-formed buffer.\<close>

definition cb_push :: "aesd_circular_buffer \<Rightarrow> aesd_buffer_entry \<Rightarrow> aesd_circular_buffer" where
  "cb_push b e =
     b\<lparr>entry := (entry b)[unat (in_offs b) := e],
       in_offs := of_nat (Suc (unat (in_offs b)) mod 10),
       out_offs := (if full b then of_nat (Suc (unat (out_offs b)) mod 10) else out_offs b),
       full := full b \<or> Suc (unat (in_offs b)) = 10\<rparr>"

lemma unat_u8_Suc: "unat (w :: u8) < 10 \<Longrightarrow> unat (w + 1) = Suc (unat w)"
  by (simp add: unat_word_ariths)

lemma u8_Suc_nonzero: "unat (w :: u8) < 10 \<Longrightarrow> w + 1 \<noteq> 0"
  using unat_u8_Suc [of w] by auto

lemma u8_of_nat_Suc: "(of_nat (Suc (unat w)) :: u8) = w + 1"
  by simp

lemma add_entry_wf:
  assumes "cb_wf b"
  shows "aesd_circular_buffer_add_entry (Some b) (Some e) = Some (Some (cb_push b e))"
  using assms
  by (cases "unat (in_offs b) = 9"; cases "full b")
    (simp_all add: aesd_circular_buffer_add_entry_def cb_push_def cb_wf_def Let_def unat_u8_Suc
      u8_Suc_nonzero mod_Suc u8_of_nat_Suc del: of_nat_Suc)

lemma cb_wf_push: "cb_wf b \<Longrightarrow> cb_wf (cb_push b e)"
  by (auto simp: cb_wf_def cb_push_def unat_u8_of_nat simp del: of_nat_Suc)

lemma cb_count_push:
  "cb_wf b \<Longrightarrow> cb_count (cb_push b e) = (if full b then 10 else Suc (cb_count b))"
  by (auto simp: cb_wf_def cb_push_def cb_count_def unat_u8_of_nat simp del: of_nat_Suc)

lemma cb_pos_push_full:
  "full b \<Longrightarrow> cb_pos (cb_push b e) i = cb_pos b (Suc i)"
  by (simp add: cb_pos_def cb_push_def unat_u8_of_nat mod_simps del: of_nat_Suc)

lemma cb_pos_not_full: "cb_wf b \<Longrightarrow> \<not> full b \<Longrightarrow> cb_pos b i = i mod 10"
  by (simp add: cb_pos_def cb_wf_def)

lemma cb_pos_push_not_full:
  "\<not> full b \<Longrightarrow> cb_pos (cb_push b e) i = cb_pos b i"
  by (simp add: cb_pos_def cb_push_def)

lemma cb_pos_less [simp]: "cb_pos b i < 10"
  by (simp add: cb_pos_def)

lemma cb_pos_full_in_offs:
  assumes "cb_wf b" and "full b" and "i \<le> 10"
  shows "cb_pos b i = unat (in_offs b) \<longleftrightarrow> i = 0 \<or> i = 10"
proof -
  have "unat (out_offs b) < 10" and "in_offs b = out_offs b"
    using assms by (auto simp: cb_wf_def)
  then show ?thesis
    using assms(3) mod_add_cases [of i 10 "unat (out_offs b)"]
    by (cases "i = 10") (auto simp: cb_pos_def)
qed

lemma cb_list_push_full:
  assumes "cb_wf b" and "full b"
  shows "cb_list (cb_push b e) = tl (cb_list b) @ [e]"
proof (rule nth_equalityI)
  show "length (cb_list (cb_push b e)) = length (tl (cb_list b) @ [e])"
    using assms by (simp add: cb_count_push) (simp add: cb_count_def)
next
  fix i assume "i < length (cb_list (cb_push b e))"
  then have i: "i < 10" using assms by (simp add: cb_count_push)
  have len: "length (entry b) = 10" "unat (in_offs b) < 10" using assms by (auto simp: cb_wf_def)
  have "cb_list (cb_push b e) ! i = (entry b)[unat (in_offs b) := e] ! cb_pos b (Suc i)"
    using assms i by (simp add: cb_list_def cb_count_push cb_pos_push_full) (simp add: cb_push_def)
  also have "\<dots> = (tl (cb_list b) @ [e]) ! i"
    using assms i len cb_pos_full_in_offs [of b "Suc i"]
    by (auto simp: nth_append nth_tl cb_list_def cb_count_def nth_list_update)
  finally show "cb_list (cb_push b e) ! i = (tl (cb_list b) @ [e]) ! i" .
qed

lemma cb_list_push_not_full:
  assumes "cb_wf b" and "\<not> full b"
  shows "cb_list (cb_push b e) = cb_list b @ [e]"
proof (rule nth_equalityI)
  show "length (cb_list (cb_push b e)) = length (cb_list b @ [e])"
    using assms by (simp add: cb_count_push)
next
  fix i assume "i < length (cb_list (cb_push b e))"
  then have i: "i \<le> cb_count b" using assms by (simp add: cb_count_push)
  then have i: "i \<le> unat (in_offs b)" and wf: "length (entry b) = 10" "unat (in_offs b) < 10"
    using assms by (auto simp: cb_count_def cb_wf_def)
  have "cb_list (cb_push b e) ! i = (entry b)[unat (in_offs b) := e] ! i"
    using assms i wf
    by (simp add: cb_list_def cb_count_push cb_pos_push_not_full cb_pos_not_full)
      (auto simp: cb_push_def cb_count_def nth_append)
  then show "cb_list (cb_push b e) ! i = (cb_list b @ [e]) ! i"
    using assms i wf
    by (auto simp: cb_list_def nth_append cb_count_def cb_pos_not_full)
qed

lemma cb_full_iff: "cb_wf b \<Longrightarrow> full b \<longleftrightarrow> cb_count b = 10"
  by (auto simp: cb_wf_def cb_count_def)

lemma cb_list_push:
  "cb_wf b \<Longrightarrow>
     cb_list (cb_push b e) = (if length (cb_list b) < 10 then cb_list b else tl (cb_list b)) @ [e]"
  using cb_full_iff [of b]
  by (cases "full b") (auto simp: cb_list_push_full cb_list_push_not_full cb_wf_def cb_count_def)

lemma cb_count_le: "cb_wf b \<Longrightarrow> cb_count b \<le> 10"
  by (auto simp: cb_wf_def cb_count_def)

section \<open>The contract of the buffer: a bounded history\<close>

text \<open>Pushing the entries of a list one after the other.\<close>

fun push_all :: "('b \<Rightarrow> 'e \<Rightarrow> 'b option) \<Rightarrow> 'b \<Rightarrow> 'e list \<Rightarrow> 'b option" where
  "push_all push b [] = Some b"
| "push_all push b (e # es) = Option.bind (push b e) (\<lambda>b'. push_all push b' es)"

locale bounded_history =
  fixes cap :: nat
    and empty :: 'b
    and push :: "'b \<Rightarrow> 'e \<Rightarrow> 'b option"
    and elems :: "'b \<Rightarrow> 'e list"
    and invar :: "'b \<Rightarrow> bool"
  assumes cap_pos: "0 < cap"
    and invar_empty: "invar empty"
    and elems_empty: "elems empty = []"
    and elems_le: "invar b \<Longrightarrow> length (elems b) \<le> cap"
    and push_ok: "invar b \<Longrightarrow> \<exists>b'. push b e = Some b' \<and> invar b' \<and>
                    elems b' = (if length (elems b) < cap then elems b else tl (elems b)) @ [e]"
begin

lemma push_drop:
  assumes "invar b" and "push b e = Some b'"
  shows "elems b' = drop (Suc (length (elems b)) - cap) (elems b @ [e])"
proof -
  have eq: "elems b' = (if length (elems b) < cap then elems b else tl (elems b)) @ [e]"
    using push_ok [OF assms(1), of e] assms(2) by auto
  show ?thesis
  proof (cases "length (elems b) < cap")
    case True
    with eq show ?thesis by simp
  next
    case False
    with elems_le [OF assms(1)] have "length (elems b) = cap" by simp
    with eq cap_pos show ?thesis by (simp add: drop_Suc)
  qed
qed

lemma push_all_ok:
  "invar b \<Longrightarrow> \<exists>b'. push_all push b es = Some b' \<and> invar b' \<and>
     elems b' = drop (length (elems b) + length es - cap) (elems b @ es)"
proof (induction es arbitrary: b)
  case Nil
  then show ?case using elems_le [of b] by simp
next
  case (Cons e es)
  obtain b1 where b1: "push b e = Some b1" "invar b1"
    using push_ok [OF Cons.prems, of e] by blast
  have el: "elems b1 = drop (Suc (length (elems b)) - cap) (elems b @ [e])"
    by (rule push_drop [OF Cons.prems b1(1)])
  obtain b2 where b2: "push_all push b1 es = Some b2" "invar b2"
      "elems b2 = drop (length (elems b1) + length es - cap) (elems b1 @ es)"
    using Cons.IH [OF b1(2)] by blast
  have "elems b2 = drop (length (elems b) + length (e # es) - cap) (elems b @ e # es)"
    using elems_le [OF Cons.prems] cap_pos
    by (cases "length (elems b) < cap") (auto simp: b2(3) el drop_Suc tl_append Suc_diff_le split: list.split)
  with b1 b2 show ?case by auto
qed

lemma history_from_empty:
  "\<exists>b. push_all push empty es = Some b \<and> invar b \<and> elems b = drop (length es - cap) es"
  using push_all_ok [OF invar_empty, of es] by (simp add: elems_empty)

end

text \<open>The operations of the C code as the client of the buffer calls them, with valid pointers.\<close>

definition cb_add :: "aesd_circular_buffer \<Rightarrow> aesd_buffer_entry \<Rightarrow> aesd_circular_buffer option" where
  "cb_add b e = Option.bind (aesd_circular_buffer_add_entry (Some b) (Some e)) (\<lambda>r. r)"

lemma cb_add_wf [cb_simps]: "cb_wf b \<Longrightarrow> cb_add b e = Some (cb_push b e)"
  by (simp add: cb_add_def add_entry_wf)

lemma cb_init_wf: "cb_wf (aesd_circular_buffer_init b)"
  by (simp add: cb_wf_def aesd_circular_buffer_init_def)

lemma cb_init_empty: "cb_list (aesd_circular_buffer_init b) = []"
  by (simp add: cb_list_def cb_count_def aesd_circular_buffer_init_def)

interpretation cb: bounded_history 10 "aesd_circular_buffer_init b" cb_add cb_list cb_wf
  by unfold_locales (auto simp: cb_init_wf cb_init_empty cb_simps cb_wf_push cb_list_push cb_count_le)

section \<open>Properties\<close>

text \<open>A buffer after eleven writes, of sizes 1 to 11: the oldest entry is in position 1.\<close>

definition demo_buffer :: aesd_circular_buffer where
  "demo_buffer =
     \<lparr>entry = map (\<lambda>n. \<lparr>buffptr = Some n, esize = of_nat n\<rparr>) [11, 2, 3, 4, 5, 6, 7, 8, 9, 10],
      in_offs = 1, out_offs = 1, full = True\<rparr>"

lemma demo_buffer_wf: "cb_wf demo_buffer"
  by (simp add: cb_wf_def demo_buffer_def)

lemma demo_buffer_sizes: "cb_sizes demo_buffer = [2, 3, 4, 5, 6, 7, 8, 9, 10, 11]"
  by (simp add: cb_sizes_def cb_list_def cb_count_def cb_pos_def demo_buffer_def upt_rec)

text \<open>
  C9. Starting from an initialised buffer, any sequence of \<open>aesd_circular_buffer_add_entry\<close> calls succeeds without
  an access outside the array, keeps the representation invariant, and leaves exactly the last ten entries (all of
  them if there are fewer), oldest first.
\<close>

theorem add_entry_keeps_last_ten:
  "\<exists>b'. push_all cb_add (aesd_circular_buffer_init b) es = Some b' \<and> cb_wf b' \<and>
     cb_list b' = drop (length es - 10) es"
  by (rule cb.history_from_empty)

text \<open>The iteration macro visits exactly the stored entries, from the oldest to the newest.\<close>

lemma foreach_visits_entries:
  assumes "cb_wf b"
  shows "AESD_CIRCULAR_BUFFER_FOREACH body b 0 (full b) s =
           Some (foreach_list body
                   (map (\<lambda>i. (of_nat i, cb_pos b i, cb_list b ! i)) [0..<length (cb_list b)]) s)"
proof -
  have "map (cb_item b) [0..<cb_count b] =
      map (\<lambda>i. (of_nat i, cb_pos b i, cb_list b ! i)) [0..<length (cb_list b)]"
    by (simp add: cb_item_def cb_list_def)
  then show ?thesis by (simp only: foreach_wf [OF assms])
qed

lemma foreach_visits_entries_witness:
  "AESD_CIRCULAR_BUFFER_FOREACH (\<lambda>index slot e s. Inl (s @ [unat (esize e)])) demo_buffer 0 True [] =
     Some (Inl [2, 3, 4, 5, 6, 7, 8, 9, 10, 11] :: nat list + unit)"
  using foreach_visits_entries [OF demo_buffer_wf, of "\<lambda>index slot e s. Inl (s @ [unat (esize e)])" "[]"]
  by (simp add: cb_list_def cb_count_def cb_pos_def demo_buffer_def upt_rec)

text \<open>
  C8. \<open>aesd_circular_buffer_find_entry_offset_for_fpos\<close> against the concatenation of the stored strings: for an offset
  inside it returns the entry and the byte offset in it where the character at this offset of the concatenation
  stands; beyond the end it returns \<open>NULL\<close> and leaves the output argument as it was.
\<close>

theorem find_entry_offset_correct:
  assumes wf: "cb_wf b" and xss: "map length xss = cb_sizes b" and small: "length (concat xss) < 2 ^ 64"
  shows "if unat off < length (concat xss) then
           \<exists>j k. aesd_circular_buffer_find_entry_offset_for_fpos (Some b) off (Some old) =
                   Some (Some (cb_pos b j), Some (of_nat k)) \<and>
                 j < cb_count b \<and> k < length (xss ! j) \<and> xss ! j ! k = concat xss ! unat off \<and>
                 unat off = length (concat (take j xss)) + k
         else aesd_circular_buffer_find_entry_offset_for_fpos (Some b) off (Some old) = Some (None, Some old)"
proof -
  have sum: "sum_list (cb_sizes b) = length (concat xss)" by (simp add: length_concat flip: xss)
  note find = find_entry_wf [OF wf, of off old]
  show ?thesis
  proof (cases "unat off < length (concat xss)")
    case True
    then obtain j k where loc: "locate (map length xss) (unat off) = Some (j, k)"
      using locate_None_iff [of "map length xss" "unat off"] sum xss
      by (cases "locate (map length xss) (unat off)") auto
    then have "aesd_circular_buffer_find_entry_offset_for_fpos (Some b) off (Some old) =
        Some (Some (cb_pos b j), Some (of_nat k))"
      using find sum small by (simp add: xss)
    moreover have "j < cb_count b" "k < length (xss ! j)" "unat off = length (concat (take j xss)) + k"
      using locate_SomeD [OF loc] arg_cong [OF xss, of length] by (auto simp: length_concat take_map)
    moreover have "xss ! j ! k = concat xss ! unat off"
      using locate_concat [OF loc] by simp
    ultimately show ?thesis using True by (simp only: if_True) blast
  next
    case False
    then show ?thesis using find sum small locate_None_iff [of "cb_sizes b" "unat off"] by simp
  qed
qed

theorem find_entry_offset_correct_witness:
  "\<exists>j k. aesd_circular_buffer_find_entry_offset_for_fpos (Some demo_buffer) 6 (Some 0) =
       Some (Some (cb_pos demo_buffer j), Some (of_nat k)) \<and>
     unat (6 :: size_t) = length (concat (take j (map (\<lambda>n. replicate n newline) (cb_sizes demo_buffer)))) + k"
proof -
  let ?xss = "map (\<lambda>n. replicate n newline) (cb_sizes demo_buffer)"
  have "map length ?xss = cb_sizes demo_buffer" "length (concat ?xss) = 65"
    by (simp_all add: demo_buffer_sizes length_concat)
  then show ?thesis using find_entry_offset_correct [OF demo_buffer_wf, of ?xss 6 0] by auto
qed

end
