(* ===== verification/Char_Driver.thy ===== *)
theory Char_Driver
  imports Circular_Buffer
begin

text \<open>
  The file operations of the character driver, \<open>aesd-char-driver/main.c\<close>, over an explicit kernel
  heap and user memory. Kernel services that are not part of the repository (the allocator, the
  user-copy routines, \<open>fixed_size_llseek\<close>, the \<open>_IOWR\<close> macro, a signal that interrupts the lock) are
  fields of a \<open>kernel\<close> record that every handler takes as an argument; what the handlers rely on is
  stated in \<open>kernel_ok\<close>. The mutex is a flag of the device: locking a held mutex and unlocking a free
  one have no defined result, so a returned result shows the lock discipline of every path.
\<close>

section \<open>Data\<close>

type_synonym kmem = "addr \<rightharpoonup> char list"
type_synonym umem = "size_t \<Rightarrow> char"

datatype errno = EFAULT | ENOMEM | ERESTARTSYS | EINVAL | ENOTTY

record aesd_seekto =
  write_cmd :: u32
  write_cmd_offset :: u32

definition AESD_IOC_MAGIC :: u8 where
  "AESD_IOC_MAGIC = 0x16"

text \<open>
  \<open>device\<close> is the global \<open>aesd_device\<close>. Its member \<open>entry\<close> is a pointer to a separately allocated
  entry that nothing else refers to: \<^const>\<open>None\<close> for \<open>NULL\<close>, otherwise the entry it points to.
\<close>

record aesd_dev =
  circular_buffer :: aesd_circular_buffer
  dev_entry :: "aesd_buffer_entry option"
  lock :: bool
  dev_size :: loff_t

record sys =
  device :: aesd_dev
  heap :: kmem
  user :: umem

record kernel =
  mutex_interrupted :: bool
  kmalloc :: "kmem \<Rightarrow> size_t \<Rightarrow> (addr \<times> kmem) option"
  krealloc :: "kmem \<Rightarrow> addr \<Rightarrow> size_t \<Rightarrow> (addr \<times> kmem) option"
  copy_from_user :: "umem \<Rightarrow> size_t \<Rightarrow> size_t \<Rightarrow> size_t \<times> char list"
  copy_to_user :: "umem \<Rightarrow> size_t \<Rightarrow> char list \<Rightarrow> size_t \<times> umem"
  copy_seekto_from_user :: "umem \<Rightarrow> size_t \<Rightarrow> size_t \<times> aesd_seekto"
  fixed_size_llseek :: "loff_t \<Rightarrow> loff_t \<Rightarrow> int \<Rightarrow> loff_t \<Rightarrow> (errno + loff_t) \<times> loff_t"
  IOWR :: "u8 \<Rightarrow> u8 \<Rightarrow> size_t \<Rightarrow> u32"

definition AESDCHAR_IOCSEEKTO :: "kernel \<Rightarrow> u32" where
  "AESDCHAR_IOCSEEKTO k = IOWR k AESD_IOC_MAGIC 1 8"

section \<open>Memory and lock primitives\<close>

definition kread :: "kmem \<Rightarrow> addr option \<Rightarrow> size_t \<Rightarrow> size_t \<Rightarrow> char list option" where
  "kread h p off n =
     (if n = 0 then Some []
      else do {
        a \<leftarrow> p;
        bs \<leftarrow> h a;
        ensure (unat off + unat n \<le> length bs);
        Some (take (unat n) (drop (unat off) bs))
      })"

definition kwrite :: "kmem \<Rightarrow> addr option \<Rightarrow> size_t \<Rightarrow> char list \<Rightarrow> kmem option" where
  "kwrite h p off xs =
     (if xs = [] then Some h
      else do {
        a \<leftarrow> p;
        bs \<leftarrow> h a;
        ensure (unat off + length xs \<le> length bs);
        Some (h(a \<mapsto> take (unat off) bs @ xs @ drop (unat off + length xs) bs))
      })"

definition kfree :: "kmem \<Rightarrow> addr option \<Rightarrow> kmem option" where
  "kfree h p =
     (case p of
        None \<Rightarrow> Some h
      | Some a \<Rightarrow> (case h a of None \<Rightarrow> None | Some _ \<Rightarrow> Some (h(a := None))))"

definition mutex_lock :: "sys \<Rightarrow> sys option" where
  "mutex_lock s = do {
     ensure (\<not> lock (device s));
     Some (s\<lparr>device := device s\<lparr>lock := True\<rparr>\<rparr>)
   }"

definition mutex_unlock :: "sys \<Rightarrow> sys option" where
  "mutex_unlock s = do {
     ensure (lock (device s));
     Some (s\<lparr>device := device s\<lparr>lock := False\<rparr>\<rparr>)
   }"

definition set_entry :: "aesd_buffer_entry \<Rightarrow> sys \<Rightarrow> sys" where
  "set_entry e s = s\<lparr>device := device s\<lparr>dev_entry := Some e\<rparr>\<rparr>"

section \<open>The file operations\<close>

definition aesd_open :: "sys \<Rightarrow> int \<times> sys" where
  "aesd_open s = (0, s)"

definition aesd_release :: "sys \<Rightarrow> int \<times> sys" where
  "aesd_release s = (0, s)"

text \<open>The loop of \<open>aesd_read\<close>, entered with the lock held.\<close>

partial_function (option) aesd_read_loop ::
  "kernel \<Rightarrow> sys \<Rightarrow> size_t \<Rightarrow> size_t \<Rightarrow> loff_t \<Rightarrow> size_t \<Rightarrow> ((errno + size_t) \<times> loff_t \<times> sys) option" where
  "aesd_read_loop k s buf count f_pos retval = do {
     (found, rtn) \<leftarrow>
       aesd_circular_buffer_find_entry_offset_for_fpos (Some (circular_buffer (device s))) f_pos (Some 0);
     (case found of
        None \<Rightarrow> do {
          s \<leftarrow> mutex_unlock s;
          Some (Inr retval, f_pos, s)
        }
      | Some slot \<Rightarrow> do {
          entry_offset_byte_rtn \<leftarrow> rtn;
          let e = entry (circular_buffer (device s)) ! slot;
          let remaining = esize e - entry_offset_byte_rtn;
          if remaining \<ge> count then do {
            bs \<leftarrow> kread (heap s) (buffptr e) entry_offset_byte_rtn count;
            let (left, u) = copy_to_user k (user s) buf bs;
            let s = s\<lparr>user := u\<rparr>;
            if left \<noteq> 0 then do {
              s \<leftarrow> mutex_unlock s;
              Some (Inl EFAULT, f_pos, s)
            }
            else do {
              let retval = retval + count;
              let f_pos = f_pos + retval;
              s \<leftarrow> mutex_unlock s;
              Some (Inr retval, f_pos, s)
            }
          }
          else do {
            bs \<leftarrow> kread (heap s) (buffptr e) entry_offset_byte_rtn remaining;
            let (left, u) = copy_to_user k (user s) buf bs;
            let s = s\<lparr>user := u\<rparr>;
            if left \<noteq> 0 then do {
              s \<leftarrow> mutex_unlock s;
              Some (Inl EFAULT, f_pos, s)
            }
            else
              aesd_read_loop k s (buf + remaining) (count - remaining) (f_pos + remaining)
                (retval + remaining)
          }
        })
   }"

definition aesd_read ::
  "kernel \<Rightarrow> sys \<Rightarrow> size_t \<Rightarrow> size_t \<Rightarrow> loff_t \<Rightarrow> ((errno + size_t) \<times> loff_t \<times> sys) option" where
  "aesd_read k s buf count f_pos =
     (if mutex_interrupted k then Some (Inl ERESTARTSYS, f_pos, s)
      else do {
        s \<leftarrow> mutex_lock s;
        aesd_read_loop k s buf count f_pos 0
      })"

text \<open>
  The allocation at the start of \<open>aesd_write\<close>: a new buffer when none is pending, otherwise the pending
  one is enlarged.
\<close>

definition aesd_write_alloc :: "kernel \<Rightarrow> kmem \<Rightarrow> aesd_buffer_entry \<Rightarrow> size_t \<Rightarrow> (addr \<times> kmem) option" where
  "aesd_write_alloc k h e count =
     (case buffptr e of
        None \<Rightarrow> kmalloc k h count
      | Some p \<Rightarrow> krealloc k h p (esize e + count))"

text \<open>
  The branch of \<open>aesd_write\<close> for a newline at the end. \<open>oldEntry\<close> is a pointer into the array of the
  circular buffer, and \<open>oldEntry->size\<close> is read after \<open>aesd_circular_buffer_add_entry\<close>.
\<close>

definition aesd_write_commit :: "sys \<Rightarrow> aesd_buffer_entry \<Rightarrow> size_t \<Rightarrow> sys option" where
  "aesd_write_commit s e count = do {
     let cb = circular_buffer (device s);
     let wasFull = full cb;
     old \<leftarrow> (if wasFull then do {
               (found, rtn) \<leftarrow> aesd_circular_buffer_find_entry_offset_for_fpos (Some cb) 0 (Some 0);
               oldEntry \<leftarrow> found;
               Some (oldEntry, buffptr (entry cb ! oldEntry))
             }
             else Some (0, None));
     r \<leftarrow> aesd_circular_buffer_add_entry (Some cb) (Some e);
     cb \<leftarrow> r;
     h \<leftarrow> (if wasFull then kfree (heap s) (snd old) else Some (heap s));
     let sz = (if wasFull then dev_size (device s) - esize (entry cb ! fst old)
               else dev_size (device s));
     Some (s\<lparr>heap := h,
             device := device s\<lparr>circular_buffer := cb, dev_size := sz + count,
                                dev_entry := Some (e\<lparr>buffptr := None, esize := 0\<rparr>)\<rparr>\<rparr>)
   }"

definition aesd_write ::
  "kernel \<Rightarrow> sys \<Rightarrow> size_t \<Rightarrow> size_t \<Rightarrow> loff_t \<Rightarrow> ((errno + size_t) \<times> loff_t \<times> sys) option" where
  "aesd_write k s buf count f_pos =
     (if mutex_interrupted k then Some (Inl ERESTARTSYS, f_pos, s)
      else do {
        s \<leftarrow> mutex_lock s;
        e \<leftarrow> dev_entry (device s);
        (case aesd_write_alloc k (heap s) e count of
           None \<Rightarrow> do {
             s \<leftarrow> mutex_unlock (set_entry (e\<lparr>buffptr := None, esize := 0\<rparr>) s);
             Some (Inl ENOMEM, f_pos, s)
           }
         | Some (p, h) \<Rightarrow> do {
             let e = e\<lparr>buffptr := Some p\<rparr>;
             let (left, bs) = copy_from_user k (user s) buf count;
             h \<leftarrow> kwrite h (Some p) (esize e) bs;
             if left \<noteq> 0 then do {
               h \<leftarrow> kfree h (Some p);
               s \<leftarrow> mutex_unlock (set_entry (e\<lparr>buffptr := None, esize := 0\<rparr>) (s\<lparr>heap := h\<rparr>));
               Some (Inl EFAULT, f_pos, s)
             }
             else do {
               let e = e\<lparr>esize := esize e + count\<rparr>;
               let s = set_entry e (s\<lparr>heap := h\<rparr>);
               c \<leftarrow> kread h (buffptr e) (esize e - 1) 1;
               s \<leftarrow> (if c = [newline] then aesd_write_commit s e count else Some s);
               s \<leftarrow> mutex_unlock s;
               Some (Inr count, f_pos + count, s)
             }
           })
      })"

definition aesd_llseek ::
  "kernel \<Rightarrow> sys \<Rightarrow> loff_t \<Rightarrow> loff_t \<Rightarrow> int \<Rightarrow> ((errno + loff_t) \<times> loff_t \<times> sys) option" where
  "aesd_llseek k s f_pos offset origin =
     (if mutex_interrupted k then Some (Inl ERESTARTSYS, f_pos, s)
      else do {
        s \<leftarrow> mutex_lock s;
        let (new_pos, f_pos) = fixed_size_llseek k f_pos offset origin (dev_size (device s));
        s \<leftarrow> mutex_unlock s;
        Some (new_pos, f_pos, s)
      })"

definition adjust_body ::
  "u32 \<Rightarrow> u32 \<Rightarrow> u8 \<Rightarrow> nat \<Rightarrow> aesd_buffer_entry \<Rightarrow> loff_t \<Rightarrow> loff_t + loff_t" where
  "adjust_body cmd off index slot e t =
     (if unat cmd = unat index then
        (if ucast off < esize e then Inr (t + ucast off) else Inl t)
      else Inl (t + esize e))"

definition aesd_adjust_file_offset ::
  "kernel \<Rightarrow> sys \<Rightarrow> loff_t \<Rightarrow> u32 \<Rightarrow> u32 \<Rightarrow> ((errno + loff_t) \<times> loff_t \<times> sys) option" where
  "aesd_adjust_file_offset k s f_pos cmd off =
     (if mutex_interrupted k then Some (Inl ERESTARTSYS, f_pos, s)
      else do {
        s \<leftarrow> mutex_lock s;
        let buf = circular_buffer (device s);
        r \<leftarrow> AESD_CIRCULAR_BUFFER_FOREACH (adjust_body cmd off) buf 0 (full buf) 0;
        s \<leftarrow> mutex_unlock s;
        Some (case r of
           Inr pos \<Rightarrow> (Inr 0, pos, s)
         | Inl t \<Rightarrow> (Inl EINVAL, f_pos, s))
      })"

definition aesd_ioctl ::
  "kernel \<Rightarrow> sys \<Rightarrow> loff_t \<Rightarrow> u32 \<Rightarrow> size_t \<Rightarrow> ((errno + loff_t) \<times> loff_t \<times> sys) option" where
  "aesd_ioctl k s f_pos cmd arg =
     (if cmd = AESDCHAR_IOCSEEKTO k then
        let (left, seekto) = copy_seekto_from_user k (user s) arg in
        if left \<noteq> 0 then Some (Inl EFAULT, f_pos, s)
        else aesd_adjust_file_offset k s f_pos (write_cmd seekto) (write_cmd_offset seekto)
      else Some (Inl ENOTTY, f_pos, s))"

text \<open>
  The table \<open>aesd_fops\<close>: which handler the kernel runs for a call on an open file. A call carries the
  answers the kernel gives while it runs; \<open>UserStore\<close> is a user program that changes its memory between
  two calls.
\<close>

datatype dev_call =
    Open
  | Release
  | Read kernel size_t size_t
  | Write kernel size_t size_t
  | Llseek kernel loff_t int
  | Ioctl kernel u32 size_t
  | UserStore umem

fun aesd_fops :: "dev_call \<Rightarrow> sys \<Rightarrow> loff_t \<Rightarrow> ((errno + size_t) \<times> loff_t \<times> sys) option" where
  "aesd_fops Open s f_pos = Some (Inr (of_int (fst (aesd_open s))), f_pos, snd (aesd_open s))"
| "aesd_fops Release s f_pos = Some (Inr (of_int (fst (aesd_release s))), f_pos, snd (aesd_release s))"
| "aesd_fops (Read k buf count) s f_pos = aesd_read k s buf count f_pos"
| "aesd_fops (Write k buf count) s f_pos = aesd_write k s buf count f_pos"
| "aesd_fops (Llseek k offset origin) s f_pos = aesd_llseek k s f_pos offset origin"
| "aesd_fops (Ioctl k cmd arg) s f_pos = aesd_ioctl k s f_pos cmd arg"
| "aesd_fops (UserStore u) s f_pos = Some (Inr 0, f_pos, s\<lparr>user := u\<rparr>)"

text \<open>Calls on several open files, one after the other as the mutex orders them.\<close>

fun run_calls ::
  "('c \<Rightarrow> 's \<Rightarrow> 'p \<Rightarrow> ('r \<times> 'p \<times> 's) option) \<Rightarrow> (nat \<times> 'c) list \<Rightarrow> 's \<Rightarrow> (nat \<Rightarrow> 'p)
     \<Rightarrow> ('r list \<times> 's \<times> (nat \<Rightarrow> 'p)) option" where
  "run_calls run [] s files = Some ([], s, files)"
| "run_calls run ((fd, c) # cs) s files = do {
     (r, pos, s) \<leftarrow> run c s (files fd);
     (rs, s, files) \<leftarrow> run_calls run cs s (files(fd := pos));
     Some (r # rs, s, files)
   }"

section \<open>Loading and unloading the module\<close>

text \<open>
  What the kernel answers while the module is loaded: the result and the major number of
  \<open>alloc_chrdev_region\<close>, the result of \<open>cdev_add\<close>, and whether the allocation of the pending entry
  succeeds. \<open>region\<close> and \<open>cdev_live\<close> record what is registered with the kernel.
\<close>

record module_env =
  alloc_chrdev_region :: "int \<times> nat"
  cdev_add :: int
  entry_alloc :: bool

record aesd_module =
  msys :: sys
  aesd_major :: nat
  region :: bool
  cdev_live :: bool

definition aesd_setup_cdev :: "module_env \<Rightarrow> aesd_module \<Rightarrow> int \<times> aesd_module" where
  "aesd_setup_cdev env m = (cdev_add env, m\<lparr>cdev_live := (cdev_add env = 0)\<rparr>)"

definition zero_device :: aesd_dev where
  "zero_device =
     \<lparr>circular_buffer =
        \<lparr>entry = replicate AESDCHAR_MAX_WRITE_OPERATIONS_SUPPORTED \<lparr>buffptr = None, esize = 0\<rparr>,
         in_offs = 0, out_offs = 0, full = False\<rparr>,
      dev_entry = None, lock = False, dev_size = 0\<rparr>"

definition aesd_init_module :: "module_env \<Rightarrow> aesd_module \<Rightarrow> (int \<times> aesd_module) option" where
  "aesd_init_module env m =
     (let (result, major) = alloc_chrdev_region env;
          m = m\<lparr>aesd_major := major\<rparr>
      in if result < 0 then Some (result, m)
         else do {
           let d = zero_device;
           let d = d\<lparr>circular_buffer := aesd_circular_buffer_init (circular_buffer d)\<rparr>;
           let d = d\<lparr>lock := False\<rparr>;
           ensure (entry_alloc env);
           let d = d\<lparr>dev_entry := Some \<lparr>buffptr = None, esize = 0\<rparr>\<rparr>;
           let d = d\<lparr>dev_size := 0\<rparr>;
           let m = m\<lparr>msys := (msys m)\<lparr>device := d\<rparr>, region := True\<rparr>;
           let (result, m) = aesd_setup_cdev env m;
           Some (result, if result \<noteq> 0 then m\<lparr>region := False\<rparr> else m)
         })"

definition aesd_cleanup_module :: "aesd_module \<Rightarrow> aesd_module" where
  "aesd_cleanup_module m =
     m\<lparr>cdev_live := False,
       msys := (msys m)\<lparr>device := (device (msys m))\<lparr>dev_entry := None\<rparr>\<rparr>,
       region := False\<rparr>"

end
