(* ===== verification/Driver_Refinement.thy ===== *)
theory Driver_Refinement
  imports Char_Driver
begin

text \<open>
  The contract of the driver. The device is abstracted to the list of its last ten commands and the
  bytes of an unfinished one; \<open>dev_wf\<close> is the representation invariant that ties the circular buffer,
  the pending entry and the kernel heap together. Every handler is shown to return, to keep the
  invariant, to release the lock and to implement its abstract counterpart, on the error paths too.
\<close>

section \<open>What the driver relies on\<close>

definition read_user :: "umem \<Rightarrow> size_t \<Rightarrow> nat \<Rightarrow> char list" where
  "read_user u a n = map (\<lambda>i. u (a + of_nat i)) [0..<n]"

definition write_user :: "umem \<Rightarrow> size_t \<Rightarrow> char list \<Rightarrow> umem" where
  "write_user u a bs = (\<lambda>x. if unat (x - a) < length bs then bs ! unat (x - a) else u x)"

text \<open>
  \<open>kmalloc\<close> returns a block of the requested size that overlaps no other block, and never one beyond
  \<open>KMALLOC_MAX_SIZE\<close>, which is below $2^{32}$ on every configuration of the kernel. A growing
  \<open>krealloc\<close> keeps the old contents as a prefix and may move the block. \<open>copy_from_user\<close> and
  \<open>copy_to_user\<close> return the number of bytes that could not be copied.
\<close>

definition kmalloc_ok :: "kernel \<Rightarrow> bool" where
  "kmalloc_ok k \<longleftrightarrow> (\<forall>h n p h'. kmalloc k h n = Some (p, h') \<longrightarrow>
     h p = None \<and> unat n \<le> 2 ^ 32 \<and> (\<exists>bs. length bs = unat n \<and> h' = h(p \<mapsto> bs)))"

definition krealloc_ok :: "kernel \<Rightarrow> bool" where
  "krealloc_ok k \<longleftrightarrow> (\<forall>h q n p h' old. h q = Some old \<longrightarrow> length old \<le> unat n \<longrightarrow>
     krealloc k h q n = Some (p, h') \<longrightarrow>
     (h(q := None)) p = None \<and> unat n \<le> 2 ^ 32 \<and>
     (\<exists>bs. length bs = unat n \<and> take (length old) bs = old \<and> h' = (h(q := None))(p \<mapsto> bs)))"

definition copy_from_user_ok :: "kernel \<Rightarrow> bool" where
  "copy_from_user_ok k \<longleftrightarrow> (\<forall>u a n. length (snd (copy_from_user k u a n)) = unat n \<and>
     (fst (copy_from_user k u a n) = 0 \<longrightarrow> snd (copy_from_user k u a n) = read_user u a (unat n)))"

definition copy_to_user_ok :: "kernel \<Rightarrow> bool" where
  "copy_to_user_ok k \<longleftrightarrow> (\<forall>u a bs. fst (copy_to_user k u a bs) = 0 \<longrightarrow>
     snd (copy_to_user k u a bs) = write_user u a bs)"

definition kernel_ok :: "kernel \<Rightarrow> bool" where
  "kernel_ok k \<longleftrightarrow> kmalloc_ok k \<and> krealloc_ok k \<and> copy_from_user_ok k \<and> copy_to_user_ok k"

section \<open>Invariant and abstraction\<close>

definition entry_bytes :: "kmem \<Rightarrow> aesd_buffer_entry \<Rightarrow> char list" where
  "entry_bytes h e =
     (case buffptr e of
        None \<Rightarrow> []
      | Some p \<Rightarrow> (case h p of None \<Rightarrow> [] | Some bs \<Rightarrow> take (unat (esize e)) bs))"

definition entry_ok :: "kmem \<Rightarrow> aesd_buffer_entry \<Rightarrow> bool" where
  "entry_ok h e \<longleftrightarrow>
     (case buffptr e of
        None \<Rightarrow> False
      | Some p \<Rightarrow>
          (case h p of
             None \<Rightarrow> False
           | Some bs \<Rightarrow> length bs = unat (esize e) \<and> bs \<noteq> [] \<and> length bs \<le> 2 ^ 32))"

definition command_ok :: "kmem \<Rightarrow> aesd_buffer_entry \<Rightarrow> bool" where
  "command_ok h e \<longleftrightarrow> entry_ok h e \<and> last (entry_bytes h e) = newline"

definition pending_ok :: "kmem \<Rightarrow> aesd_buffer_entry \<Rightarrow> bool" where
  "pending_ok h e \<longleftrightarrow>
     (if buffptr e = None then esize e = 0
      else entry_ok h e \<and> last (entry_bytes h e) \<noteq> newline)"

definition commands_wf :: "aesd_circular_buffer \<Rightarrow> kmem \<Rightarrow> bool" where
  "commands_wf cb h \<longleftrightarrow>
     cb_wf cb \<and> (\<forall>e \<in> set (cb_list cb). command_ok h e) \<and> distinct (map buffptr (cb_list cb))"

definition dev_wf :: "sys \<Rightarrow> bool" where
  "dev_wf s \<longleftrightarrow>
     commands_wf (circular_buffer (device s)) (heap s) \<and>
     (case dev_entry (device s) of
        None \<Rightarrow> False
      | Some e \<Rightarrow> pending_ok (heap s) e \<and>
          (buffptr e \<noteq> None \<longrightarrow> buffptr e \<notin> set (map buffptr (cb_list (circular_buffer (device s))))))"

definition dev_cmds :: "sys \<Rightarrow> char list list" where
  "dev_cmds s = map (entry_bytes (heap s)) (cb_list (circular_buffer (device s)))"

definition dev_pending :: "sys \<Rightarrow> char list" where
  "dev_pending s = (case dev_entry (device s) of None \<Rightarrow> [] | Some e \<Rightarrow> entry_bytes (heap s) e)"

text \<open>The blocks the device refers to; without a leak they are all the blocks there are.\<close>

definition owned :: "sys \<Rightarrow> addr set" where
  "owned s =
     {p. Some p \<in> buffptr ` set (cb_list (circular_buffer (device s)))} \<union>
     {p. \<exists>e. dev_entry (device s) = Some e \<and> buffptr e = Some p}"

definition no_leak :: "sys \<Rightarrow> bool" where
  "no_leak s \<longleftrightarrow> dom (heap s) = owned s"

text \<open>The abstract write: data is appended to the unfinished command, a newline at the end commits it.\<close>

definition spec_write :: "char list list \<times> char list \<Rightarrow> char list \<Rightarrow> char list list \<times> char list" where
  "spec_write = (\<lambda>(cmds, pend) bs.
     let p = pend @ bs in
     if last p = newline then (drop (Suc (length cmds) - 10) (cmds @ [p]), []) else (cmds, p))"

section \<open>Frame and size lemmas\<close>

lemma entry_frame:
  assumes "\<And>p. buffptr e = Some p \<Longrightarrow> h' p = h p"
  shows "entry_ok h' e = entry_ok h e" and "entry_bytes h' e = entry_bytes h e"
    and "command_ok h' e = command_ok h e"
  using assms by (auto simp: entry_ok_def entry_bytes_def command_ok_def split: option.split)

lemma commands_frame:
  assumes "\<And>p. Some p \<in> buffptr ` set (cb_list cb) \<Longrightarrow> h' p = h p"
  shows "commands_wf cb h' = commands_wf cb h"
    and "map (entry_bytes h') (cb_list cb) = map (entry_bytes h) (cb_list cb)"
proof -
  have fr: "e \<in> set (cb_list cb) \<Longrightarrow> buffptr e = Some p \<Longrightarrow> h' p = h p" for e p
    using assms by (metis imageI)
  show "commands_wf cb h' = commands_wf cb h"
    using fr by (auto simp: commands_wf_def entry_frame(3) [of _ h' h])
  show "map (entry_bytes h') (cb_list cb) = map (entry_bytes h) (cb_list cb)"
    using fr by (auto intro: entry_frame(2))
qed

lemma entry_okE:
  assumes "entry_ok h e"
  obtains p bs where "buffptr e = Some p" "h p = Some bs" "length bs = unat (esize e)" "bs \<noteq> []"
    "length bs \<le> 2 ^ 32" "entry_bytes h e = bs"
  using assms by (auto simp: entry_ok_def entry_bytes_def split: option.splits)

lemma commands_wf_sizes:
  assumes "commands_wf cb h"
  shows "cb_sizes cb = map length (map (entry_bytes h) (cb_list cb))"
proof -
  have "unat (esize e) = length (entry_bytes h e)" if "e \<in> set (cb_list cb)" for e
  proof -
    from assms that have "entry_ok h e" by (auto simp: commands_wf_def command_ok_def)
    then show ?thesis by (auto elim!: entry_okE)
  qed
  then show ?thesis by (simp add: cb_sizes_def)
qed

lemma commands_wf_total:
  assumes "commands_wf cb h"
  shows "sum_list (cb_sizes cb) \<le> 10 * 2 ^ 32"
proof -
  have "\<forall>n \<in> set (cb_sizes cb). n \<le> 2 ^ 32"
    using assms by (auto simp: cb_sizes_def commands_wf_def command_ok_def elim!: entry_okE)
  then have "sum_list (cb_sizes cb) \<le> length (cb_sizes cb) * 2 ^ 32"
    using sum_list_mono [of "cb_sizes cb" "\<lambda>n. n" "\<lambda>n. 2 ^ 32"]
    by (simp add: sum_list_triv)
  also have "\<dots> \<le> 10 * 2 ^ 32"
    using assms cb_count_le [of cb] by (simp add: commands_wf_def)
  finally show ?thesis .
qed

lemma find_commands:
  assumes "commands_wf cb h"
  shows "aesd_circular_buffer_find_entry_offset_for_fpos (Some cb) off (Some old) =
           Some (case locate (map length (map (entry_bytes h) (cb_list cb))) (unat off) of
                   Some (j, k) \<Rightarrow> (Some (cb_pos cb j), Some (of_nat k))
                 | None \<Rightarrow> (None, Some old))"
proof -
  have "sum_list (cb_sizes cb) < 2 ^ 64"
    using commands_wf_total [OF assms] by simp
  then show ?thesis
    using assms find_entry_wf [of cb off old] by (simp add: commands_wf_sizes) (simp add: commands_wf_def)
qed

section \<open>Writing\<close>

definition heap_without :: "kmem \<Rightarrow> aesd_buffer_entry \<Rightarrow> kmem" where
  "heap_without h e = (case buffptr e of None \<Rightarrow> h | Some q \<Rightarrow> h(q := None))"

lemma read_user_length [simp]: "length (read_user u a n) = n"
  by (simp add: read_user_def)

lemma pending_size_le: "pending_ok h e \<Longrightarrow> unat (esize e) \<le> 2 ^ 32"
  by (auto simp: pending_ok_def split: if_splits elim!: entry_okE)

lemma pending_bytes_length: "pending_ok h e \<Longrightarrow> length (entry_bytes h e) = unat (esize e)"
  by (auto simp: pending_ok_def entry_bytes_def split: if_splits elim!: entry_okE)

lemma write_alloc_ok:
  assumes k: "kernel_ok k" and e: "pending_ok h e"
    and alloc: "aesd_write_alloc k h e count = Some (p, h1)"
    and small: "unat count \<le> 2 ^ 31"
  obtains bs where "h1 = (heap_without h e)(p \<mapsto> bs)" "heap_without h e p = None"
    "take (unat (esize e)) bs = entry_bytes h e" "length bs = unat (esize e) + unat count"
    "unat (esize e) + unat count \<le> 2 ^ 32"
proof (cases "buffptr e")
  case None
  with e alloc k that show ?thesis
    by (fastforce simp: pending_ok_def aesd_write_alloc_def kernel_ok_def kmalloc_ok_def
        heap_without_def entry_bytes_def)
next
  case (Some q)
  have "entry_ok h e" using e Some by (simp add: pending_ok_def)
  then obtain old where old: "h q = Some old" "length old = unat (esize e)" "entry_bytes h e = old"
    using Some by (auto elim!: entry_okE)
  have sum: "unat (esize e + count) = unat (esize e) + unat count"
    using pending_size_le [OF e] small by (simp add: unat_size_add)
  have "krealloc k h q (esize e + count) = Some (p, h1)"
    using alloc Some by (simp add: aesd_write_alloc_def)
  moreover have "length old \<le> unat (esize e + count)" using old sum by simp
  ultimately have "(h(q := None)) p = None \<and> unat (esize e + count) \<le> 2 ^ 32 \<and>
      (\<exists>bs. length bs = unat (esize e + count) \<and> take (length old) bs = old \<and>
            h1 = (h(q := None))(p \<mapsto> bs))"
    using k old(1) unfolding kernel_ok_def krealloc_ok_def by blast
  with that old sum Some show ?thesis by (auto simp: heap_without_def)
qed

lemma kwrite_append:
  assumes "h p = Some bs" and "length bs = unat off + length xs"
  shows "kwrite h (Some p) off xs = Some (h(p \<mapsto> take (unat off) bs @ xs))"
  using assms by (auto simp: kwrite_def)

lemma kread_last:
  assumes "h p = Some bs" and "length bs = unat n" and "bs \<noteq> []"
  shows "kread h (Some p) (n - 1) 1 = Some [last bs]"
proof -
  have n: "unat (n - 1) = length bs - 1"
    using assms by (cases "n = 0") (simp_all add: unat_minus_one)
  then have "take (Suc 0) (drop (unat (n - 1)) bs) = [last bs]"
    using assms(3) by (metis append_butlast_last_id append_eq_conv_conj length_butlast
        One_nat_def take_Suc_Cons take_0)
  moreover have "Suc (unat (n - 1)) \<le> length bs"
    using assms(3) by (simp only: n) (cases bs, simp_all)
  ultimately show ?thesis
    using assms(1) by (simp add: kread_def)
qed

lemma write_alloc_fresh:
  assumes "kernel_ok k" and "pending_ok h e" and "aesd_write_alloc k h e count = Some (p, h1)"
    and "unat count \<le> 2 ^ 31"
  shows "heap_without h e p = None"
  using assms by (rule write_alloc_ok)

text \<open>The data part of a successful write: the pending block holds the old bytes and the new ones.\<close>

lemma write_data_ok:
  assumes "kernel_ok k" and "pending_ok h e" and "aesd_write_alloc k h e count = Some (p, h1)"
    and "unat count \<le> 2 ^ 31"
  shows "kwrite h1 (Some p) (esize e) (snd (copy_from_user k u buf count)) =
      Some ((heap_without h e)(p \<mapsto> entry_bytes h e @ snd (copy_from_user k u buf count)))"
    and "unat (esize e + count) = length (entry_bytes h e @ snd (copy_from_user k u buf count))"
    and "length (entry_bytes h e @ snd (copy_from_user k u buf count)) \<le> 2 ^ 32"
proof -
  obtain bs where bs: "h1 = (heap_without h e)(p \<mapsto> bs)" "heap_without h e p = None"
      "take (unat (esize e)) bs = entry_bytes h e" "length bs = unat (esize e) + unat count"
      "unat (esize e) + unat count \<le> 2 ^ 32"
    using assms by (rule write_alloc_ok)
  have len: "length (snd (copy_from_user k u buf count)) = unat count"
    using assms(1) by (simp add: kernel_ok_def copy_from_user_ok_def)
  show "kwrite h1 (Some p) (esize e) (snd (copy_from_user k u buf count)) =
      Some ((heap_without h e)(p \<mapsto> entry_bytes h e @ snd (copy_from_user k u buf count)))"
    using bs len kwrite_append [of h1 p bs "esize e"] by simp
  show "unat (esize e + count) = length (entry_bytes h e @ snd (copy_from_user k u buf count))"
    using bs(5) len pending_bytes_length [OF assms(2)] by (simp add: unat_size_add)
  show "length (entry_bytes h e @ snd (copy_from_user k u buf count)) \<le> 2 ^ 32"
    using bs(5) len pending_bytes_length [OF assms(2)] by simp
qed

lemma find_oldest:
  assumes "commands_wf cb h" and "full cb"
  shows "aesd_circular_buffer_find_entry_offset_for_fpos (Some cb) 0 (Some old) =
           Some (Some (cb_pos cb 0), Some 0)"
proof -
  obtain e es where es: "cb_list cb = e # es"
    using assms by (cases "cb_list cb") (auto simp: cb_list_def cb_count_def)
  then have "entry_bytes h e \<noteq> []"
    using assms by (auto simp: commands_wf_def command_ok_def elim!: entry_okE)
  then show ?thesis
    using es by (simp add: find_commands [OF assms(1)])
qed

lemma cb_list_hd:
  "full cb \<Longrightarrow> hd (cb_list cb) = entry cb ! cb_pos cb 0"
  by (simp add: cb_list_def cb_count_def upt_conv_Cons)

lemma push_overwrites_oldest:
  assumes "cb_wf cb" and "full cb"
  shows "entry (cb_push cb e) ! cb_pos cb 0 = e"
  using assms cb_pos_full_in_offs [of cb 0] by (simp add: cb_push_def cb_wf_def)

text \<open>Committing a finished command: the oldest one is dropped when there are ten already.\<close>

definition committed :: "sys \<Rightarrow> aesd_buffer_entry \<Rightarrow> size_t \<Rightarrow> sys" where
  "committed s e count =
     s\<lparr>heap := (if full (circular_buffer (device s))
                 then (heap s)(the (buffptr (hd (cb_list (circular_buffer (device s))))) := None)
                 else heap s),
       device := device s\<lparr>circular_buffer := cb_push (circular_buffer (device s)) e,
         dev_size := (if full (circular_buffer (device s)) then dev_size (device s) - esize e
                      else dev_size (device s)) + count,
         dev_entry := Some (e\<lparr>buffptr := None, esize := 0\<rparr>)\<rparr>\<rparr>"

lemma write_commit_eq:
  assumes "commands_wf (circular_buffer (device s)) (heap s)"
  shows "aesd_write_commit s e count = Some (committed s e count)"
proof (cases "full (circular_buffer (device s))")
  case False
  then show ?thesis
    using assms by (simp add: aesd_write_commit_def committed_def commands_wf_def add_entry_wf)
next
  case True
  let ?cb = "circular_buffer (device s)"
  have "hd (cb_list ?cb) \<in> set (cb_list ?cb)"
    using True by (simp add: cb_list_def cb_count_def upt_conv_Cons)
  then have "command_ok (heap s) (hd (cb_list ?cb))"
    using assms by (auto simp: commands_wf_def)
  then obtain p bs where p: "buffptr (entry ?cb ! cb_pos ?cb 0) = Some p" "heap s p = Some bs"
    using True by (auto simp: command_ok_def cb_list_hd elim!: entry_okE)
  show ?thesis
    using assms True p
    by (simp add: aesd_write_commit_def find_oldest [OF assms True] commands_wf_def add_entry_wf
        cb_list_hd push_overwrites_oldest kfree_def Let_def committed_def)
qed

lemma write_fresh:
  assumes "dev_wf s" and "dev_entry (device s) = Some e" and "heap_without (heap s) e p = None"
  shows "Some p \<notin> buffptr ` set (cb_list (circular_buffer (device s)))"
    and "Some q \<in> buffptr ` set (cb_list (circular_buffer (device s))) \<Longrightarrow>
           heap_without (heap s) e q = heap s q"
proof -
  let ?L = "cb_list (circular_buffer (device s))"
  have live: "\<exists>bs. heap s q = Some bs" if "Some q \<in> buffptr ` set ?L" for q
    using assms(1) that by (auto simp: dev_wf_def commands_wf_def command_ok_def elim!: entry_okE)
  show frame: "heap_without (heap s) e q = heap s q" if "Some q \<in> buffptr ` set ?L" for q
    using assms(1,2) that by (auto simp: dev_wf_def heap_without_def split: option.splits)
  show "Some p \<notin> buffptr ` set ?L"
    using live [of p] frame [of p] assms(3) by auto
qed

lemma lock_first: "d\<lparr>lock := b, dev_entry := x\<rparr> = d\<lparr>dev_entry := x, lock := b\<rparr>"
  by simp

text \<open>The four ways a write that got the lock returns.\<close>

lemma write_nomem:
  assumes "\<not> mutex_interrupted k" and "\<not> lock (device s)" and "dev_entry (device s) = Some e"
    and "aesd_write_alloc k (heap s) e count = None"
  shows "aesd_write k s buf count f_pos =
    Some (Inl ENOMEM, f_pos, set_entry (e\<lparr>buffptr := None, esize := 0\<rparr>) s)"
  using assms by (simp add: aesd_write_def mutex_lock_def mutex_unlock_def set_entry_def)

lemma write_fault:
  assumes "kernel_ok k" and "dev_wf s" and "unat count \<le> 2 ^ 31"
    and "\<not> mutex_interrupted k" and "\<not> lock (device s)" and "dev_entry (device s) = Some e"
    and "aesd_write_alloc k (heap s) e count = Some (p, h1)"
    and "fst (copy_from_user k (user s) buf count) \<noteq> 0"
  shows "aesd_write k s buf count f_pos =
    Some (Inl EFAULT, f_pos,
          set_entry (e\<lparr>buffptr := None, esize := 0\<rparr>) (s\<lparr>heap := heap_without (heap s) e\<rparr>))"
proof -
  have e: "pending_ok (heap s) e" using assms(2,6) by (simp add: dev_wf_def)
  obtain left bs where c: "copy_from_user k (user s) buf count = (left, bs)" by (cases "copy_from_user k (user s) buf count")
  note d = write_data_ok [OF assms(1) e assms(7) assms(3), of "user s" buf]
  have "(heap_without (heap s) e)(p := None) = heap_without (heap s) e"
    using write_alloc_fresh [OF assms(1) e assms(7,3)] by (simp add: fun_upd_idem)
  then show ?thesis
    using assms(4-8) d(1) c
    by (simp add: aesd_write_def mutex_lock_def mutex_unlock_def set_entry_def kfree_def)
qed

lemma write_data:
  assumes "kernel_ok k" and "dev_wf s" and "0 < unat count" and "unat count \<le> 2 ^ 31"
    and "\<not> mutex_interrupted k" and "\<not> lock (device s)" and "dev_entry (device s) = Some e"
    and "aesd_write_alloc k (heap s) e count = Some (p, h1)"
    and "fst (copy_from_user k (user s) buf count) = 0"
    and e': "e' = e\<lparr>buffptr := Some p, esize := esize e + count\<rparr>"
    and s1: "s1 = set_entry e' (s\<lparr>heap := (heap_without (heap s) e)(p \<mapsto> dev_pending s @ read_user (user s) buf (unat count))\<rparr>)"
  shows "aesd_write k s buf count f_pos =
      (if last (dev_pending s @ read_user (user s) buf (unat count)) = newline then
         Option.bind (aesd_write_commit (s1\<lparr>device := device s1\<lparr>lock := True\<rparr>\<rparr>) e' count)
           (\<lambda>s'. Option.bind (mutex_unlock s') (\<lambda>s'. Some (Inr count, f_pos + count, s')))
       else Some (Inr count, f_pos + count, s1))"
    and "entry_ok (heap s1) e'"
    and "entry_bytes (heap s1) e' = dev_pending s @ read_user (user s) buf (unat count)"
    and "commands_wf (circular_buffer (device s1)) (heap s1)"
    and "dev_cmds s1 = dev_cmds s"
    and "buffptr e' \<notin> buffptr ` set (cb_list (circular_buffer (device s1)))"
proof -
  let ?new = "dev_pending s @ read_user (user s) buf (unat count)"
  have pend: "dev_pending s = entry_bytes (heap s) e" using assms(7) by (simp add: dev_pending_def)
  have e: "pending_ok (heap s) e" using assms(2,7) by (simp add: dev_wf_def)
  have c: "copy_from_user k (user s) buf count = (0, read_user (user s) buf (unat count))"
    using assms(1,9) by (simp add: kernel_ok_def copy_from_user_ok_def prod_eq_iff)
  note d = write_data_ok [OF assms(1) e assms(8) assms(4), of "user s" buf, unfolded c snd_conv, folded pend]
  have ne: "?new \<noteq> []" using assms(3) by (auto simp: read_user_def)
  have kr: "kread ((heap_without (heap s) e)(p \<mapsto> ?new)) (Some p) (esize e + count - 1) 1 = Some [last ?new]"
    using d(2) ne by (intro kread_last) simp_all
  show "aesd_write k s buf count f_pos =
      (if last ?new = newline then
         Option.bind (aesd_write_commit (s1\<lparr>device := device s1\<lparr>lock := True\<rparr>\<rparr>) e' count)
           (\<lambda>s'. Option.bind (mutex_unlock s') (\<lambda>s'. Some (Inr count, f_pos + count, s')))
       else Some (Inr count, f_pos + count, s1))"
    using assms(5-8) d(1) c kr
    by (simp add: aesd_write_def mutex_lock_def mutex_unlock_def set_entry_def Let_def e' s1 lock_first)
  show "entry_ok (heap s1) e'"
    using d(2,3) ne by (simp add: entry_ok_def e' s1 set_entry_def)
  show "entry_bytes (heap s1) e' = ?new"
    using d(2) by (simp add: entry_bytes_def e' s1 set_entry_def)
  note fr = write_fresh [OF assms(2,7) write_alloc_fresh [OF assms(1) e assms(8,4)]]
  have frame: "heap s1 q = heap s q" if "Some q \<in> buffptr ` set (cb_list (circular_buffer (device s)))" for q
    using fr(1) fr(2) [OF that] that by (auto simp: s1 set_entry_def)
  note cf = commands_frame [of "circular_buffer (device s)" "heap s1" "heap s", OF frame]
  show "commands_wf (circular_buffer (device s1)) (heap s1)"
    using cf(1) assms(2) by (simp add: dev_wf_def s1 set_entry_def)
  show "dev_cmds s1 = dev_cmds s"
    using cf(2) by (simp add: dev_cmds_def s1 set_entry_def)
  show "buffptr e' \<notin> buffptr ` set (cb_list (circular_buffer (device s1)))"
    using fr(1) by (simp add: e' s1 set_entry_def)
qed

lemma empty_entry_bytes [simp]: "entry_bytes h (e\<lparr>buffptr := None, esize := n\<rparr>) = []"
  by (simp add: entry_bytes_def)

lemma empty_pending_ok [simp]: "pending_ok h (e\<lparr>buffptr := None, esize := 0\<rparr>)"
  by (simp add: pending_ok_def)

lemma dev_wf_drop_pending:
  assumes "dev_wf s" and "dev_entry (device s) = Some e" and "h = heap s \<or> h = heap_without (heap s) e"
  shows "dev_wf (set_entry (e\<lparr>buffptr := None, esize := 0\<rparr>) (s\<lparr>heap := h\<rparr>))"
    and "dev_cmds (set_entry (e\<lparr>buffptr := None, esize := 0\<rparr>) (s\<lparr>heap := h\<rparr>)) = dev_cmds s"
    and "dev_pending (set_entry (e\<lparr>buffptr := None, esize := 0\<rparr>) (s\<lparr>heap := h\<rparr>)) = []"
proof -
  have fr: "h q = heap s q" if "Some q \<in> buffptr ` set (cb_list (circular_buffer (device s)))" for q
    using assms that by (auto simp: dev_wf_def heap_without_def split: option.splits)
  note cf = commands_frame [of "circular_buffer (device s)" h "heap s", OF fr]
  show "dev_wf (set_entry (e\<lparr>buffptr := None, esize := 0\<rparr>) (s\<lparr>heap := h\<rparr>))"
    using cf(1) assms(1) by (simp add: dev_wf_def set_entry_def)
  show "dev_cmds (set_entry (e\<lparr>buffptr := None, esize := 0\<rparr>) (s\<lparr>heap := h\<rparr>)) = dev_cmds s"
    using cf(2) by (simp add: dev_cmds_def set_entry_def)
  show "dev_pending (set_entry (e\<lparr>buffptr := None, esize := 0\<rparr>) (s\<lparr>heap := h\<rparr>)) = []"
    by (simp add: dev_pending_def set_entry_def)
qed

lemma committed_heap:
  assumes cmds: "commands_wf (circular_buffer (device s)) (heap s)"
    and fresh: "buffptr e \<notin> buffptr ` set (cb_list (circular_buffer (device s)))"
    and p: "Some p \<in> buffptr ` set (cb_list (cb_push (circular_buffer (device s)) e))"
  shows "heap (committed s e count) p = heap s p"
proof (cases "full (circular_buffer (device s))")
  case False
  then show ?thesis by (simp add: committed_def)
next
  case True
  obtain x xs where L: "cb_list (circular_buffer (device s)) = x # xs"
    using True by (cases "cb_list (circular_buffer (device s))") (auto simp: cb_list_def cb_count_def)
  have "command_ok (heap s) x" using cmds L by (simp add: commands_wf_def)
  then obtain q where "buffptr x = Some q" by (auto simp: command_ok_def elim!: entry_okE)
  moreover have "buffptr x \<notin> buffptr ` set (xs @ [e])"
    using cmds fresh L by (auto simp: commands_wf_def)
  ultimately show ?thesis
    using p True cmds L by (auto simp: committed_def cb_list_push_full commands_wf_def)
qed

lemma committed_ok:
  assumes cmds: "commands_wf (circular_buffer (device s)) (heap s)"
    and e: "entry_ok (heap s) e" "last (entry_bytes (heap s) e) = newline"
    and fresh: "buffptr e \<notin> buffptr ` set (cb_list (circular_buffer (device s)))"
  shows "dev_wf (committed s e count)"
    and "dev_cmds (committed s e count) = drop (Suc (length (dev_cmds s)) - 10) (dev_cmds s @ [entry_bytes (heap s) e])"
    and "dev_pending (committed s e count) = []"
proof -
  let ?cb = "circular_buffer (device s)" and ?h = "heap (committed s e count)"
  let ?L = "cb_list (cb_push ?cb e)"
  have wf: "cb_wf ?cb" using cmds by (simp add: commands_wf_def)
  have L: "?L = (if full ?cb then tl (cb_list ?cb) else cb_list ?cb) @ [e]"
    using wf by (simp add: cb_list_push_full cb_list_push_not_full)
  have ok: "command_ok (heap s) x" if "x \<in> set ?L" for x
    using that L cmds e by (auto simp: commands_wf_def command_ok_def split: if_splits dest: in_set_tlD)
  have "distinct (map buffptr ?L)"
    using L cmds fresh by (auto simp: commands_wf_def distinct_tl map_tl dest: in_set_tlD)
  then have "commands_wf (cb_push ?cb e) (heap s)"
    using wf ok by (simp add: commands_wf_def cb_wf_push)
  moreover note new = commands_frame [of "cb_push ?cb e" ?h "heap s", OF committed_heap [OF cmds fresh]]
  ultimately show "dev_wf (committed s e count)"
    by (simp add: dev_wf_def) (simp add: committed_def)
  have "drop (Suc (length (cb_list ?cb)) - 10) (cb_list ?cb @ [e]) = ?L"
    using L wf cb_full_iff [OF wf] cb_count_le [OF wf] by (auto simp: drop_Suc tl_append split: list.split)
  then have "map (entry_bytes (heap s)) (drop (Suc (length (cb_list ?cb)) - 10) (cb_list ?cb @ [e])) =
      map (entry_bytes ?h) ?L"
    by (simp only: new(2))
  also have "\<dots> = dev_cmds (committed s e count)"
    by (simp add: dev_cmds_def committed_def)
  finally show "dev_cmds (committed s e count) = drop (Suc (length (dev_cmds s)) - 10) (dev_cmds s @ [entry_bytes (heap s) e])"
    by (simp add: dev_cmds_def drop_map del: length_cb_list)
  show "dev_pending (committed s e count) = []"
    by (simp add: dev_pending_def committed_def)
qed

text \<open>The value a write returns, and what it does to the abstract state.\<close>

definition write_result :: "kernel \<Rightarrow> sys \<Rightarrow> size_t \<Rightarrow> size_t \<Rightarrow> errno + size_t" where
  "write_result k s buf count =
     (if mutex_interrupted k then Inl ERESTARTSYS
      else if aesd_write_alloc k (heap s) (the (dev_entry (device s))) count = None then Inl ENOMEM
      else if fst (copy_from_user k (user s) buf count) \<noteq> 0 then Inl EFAULT
      else Inr count)"

definition write_effect ::
  "errno + size_t \<Rightarrow> char list list \<times> char list \<Rightarrow> char list \<Rightarrow> char list list \<times> char list" where
  "write_effect r st bs =
     (case r of
        Inr n \<Rightarrow> spec_write st bs
      | Inl err \<Rightarrow> if err = ERESTARTSYS then st else (fst st, []))"

lemma commit_unlock:
  "\<not> lock (device s) \<Longrightarrow>
     mutex_unlock (committed (s\<lparr>device := device s\<lparr>lock := True\<rparr>\<rparr>) e count) = Some (committed s e count)"
  by (simp add: mutex_unlock_def committed_def)

lemma set_entry_simps [simp]:
  "heap (set_entry e s) = heap s" "user (set_entry e s) = user s"
  "lock (device (set_entry e s)) = lock (device s)"
  "circular_buffer (device (set_entry e s)) = circular_buffer (device s)"
  "dev_size (device (set_entry e s)) = dev_size (device s)"
  "dev_entry (device (set_entry e s)) = Some e"
  by (simp_all add: set_entry_def)

lemma committed_simps [simp]:
  "user (committed s e count) = user s" "lock (device (committed s e count)) = lock (device s)"
  by (simp_all add: committed_def)

lemma no_leak_data:
  assumes "dev_wf s" and "dev_entry (device s) = Some e" and "heap_without (heap s) e p = None"
    and "no_leak s" and "buffptr e' = Some p"
  shows "no_leak (set_entry e' (s\<lparr>heap := (heap_without (heap s) e)(p \<mapsto> bs)\<rparr>))"
proof -
  let ?P = "{q. Some q \<in> buffptr ` set (cb_list (circular_buffer (device s)))}"
  have dom: "dom (heap s) = ?P \<union> {q. buffptr e = Some q}"
    using assms(2,4) by (simp add: no_leak_def owned_def)
  have "dom (heap_without (heap s) e) = ?P"
  proof (cases "buffptr e")
    case None
    then show ?thesis using dom by (simp add: heap_without_def)
  next
    case (Some q)
    then have "q \<notin> ?P" using assms(1,2) by (simp add: dev_wf_def)
    then show ?thesis using dom Some by (simp add: heap_without_def)
  qed
  then show ?thesis
    using assms(5) by (auto simp: no_leak_def owned_def)
qed

lemma no_leak_committed:
  assumes cmds: "commands_wf (circular_buffer (device s)) (heap s)" and e: "dev_entry (device s) = Some e"
    and fresh: "buffptr e \<notin> buffptr ` set (cb_list (circular_buffer (device s)))"
    and nl: "no_leak s"
  shows "no_leak (committed s e count)"
proof (cases "full (circular_buffer (device s))")
  case False
  then show ?thesis
    using nl e cmds
    by (auto simp: no_leak_def owned_def committed_def cb_list_push_not_full commands_wf_def)
next
  case True
  then obtain x xs where L: "cb_list (circular_buffer (device s)) = x # xs"
    by (cases "cb_list (circular_buffer (device s))") (auto simp: cb_list_def cb_count_def)
  have "command_ok (heap s) x" using cmds L by (simp add: commands_wf_def)
  then obtain q where q: "buffptr x = Some q" by (auto simp: command_ok_def elim!: entry_okE)
  have "buffptr x \<notin> buffptr ` set xs" "buffptr e \<noteq> buffptr x"
    using cmds fresh L by (auto simp: commands_wf_def)
  moreover have "owned (committed s e count) = {p. Some p \<in> buffptr ` set xs} \<union> {p. buffptr e = Some p}"
    using True cmds L by (auto simp: owned_def committed_def cb_list_push_full commands_wf_def)
  moreover have "dom (heap s) = {p. Some p \<in> buffptr ` set (x # xs)} \<union> {p. buffptr e = Some p}"
    using nl L e by (auto simp: no_leak_def owned_def)
  ultimately show ?thesis
    using True L q by (auto simp: no_leak_def committed_def)
qed

text \<open>The byte count the device keeps after a write of \<open>count\<close> bytes that completed \<open>bs\<close>.\<close>

definition size_after :: "sys \<Rightarrow> char list \<Rightarrow> size_t \<Rightarrow> loff_t" where
  "size_after s bs count =
     (if last bs = newline
      then (if full (circular_buffer (device s)) then dev_size (device s) - of_nat (length bs)
            else dev_size (device s)) + count
      else dev_size (device s))"

lemma write_success:
  assumes "kernel_ok k" and "dev_wf s" and "0 < unat count" and "unat count \<le> 2 ^ 31"
    and "\<not> lock (device s)" and "write_result k s buf count = Inr count"
    and new: "new = dev_pending s @ read_user (user s) buf (unat count)"
  shows "\<exists>s'. aesd_write k s buf count f_pos = Some (Inr count, f_pos + count, s') \<and> dev_wf s' \<and>
           \<not> lock (device s') \<and> user s' = user s \<and>
           (dev_cmds s', dev_pending s') =
             spec_write (dev_cmds s, dev_pending s) (read_user (user s) buf (unat count)) \<and>
           dev_size (device s') = size_after s new count \<and>
           (no_leak s \<longrightarrow> no_leak s')"
proof -
  obtain e where e: "dev_entry (device s) = Some e"
    using assms(2) by (auto simp: dev_wf_def split: option.splits)
  then obtain p h1 where k: "\<not> mutex_interrupted k" "aesd_write_alloc k (heap s) e count = Some (p, h1)"
      "fst (copy_from_user k (user s) buf count) = 0"
    using assms(6) by (auto simp: write_result_def split: if_splits)
  define e' where "e' = e\<lparr>buffptr := Some p, esize := esize e + count\<rparr>"
  define s1 where "s1 = set_entry e' (s\<lparr>heap := (heap_without (heap s) e)(p \<mapsto> new)\<rparr>)"
  note d = write_data [OF assms(1-4) k(1) assms(5) e k(2,3) e'_def s1_def [unfolded new], folded new]
  have s1: "\<not> lock (device s1)" "user s1 = user s" "dev_size (device s1) = dev_size (device s)"
      "full (circular_buffer (device s1)) = full (circular_buffer (device s))"
      "dev_entry (device s1) = Some e'"
    using assms(5) by (simp_all add: s1_def)
  have "pending_ok (heap s) e" using assms(2) e by (simp add: dev_wf_def)
  then have nl: "no_leak s1" if "no_leak s"
    using no_leak_data [OF assms(2) e write_alloc_fresh [OF assms(1) _ k(2) assms(4)] that, of e' new]
    by (simp add: s1_def e'_def)
  have sz: "esize e' = of_nat (length new)"
    using d(2,3) by (auto elim!: entry_okE intro!: size_eq_of_nat)
  show ?thesis
  proof (cases "last new = newline")
    case True
    have "commands_wf (circular_buffer (device (s1\<lparr>device := device s1\<lparr>lock := True\<rparr>\<rparr>)))
        (heap (s1\<lparr>device := device s1\<lparr>lock := True\<rparr>\<rparr>))"
      using d(4) by simp
    then have "aesd_write k s buf count f_pos = Some (Inr count, f_pos + count, committed s1 e' count)"
      using d(1) True s1(1) by (simp add: write_commit_eq commit_unlock)
    moreover have "dev_size (device (committed s1 e' count)) = size_after s new count"
      using True s1 sz by (simp add: size_after_def committed_def)
    ultimately show ?thesis
      using committed_ok [OF d(4,2) _ d(6), of count] no_leak_committed [OF d(4) s1(5) d(6)] nl d(3,5) True s1
      by (auto simp: spec_write_def Let_def new)
  next
    case False
    have "dev_wf s1"
      using d(2,3,4,6) False by (simp add: dev_wf_def s1_def e'_def pending_ok_def)
    then show ?thesis
      using d(1,3,5) False s1 nl by (auto simp: spec_write_def Let_def dev_pending_def size_after_def new)
  qed
qed

lemma write_ok:
  assumes "kernel_ok k" and "dev_wf s" and "0 < unat count" and "unat count \<le> 2 ^ 31"
    and "\<not> lock (device s)"
  shows "\<exists>s'. aesd_write k s buf count f_pos =
           Some (write_result k s buf count,
                 if isl (write_result k s buf count) then f_pos else f_pos + count, s') \<and>
           dev_wf s' \<and> \<not> lock (device s') \<and> user s' = user s \<and>
           (dev_cmds s', dev_pending s') =
             write_effect (write_result k s buf count) (dev_cmds s, dev_pending s)
               (read_user (user s) buf (unat count))"
proof -
  obtain e where e: "dev_entry (device s) = Some e"
    using assms(2) by (auto simp: dev_wf_def split: option.splits)
  consider (intr) "mutex_interrupted k"
    | (nomem) "\<not> mutex_interrupted k" "aesd_write_alloc k (heap s) e count = None"
    | (fault) p h1 where "\<not> mutex_interrupted k" "aesd_write_alloc k (heap s) e count = Some (p, h1)"
        "fst (copy_from_user k (user s) buf count) \<noteq> 0"
    | (ok) p h1 where "\<not> mutex_interrupted k" "aesd_write_alloc k (heap s) e count = Some (p, h1)"
        "fst (copy_from_user k (user s) buf count) = 0"
    by (metis not_None_eq surj_pair)
  then show ?thesis
  proof cases
    case intr
    then show ?thesis using assms(2,5) by (simp add: aesd_write_def write_result_def write_effect_def)
  next
    case nomem
    then show ?thesis
      using write_nomem [OF nomem(1) assms(5) e nomem(2)] dev_wf_drop_pending [OF assms(2) e, of "heap s"] assms(5) e
      by (simp add: write_result_def write_effect_def)
  next
    case fault
    then show ?thesis
      using write_fault [OF assms(1,2,4) fault(1) assms(5) e fault(2,3)]
        dev_wf_drop_pending [OF assms(2) e, of "heap_without (heap s) e"] assms(5) e
      by (simp add: write_result_def write_effect_def)
  next
    case ok
    then have "write_result k s buf count = Inr count" using e by (simp add: write_result_def)
    then show ?thesis
      using write_success [OF assms _ refl, of buf f_pos] by (auto simp: write_effect_def)
  qed
qed

section \<open>Reading\<close>

lemma locate_drop:
  "locate (map length xss) off = Some (j, k) \<Longrightarrow>
     drop off (concat xss) = drop k (xss ! j) @ concat (drop (Suc j) xss)"
  by (induction "map length xss" off arbitrary: xss j rule: locate.induct)
    (fastforce split: if_splits)+

lemma locate_take_drop:
  assumes "locate (map length xss) off = Some (j, k)"
  shows "take c (drop off (concat xss)) =
           (if c \<le> length (xss ! j) - k then take c (drop k (xss ! j))
            else drop k (xss ! j) @
                 take (c - (length (xss ! j) - k)) (drop (off + (length (xss ! j) - k)) (concat xss)))"
proof -
  have d: "drop off (concat xss) = drop k (xss ! j) @ concat (drop (Suc j) xss)"
    by (rule locate_drop [OF assms])
  have "drop (off + (length (xss ! j) - k)) (concat xss) =
      drop (length (xss ! j) - k) (drop off (concat xss))"
    by (simp add: add.commute)
  then have "drop (off + (length (xss ! j) - k)) (concat xss) = concat (drop (Suc j) xss)"
    by (simp add: d)
  then show ?thesis by (simp add: d)
qed

lemma unat_diff_wrap:
  "n < 2 ^ 64 \<Longrightarrow> unat d < n \<Longrightarrow> unat (d - of_nat n :: size_t) = 2 ^ 64 - (n - unat d)"
  by (simp add: unat_sub_if' unat_size_of_nat word_size)

lemma write_user_append:
  assumes "length xs + length ys \<le> 2 ^ 64"
  shows "write_user (write_user u a xs) (a + of_nat (length xs)) ys = write_user u a (xs @ ys)"
proof
  fix x
  define d where "d = x - a"
  have d: "x - (a + of_nat (length xs)) = d - of_nat (length xs)" by (simp add: d_def)
  show "write_user (write_user u a xs) (a + of_nat (length xs)) ys x = write_user u a (xs @ ys) x"
  proof (cases "ys = []")
    case True
    then show ?thesis by (simp add: write_user_def)
  next
    case False
    then have small: "length xs < 2 ^ 64" using assms by (cases ys) simp_all
    show ?thesis
    proof (cases "length xs \<le> unat d")
      case True
      then have "unat (d - of_nat (length xs)) = unat d - length xs"
        using small by (simp add: unat_size_diff unat_size_of_nat)
      then show ?thesis
        using True unfolding write_user_def d d_def [symmetric] by (simp add: nth_append less_diff_conv2)
    next
      case False
      then have "unat (d - of_nat (length xs)) = 2 ^ 64 - (length xs - unat d)"
        using small by (intro unat_diff_wrap) simp_all
      then have "\<not> unat (d - of_nat (length xs)) < length ys"
        using False assms by arith
      then show ?thesis
        using False unfolding write_user_def d d_def [symmetric] by (simp add: nth_append)
    qed
  qed
qed

lemma kread_entry:
  assumes "entry_ok h e" and "unat off + unat n \<le> length (entry_bytes h e)"
  shows "kread h (buffptr e) off n = Some (take (unat n) (drop (unat off) (entry_bytes h e)))"
  using assms by (auto simp: kread_def elim!: entry_okE)

definition unlocked :: "sys \<Rightarrow> umem \<Rightarrow> sys" where
  "unlocked s u = s\<lparr>user := u, device := device s\<lparr>lock := False\<rparr>\<rparr>"

lemma dev_cmds_nth:
  "j < length (dev_cmds s) \<Longrightarrow>
     dev_cmds s ! j = entry_bytes (heap s) (entry (circular_buffer (device s)) ! cb_pos (circular_buffer (device s)) j)"
  by (simp add: dev_cmds_def cb_list_def)

lemma dev_cmds_entry_ok:
  assumes "commands_wf (circular_buffer (device s)) (heap s)" and "j < length (dev_cmds s)"
  shows "entry_ok (heap s) (entry (circular_buffer (device s)) ! cb_pos (circular_buffer (device s)) j)"
proof -
  have "cb_list (circular_buffer (device s)) ! j \<in> set (cb_list (circular_buffer (device s)))"
    using assms(2) by (simp add: dev_cmds_def)
  then show ?thesis
    using assms by (simp add: commands_wf_def command_ok_def cb_list_def dev_cmds_def)
qed

lemma total_le: "commands_wf (circular_buffer (device s)) (heap s) \<Longrightarrow>
    length (concat (dev_cmds s)) \<le> 10 * 2 ^ 32"
  using commands_wf_total commands_wf_sizes by (metis dev_cmds_def length_concat)

lemma read_loop_end:
  assumes "commands_wf (circular_buffer (device s)) (heap s)" and "lock (device s)"
    and "length (concat (dev_cmds s)) \<le> unat f_pos"
  shows "aesd_read_loop k s buf count f_pos retval = Some (Inr retval, f_pos, unlocked s (user s))"
proof -
  have "locate (map length (dev_cmds s)) (unat f_pos) = None"
    using assms(3) by (simp add: locate_None_iff length_concat)
  then show ?thesis
    using assms(2)
    by (subst aesd_read_loop.simps)
      (simp add: find_commands [OF assms(1)] mutex_unlock_def unlocked_def dev_cmds_def)
qed

lemma read_loop_step:
  assumes wf: "commands_wf (circular_buffer (device s)) (heap s)" and lk: "lock (device s)"
    and loc: "locate (map length (dev_cmds s)) (unat f_pos) = Some (j, i)"
    and rem: "remaining = length (dev_cmds s ! j) - i"
    and cp: "copy_to_user k (user s) buf (take (unat count) (drop i (dev_cmds s ! j))) = (left, u)"
  shows "aesd_read_loop k s buf count f_pos retval =
     (if left \<noteq> 0 then Some (Inl EFAULT, f_pos, unlocked s u)
      else if unat count \<le> remaining then
        Some (Inr (retval + count), f_pos + (retval + count), unlocked s u)
      else aesd_read_loop k (s\<lparr>user := u\<rparr>) (buf + of_nat remaining) (count - of_nat remaining)
             (f_pos + of_nat remaining) (retval + of_nat remaining))"
proof -
  let ?e = "entry (circular_buffer (device s)) ! cb_pos (circular_buffer (device s)) j"
  have j: "j < length (dev_cmds s)" "i < length (dev_cmds s ! j)"
    using locate_SomeD [OF loc] by auto
  have e: "entry_ok (heap s) ?e" "entry_bytes (heap s) ?e = dev_cmds s ! j"
    using dev_cmds_entry_ok [OF wf j(1)] dev_cmds_nth [OF j(1)] by simp_all
  have len: "unat (esize ?e) = length (dev_cmds s ! j)" "length (dev_cmds s ! j) \<le> 2 ^ 32"
    using e by (auto elim!: entry_okE)
  have i: "unat (of_nat i :: size_t) = i"
    using j(2) len(2) by (simp add: unat_size_of_nat)
  have r: "unat (esize ?e - of_nat i) = remaining"
    using len(1) i j(2) rem by (simp add: unat_size_diff)
  then have r': "esize ?e - of_nat i = of_nat remaining"
    by (rule size_eq_of_nat)
  have le: "count \<le> of_nat remaining \<longleftrightarrow> unat count \<le> remaining"
    using r r' by (simp add: word_le_nat_alt)
  have full_read: "take (unat count) (drop i (dev_cmds s ! j)) = drop i (dev_cmds s ! j)"
    if "\<not> unat count \<le> remaining"
    using that rem by simp
  have kr: "kread (heap s) (buffptr ?e) (of_nat i) n = Some (take (unat n) (drop i (dev_cmds s ! j)))"
    if "unat n \<le> remaining" for n
    using kread_entry [OF e(1), of "of_nat i" n] e(2) i j(2) rem that by simp
  have kr1: "kread (heap s) (buffptr ?e) (of_nat i) count = Some (take (unat count) (drop i (dev_cmds s ! j)))"
    if "unat count \<le> remaining" using kr that by simp
  have kr2: "kread (heap s) (buffptr ?e) (of_nat i) (of_nat remaining) = Some (drop i (dev_cmds s ! j))"
    using kr [of "of_nat remaining"] r r' rem by simp
  note step = aesd_read_loop.simps [of k s buf count f_pos retval]
  show ?thesis
  proof (cases "unat count \<le> remaining")
    case True
    then show ?thesis
      using lk loc cp kr1 r' le
      by (simp add: step find_commands [OF wf] mutex_unlock_def unlocked_def Let_def flip: dev_cmds_def)
  next
    case False
    then show ?thesis
      using lk loc cp [unfolded full_read [OF False]] kr2 r' le
      by (simp add: step find_commands [OF wf] mutex_unlock_def unlocked_def Let_def flip: dev_cmds_def)
  qed
qed

text \<open>
  Where the last piece of a read starts: \<open>read_mark sizes p c\<close> is the position of the first byte that a
  read of \<open>c\<close> bytes at \<open>p\<close> takes from the entry in which it ends.
\<close>

definition piece_start :: "nat list \<Rightarrow> nat \<Rightarrow> nat" where
  "piece_start ns i = (case locate ns i of None \<Rightarrow> i | Some (j, k) \<Rightarrow> i - k)"

definition read_mark :: "nat list \<Rightarrow> nat \<Rightarrow> nat \<Rightarrow> nat" where
  "read_mark ns p c = (if c = 0 then p else max p (piece_start ns (p + c - 1)))"

lemma locate_shift:
  "locate ns p = Some (j, k) \<Longrightarrow> k + d < ns ! j \<Longrightarrow> locate ns (p + d) = Some (j, k + d)"
  by (induction ns p arbitrary: j rule: locate.induct) (fastforce split: if_splits)+

lemma sum_take_mono: "m \<le> n \<Longrightarrow> sum_list (take m ns) \<le> sum_list (take n (ns :: nat list))"
  by (metis le_add1 le_add_diff_inverse sum_list_append take_add)

lemma piece_start_ge:
  assumes "sum_list (take m ns) \<le> i" and "i < sum_list ns"
  shows "sum_list (take m ns) \<le> piece_start ns i"
proof -
  obtain j k where loc: "locate ns i = Some (j, k)"
    using assms(2) locate_None_iff [of ns i] by (cases "locate ns i") auto
  then have jk: "j < length ns" "k < ns ! j" "i = sum_list (take j ns) + k"
    using locate_SomeD by blast+
  have "m \<le> j"
  proof (rule ccontr)
    assume "\<not> m \<le> j"
    then have "sum_list (take (Suc j) ns) \<le> sum_list (take m ns)" by (intro sum_take_mono) simp
    with jk assms(1) show False by (simp add: take_Suc_conv_app_nth)
  qed
  then show ?thesis using loc jk(3) sum_take_mono [of m j ns] by (simp add: piece_start_def)
qed

lemma read_mark_same:
  assumes "locate ns p = Some (j, k)" and "c \<le> ns ! j - k"
  shows "read_mark ns p c = p"
proof (cases c)
  case 0
  then show ?thesis by (simp add: read_mark_def)
next
  case (Suc d)
  have "k < ns ! j" using locate_SomeD [OF assms(1)] by simp
  then have "locate ns (p + d) = Some (j, k + d)"
    using assms Suc by (intro locate_shift) auto
  then show ?thesis using Suc by (simp add: read_mark_def piece_start_def)
qed

lemma read_mark_step:
  assumes "locate ns p = Some (j, k)" and "ns ! j - k < c" and "p + c \<le> sum_list ns"
  shows "read_mark ns (p + (ns ! j - k)) (c - (ns ! j - k)) = read_mark ns p c"
proof -
  have jk: "j < length ns" "k < ns ! j" "p = sum_list (take j ns) + k"
    using locate_SomeD [OF assms(1)] by auto
  then have "p + (ns ! j - k) = sum_list (take (Suc j) ns)"
    by (simp add: take_Suc_conv_app_nth)
  moreover have "p + (ns ! j - k) \<le> p + c - 1" "p + c - 1 < sum_list ns"
    using assms(2,3) by auto
  ultimately have "p + (ns ! j - k) \<le> piece_start ns (p + c - 1)"
    using piece_start_ge [of "Suc j" ns "p + c - 1"] by simp
  then show ?thesis
    using assms(2) by (simp add: read_mark_def)
qed

definition copy_never_fails :: "kernel \<Rightarrow> bool" where
  "copy_never_fails k \<longleftrightarrow> (\<forall>u a bs. fst (copy_to_user k u a bs) = 0)"

definition read_final :: "char list list \<Rightarrow> loff_t \<Rightarrow> size_t \<Rightarrow> size_t \<Rightarrow> loff_t" where
  "read_final cmds f_pos count retval =
     (let p = unat f_pos; c = unat count; t = length (concat cmds) in
      if p < t \<and> p + c \<le> t then of_nat (read_mark (map length cmds) p c) + (retval + count)
      else f_pos + of_nat (t - p))"

lemma unlocked_user [simp]: "unlocked (s\<lparr>user := u\<rparr>) v = unlocked s v"
  by (simp add: unlocked_def)

lemma dev_cmds_user [simp]: "dev_cmds (s\<lparr>user := u\<rparr>) = dev_cmds s"
  by (simp add: dev_cmds_def)

lemma dev_unlocked [simp]:
  "dev_cmds (unlocked s u) = dev_cmds s" "dev_pending (unlocked s u) = dev_pending s"
  "dev_wf (unlocked s u) = dev_wf s" "heap (unlocked s u) = heap s" "user (unlocked s u) = u"
  "\<not> lock (device (unlocked s u))" "dev_size (device (unlocked s u)) = dev_size (device s)"
  by (simp_all add: dev_cmds_def dev_pending_def dev_wf_def unlocked_def split: option.split)

lemma locate_end:
  assumes "locate (map length xss) p = Some (j, i)"
  shows "p + (length (xss ! j) - i) \<le> length (concat xss)"
proof -
  have "length (xss ! j) - i \<le> length (concat xss) - p"
    using locate_drop [OF assms] by (metis le_add1 length_append length_drop)
  moreover have "p < length (concat xss)" using locate_concat [OF assms] by simp
  ultimately show ?thesis by simp
qed

text \<open>One full piece further, the end of the read stays where it was.\<close>

lemma read_final_step:
  assumes loc: "locate (map length cmds) (unat f_pos) = Some (j, i)" and r: "r = length (cmds ! j) - i"
    and c: "r < unat count" and t: "length (concat cmds) \<le> 10 * 2 ^ 32"
  shows "unat (of_nat r :: size_t) = r" and "unat (count - of_nat r) = unat count - r"
    and "unat (f_pos + of_nat r) = unat f_pos + r"
    and "read_final cmds (f_pos + of_nat r) (count - of_nat r) (retval + of_nat r) =
           read_final cmds f_pos count retval"
proof -
  have e: "unat f_pos + r \<le> length (concat cmds)" and j: "j < length cmds" "i < length (cmds ! j)"
    using locate_end [OF loc] locate_SomeD [OF loc] r by auto
  show r': "unat (of_nat r :: size_t) = r" using e t by (intro unat_size_of_nat) simp
  show c': "unat (count - of_nat r) = unat count - r" using c r' by (simp add: unat_size_diff)
  show p': "unat (f_pos + of_nat r) = unat f_pos + r" using r' e t by (simp add: unat_size_add)
  have "read_mark (map length cmds) (unat f_pos + r) (unat count - r) =
      read_mark (map length cmds) (unat f_pos) (unat count)" if "unat f_pos + unat count \<le> length (concat cmds)"
    using read_mark_step [OF loc, of "unat count"] c that j r by (simp add: length_concat)
  then show "read_final cmds (f_pos + of_nat r) (count - of_nat r) (retval + of_nat r) =
           read_final cmds f_pos count retval"
    using c e by (auto simp: read_final_def Let_def c' p' add.assoc)
qed

text \<open>The last round: what is asked for lies in the entry of the position.\<close>

lemma read_loop_last:
  assumes k: "copy_to_user_ok k" "copy_never_fails k"
    and wf: "commands_wf (circular_buffer (device s)) (heap s)" "lock (device s)"
    and loc: "locate (map length (dev_cmds s)) (unat f_pos) = Some (j, i)"
    and c: "unat count \<le> length (dev_cmds s ! j) - i"
    and bs: "bs = take (unat count) (drop (unat f_pos) (concat (dev_cmds s)))"
  shows "aesd_read_loop k s buf count f_pos retval =
     Some (Inr (retval + of_nat (length bs)), read_final (dev_cmds s) f_pos count retval,
           unlocked s (write_user (user s) buf bs))"
proof -
  let ?L = "dev_cmds s" and ?p = "unat f_pos" and ?c = "unat count"
  have ds: "bs = take ?c (drop i (?L ! j))" using locate_take_drop [OF loc, of ?c] bs c by simp
  have cp: "copy_to_user k (user s) buf (take ?c (drop i (?L ! j))) = (0, write_user (user s) buf bs)"
    using k by (simp add: copy_to_user_ok_def copy_never_fails_def prod_eq_iff ds)
  have j: "i < length (?L ! j)" "?p + (length (?L ! j) - i) \<le> length (concat ?L)" "?p < length (concat ?L)"
    "j < length ?L" using locate_SomeD [OF loc] locate_end [OF loc] locate_concat [OF loc] by auto
  have "read_mark (map length ?L) ?p ?c = ?p" "?p + ?c \<le> length (concat ?L)"
    using c j read_mark_same [OF loc, of ?c] by simp_all
  then have "read_final ?L f_pos count retval = f_pos + (retval + count)"
    using j(3) by (simp add: read_final_def Let_def)
  moreover have "length bs = ?c" using c by (simp add: ds)
  ultimately show ?thesis using read_loop_step [OF wf loc refl cp, of retval] c by simp
qed

lemma read_loop_ok:
  assumes k: "copy_to_user_ok k" "copy_never_fails k"
    and wf: "commands_wf (circular_buffer (device s)) (heap s)" and lk: "lock (device s)"
    and bs: "bs = take (unat count) (drop (unat f_pos) (concat (dev_cmds s)))"
  shows "aesd_read_loop k s buf count f_pos retval =
     Some (Inr (retval + of_nat (length bs)), read_final (dev_cmds s) f_pos count retval,
           unlocked s (write_user (user s) buf bs))"
  using wf lk bs
proof (induction "unat count" arbitrary: s buf count f_pos retval bs rule: less_induct)
  case less
  let ?L = "dev_cmds s" and ?p = "unat f_pos" and ?c = "unat count"
  let ?t = "length (concat ?L)"
  have t: "?t \<le> 10 * 2 ^ 32" by (rule total_le [OF less.prems(1)])
  show ?case
  proof (cases "?t \<le> ?p")
    case True
    moreover have "write_user u a [] = u" for u a by (simp add: write_user_def)
    ultimately show ?thesis
      using read_loop_end [OF less.prems(1,2)] less.prems(3) by (simp add: read_final_def)
  next
    case False
    then obtain j i where loc: "locate (map length ?L) ?p = Some (j, i)"
      using locate_None_iff [of "map length ?L" ?p] by (cases "locate (map length ?L) ?p") (auto simp: length_concat)
    define r where "r = length (?L ! j) - i"
    define ds where "ds = take ?c (drop i (?L ! j))"
    have j: "i < length (?L ! j)" "?p + r \<le> ?t" "j < length ?L"
      using locate_SomeD [OF loc] locate_end [OF loc] by (auto simp: r_def)
    have cp: "copy_to_user k (user s) buf ds = (0, write_user (user s) buf ds)"
      using k by (simp add: copy_to_user_ok_def copy_never_fails_def prod_eq_iff)
    note step = read_loop_step [OF less.prems(1,2) loc r_def cp [unfolded ds_def], of retval, folded ds_def]
    show ?thesis
    proof (cases "?c \<le> r")
      case True
      then show ?thesis using read_loop_last [OF k less.prems(1,2) loc _ less.prems(3)] by (simp add: r_def)
    next
      case c: False
      note fin = read_final_step [OF loc r_def, of count]
      have ds: "ds = drop i (?L ! j)" "length ds = r" using c by (simp_all add: ds_def r_def)
      define es where "es = take (?c - r) (drop (?p + r) (concat ?L))"
      have bs: "bs = ds @ es"
        using locate_take_drop [OF loc, of ?c] less.prems(3) c by (simp add: ds es_def r_def)
      have "length bs \<le> ?t" using less.prems(3) by simp
      then have app: "write_user (write_user (user s) buf ds) (buf + of_nat r) es = write_user (user s) buf bs"
        using write_user_append [of ds es] bs ds(2) t by simp
      have "aesd_read_loop k (s\<lparr>user := write_user (user s) buf ds\<rparr>) (buf + of_nat r) (count - of_nat r)
            (f_pos + of_nat r) (retval + of_nat r) =
          Some (Inr (retval + of_nat r + of_nat (length es)), read_final ?L f_pos count retval,
                unlocked s (write_user (user s) buf bs))"
        using less.hyps [of "count - of_nat r" "s\<lparr>user := write_user (user s) buf ds\<rparr>" es "f_pos + of_nat r"
            "buf + of_nat r" "retval + of_nat r"] less.prems(1,2) c j(1) fin t app
        by (simp add: es_def r_def)
      then show ?thesis
        using step c bs ds(2) by (simp add: add.assoc)
    qed
  qed
qed

lemma read_loop_returns:
  assumes "commands_wf (circular_buffer (device s)) (heap s)" and "lock (device s)"
  shows "\<exists>r fp u. aesd_read_loop k s buf count f_pos retval = Some (r, fp, unlocked s u) \<and>
           (\<forall>err. r = Inl err \<longrightarrow> err = EFAULT)"
  using assms
proof (induction "unat count" arbitrary: s buf count f_pos retval rule: less_induct)
  case less
  show ?case
  proof (cases "locate (map length (dev_cmds s)) (unat f_pos)")
    case None
    then show ?thesis
      using read_loop_end [OF less.prems] by (auto simp: locate_None_iff length_concat)
  next
    case (Some ji)
    obtain j i where loc: "locate (map length (dev_cmds s)) (unat f_pos) = Some (j, i)"
      using Some by (cases ji) simp
    define r where "r = length (dev_cmds s ! j) - i"
    obtain left u where cp: "copy_to_user k (user s) buf (take (unat count) (drop i (dev_cmds s ! j))) = (left, u)"
      by fastforce
    note step = read_loop_step [OF less.prems loc r_def cp, of retval]
    show ?thesis
    proof (cases "left \<noteq> 0 \<or> unat count \<le> r")
      case True
      then show ?thesis using step by auto
    next
      case False
      have "0 < r" using locate_SomeD [OF loc] by (auto simp: r_def)
      moreover have "unat (count - of_nat r) = unat count - r"
        using read_final_step(2) [OF loc r_def, of count] False total_le [OF less.prems(1)] by simp
      ultimately show ?thesis
        using less.hyps [of "count - of_nat r" "s\<lparr>user := u\<rparr>"] less.prems step False by simp
    qed
  qed
qed

section \<open>Seeking to a command\<close>

lemma unat_ucast_u32 [simp]: "unat (ucast (w :: u32) :: size_t) = unat w"
proof -
  have "unat w < 2 ^ 32" using unsigned_less [of w, where ?'a = nat] by simp
  then show ?thesis by (simp add: unsigned_ucast_eq take_bit_nat_eq_self)
qed

lemma foreach_adjust_body:
  assumes "n \<le> 10" and "i \<le> n"
  shows "\<exists>t'. foreach_list (adjust_body cmd off) (map (cb_item b) [i..<n]) t =
    (if i \<le> unat cmd \<and> unat cmd < n \<and> unat off < item_size (cb_item b (unat cmd)) then
       Inr (t + of_nat (sum_list (map (\<lambda>m. item_size (cb_item b m)) [i..<unat cmd])) + ucast off)
     else Inl t')"
  using assms(2)
proof (induction "n - i" arbitrary: i t)
  case 0
  then show ?case by simp
next
  case (Suc d)
  then have i: "i < n" "d = n - Suc i" by auto
  define e where "e = entry b ! cb_pos b i"
  have item: "cb_item b i = (of_nat i, cb_pos b i, e)" by (simp add: cb_item_def e_def)
  have idx: "unat (of_nat i :: u8) = i" using i assms(1) by (simp add: unat_u8_of_nat)
  have size_e: "esize e = of_nat (item_size (cb_item b i))" by (simp add: e_def)
  show ?case
  proof (cases "unat cmd = i \<and> unat off < item_size (cb_item b i)")
    case True
    then show ?thesis
      using i idx by (simp add: upt_conv_Cons item adjust_body_def word_less_nat_alt item_size_def)
  next
    case False
    define t1 where "t1 = (if unat cmd = i then t else t + esize e)"
    obtain t' where t': "foreach_list (adjust_body cmd off) (map (cb_item b) [Suc i..<n]) t1 =
      (if Suc i \<le> unat cmd \<and> unat cmd < n \<and> unat off < item_size (cb_item b (unat cmd)) then
         Inr (t1 + of_nat (sum_list (map (\<lambda>m. item_size (cb_item b m)) [Suc i..<unat cmd])) + ucast off)
       else Inl t')"
      using Suc.hyps(1) [of "Suc i" t1] i by auto
    have body: "adjust_body cmd off (of_nat i) (cb_pos b i) e t = Inl t1"
      using False idx by (auto simp: adjust_body_def word_less_nat_alt t1_def e_def)
    have go: "foreach_list (adjust_body cmd off) (map (cb_item b) [i..<n]) t =
        foreach_list (adjust_body cmd off) (map (cb_item b) [Suc i..<n]) t1"
      using i(1) body by (simp add: upt_conv_Cons item)
    show ?thesis
    proof (cases "Suc i \<le> unat cmd")
      case True
      then have "[i..<unat cmd] = i # [Suc i..<unat cmd]" by (simp add: upt_conv_Cons)
      then show ?thesis
        using go t' True by (auto simp: t1_def size_e add.assoc simp del: item_size_cb_item)
    next
      case F: False
      then show ?thesis using go t' False by (cases "unat cmd = i") auto
    qed
  qed
qed

text \<open>The position a seek to offset \<open>off\<close> of command number \<open>cmd\<close> names, if there is one.\<close>

definition spec_seek :: "char list list \<Rightarrow> nat \<Rightarrow> nat \<Rightarrow> nat option" where
  "spec_seek cmds cmd off =
     (if cmd < length cmds \<and> off < length (cmds ! cmd)
      then Some (length (concat (take cmd cmds)) + off) else None)"

lemma adjust_ok:
  assumes "commands_wf (circular_buffer (device s)) (heap s)" and "\<not> lock (device s)"
  shows "aesd_adjust_file_offset k s f_pos cmd off =
    Some (if mutex_interrupted k then (Inl ERESTARTSYS, f_pos, s)
          else (case spec_seek (dev_cmds s) (unat cmd) (unat off) of
                  Some p \<Rightarrow> (Inr 0, of_nat p, s)
                | None \<Rightarrow> (Inl EINVAL, f_pos, s)))"
proof -
  let ?cb = "circular_buffer (device s)"
  have wf: "cb_wf ?cb" using assms(1) by (simp add: commands_wf_def)
  have sizes: "item_size (cb_item ?cb m) = length (dev_cmds s ! m)" if "m < cb_count ?cb" for m
  proof -
    have "item_size (cb_item ?cb m) = cb_sizes ?cb ! m"
      using that by (simp add: cb_sizes_def cb_list_def)
    then show ?thesis
      using that by (simp add: commands_wf_sizes [OF assms(1)] dev_cmds_def)
  qed
  have len: "length (dev_cmds s) = cb_count ?cb" by (simp add: dev_cmds_def)
  have pre: "sum_list (map (\<lambda>m. item_size (cb_item ?cb m)) [0..<c]) = length (concat (take c (dev_cmds s)))"
    if "c < cb_count ?cb" for c
  proof -
    have "map (\<lambda>m. item_size (cb_item ?cb m)) [0..<c] = map length (take c (dev_cmds s))"
      using that sizes len by (intro nth_equalityI) auto
    then show ?thesis by (simp only: length_concat)
  qed
  obtain t' where "foreach_list (adjust_body cmd off) (map (cb_item ?cb) [0..<cb_count ?cb]) 0 =
    (if 0 \<le> unat cmd \<and> unat cmd < cb_count ?cb \<and> unat off < item_size (cb_item ?cb (unat cmd)) then
       Inr (0 + of_nat (sum_list (map (\<lambda>m. item_size (cb_item ?cb m)) [0..<unat cmd])) + ucast off)
     else Inl t')"
    using foreach_adjust_body [OF cb_count_le [OF wf], of 0 cmd off ?cb 0] by blast
  then show ?thesis
    using wf assms(2) sizes pre len
    by (auto simp: aesd_adjust_file_offset_def mutex_lock_def mutex_unlock_def foreach_wf spec_seek_def
        Let_def simp del: item_size_cb_item)
qed

end
