(* ===== verification/Driver_System.thy ===== *)
theory Driver_System
  imports Driver_Refinement
begin

text \<open>
  The driver as a whole. The locale \<open>file_handler\<close> states what the handlers of the table \<open>aesd_fops\<close>
  have in common; it is interpreted on the table, and gives the invariant of every sequence of calls.
  Then come the properties of the single operations and of their combinations: write and read back,
  seek and read, loading and unloading, and the byte count that \<open>llseek\<close> uses.
\<close>

section \<open>A kernel that satisfies the assumptions\<close>

text \<open>
  A small allocator with sixteen addresses that grows blocks in place, and user copies that always
  succeed. It shows that \<^const>\<open>kernel_ok\<close> can hold and serves as the input of concrete runs.
\<close>

definition pool_malloc :: "kmem \<Rightarrow> size_t \<Rightarrow> (addr \<times> kmem) option" where
  "pool_malloc h n =
     (case filter (\<lambda>p. h p = None) [0..<16] of
        [] \<Rightarrow> None
      | p # _ \<Rightarrow> if unat n \<le> 2 ^ 32 then Some (p, h(p \<mapsto> replicate (unat n) (CHR 0x00))) else None)"

definition pool_realloc :: "kmem \<Rightarrow> addr \<Rightarrow> size_t \<Rightarrow> (addr \<times> kmem) option" where
  "pool_realloc h q n =
     (case h q of
        None \<Rightarrow> None
      | Some old \<Rightarrow>
          if unat n \<le> 2 ^ 32
          then Some (q, h(q \<mapsto> take (unat n) (old @ replicate (unat n) (CHR 0x00)))) else None)"

text \<open>A seek in a file of fixed size; positions are signed.\<close>

definition seek_within :: "loff_t \<Rightarrow> loff_t \<Rightarrow> int \<Rightarrow> loff_t \<Rightarrow> (errno + loff_t) \<times> loff_t" where
  "seek_within f_pos offset origin sz =
     (let pos = (if origin = 0 then 0 else if origin = 1 then f_pos else sz) + offset
      in if origin \<in> {0, 1, 2} \<and> 0 \<le> sint pos \<and> sint pos \<le> sint sz then (Inr pos, pos) else (Inl EINVAL, f_pos))"

definition demo_kernel :: kernel where
  "demo_kernel =
     \<lparr>mutex_interrupted = False, kmalloc = pool_malloc, krealloc = pool_realloc,
      copy_from_user = (\<lambda>u a n. (0, read_user u a (unat n))),
      copy_to_user = (\<lambda>u a bs. (0, write_user u a bs)),
      copy_seekto_from_user = (\<lambda>u a. (0, \<lparr>write_cmd = 1, write_cmd_offset = 1\<rparr>)),
      fixed_size_llseek = seek_within,
      IOWR = (\<lambda>t n sz. 0xC0081601)\<rparr>"

lemma pool_mallocD: "pool_malloc h n = Some (p, h') \<Longrightarrow>
    h p = None \<and> unat n \<le> 2 ^ 32 \<and> h' = h(p \<mapsto> replicate (unat n) (CHR 0x00))"
  by (auto simp: pool_malloc_def split: list.splits if_splits dest: filter_eq_ConsD)

lemma demo_kernel_ok: "kernel_ok demo_kernel"
proof -
  have "kmalloc_ok demo_kernel"
    by (auto simp: kmalloc_ok_def demo_kernel_def dest!: pool_mallocD) (metis length_replicate)
  moreover have "krealloc_ok demo_kernel"
    by (auto simp: krealloc_ok_def demo_kernel_def pool_realloc_def split: if_splits)
      (rule exI, rule conjI [rotated], rule conjI [rotated], rule refl, simp_all)
  ultimately show ?thesis
    by (simp add: kernel_ok_def copy_from_user_ok_def copy_to_user_ok_def demo_kernel_def)
qed

section \<open>The contract of the handlers\<close>

locale file_handler =
  fixes run :: "'c \<Rightarrow> sys \<Rightarrow> loff_t \<Rightarrow> ((errno + size_t) \<times> loff_t \<times> sys) option"
    and admissible :: "'c \<Rightarrow> bool"
  assumes returns: "admissible c \<Longrightarrow> dev_wf s \<Longrightarrow> \<not> lock (device s) \<Longrightarrow>
      \<exists>r fp s'. run c s f_pos = Some (r, fp, s') \<and> dev_wf s' \<and> \<not> lock (device s')"
begin

lemma run_calls_returns:
  assumes "\<forall>c \<in> snd ` set cs. admissible c" and "dev_wf s" and "\<not> lock (device s)"
  shows "\<exists>rs s' files'. run_calls run cs s files = Some (rs, s', files') \<and> length rs = length cs \<and>
           dev_wf s' \<and> \<not> lock (device s')"
  using assms
proof (induction cs arbitrary: s files)
  case Nil
  then show ?case by simp
next
  case (Cons fc cs)
  obtain fd c where fc: "fc = (fd, c)" by (cases fc)
  then obtain r fp s1 where 1: "run c s (files fd) = Some (r, fp, s1)" "dev_wf s1" "\<not> lock (device s1)"
    using returns [of c s "files fd"] Cons.prems by auto
  have "\<exists>rs s' files'. run_calls run cs s1 (files(fd := fp)) = Some (rs, s', files') \<and>
      length rs = length cs \<and> dev_wf s' \<and> \<not> lock (device s')"
    by (rule Cons.IH) (use Cons.prems(1) 1 in auto)
  then show ?case using 1 fc by auto
qed

end

text \<open>
  The calls the kernel passes on: a write has at least one byte and at most \<open>MAX_RW_COUNT\<close>, which is
  below $2^{31}$, and the kernel services behave as documented.
\<close>

fun admissible_call :: "dev_call \<Rightarrow> bool" where
  "admissible_call (Write k buf count) \<longleftrightarrow> kernel_ok k \<and> 0 < unat count \<and> unat count \<le> 2 ^ 31"
| "admissible_call _ \<longleftrightarrow> True"

lemma dev_wf_commands: "dev_wf s \<Longrightarrow> commands_wf (circular_buffer (device s)) (heap s)"
  by (simp add: dev_wf_def)

lemma dev_wf_user [simp]: "dev_wf (s\<lparr>user := u\<rparr>) = dev_wf s"
  by (simp add: dev_wf_def split: option.split)

lemma read_returns:
  assumes "dev_wf s" and "\<not> lock (device s)"
  shows "\<exists>r fp u. aesd_read k s buf count f_pos = Some (r, fp, s\<lparr>user := u\<rparr>) \<and>
           (\<forall>err. r = Inl err \<longrightarrow> err = EFAULT \<or> err = ERESTARTSYS)"
proof (cases "mutex_interrupted k")
  case True
  then show ?thesis by (auto simp: aesd_read_def intro: exI [of _ "user s"])
next
  case False
  let ?s = "s\<lparr>device := device s\<lparr>lock := True\<rparr>\<rparr>"
  have "unlocked ?s u = s\<lparr>user := u\<rparr>" for u
    using assms(2) by (simp add: unlocked_def)
  then show ?thesis
    using read_loop_returns [of ?s k buf count f_pos 0] dev_wf_commands [OF assms(1)] assms(2) False
    by (auto simp: aesd_read_def mutex_lock_def)
qed

lemma ioctl_returns:
  assumes "dev_wf s" and "\<not> lock (device s)"
  shows "\<exists>r fp. aesd_ioctl k s f_pos cmd arg = Some (r, fp, s)"
  using adjust_ok [OF dev_wf_commands [OF assms(1)] assms(2)]
  by (auto simp: aesd_ioctl_def split: prod.split option.split)

lemma llseek_returns:
  assumes "\<not> lock (device s)"
  shows "aesd_llseek k s f_pos offset origin =
    (if mutex_interrupted k then Some (Inl ERESTARTSYS, f_pos, s)
     else Some (fst (fixed_size_llseek k f_pos offset origin (dev_size (device s))),
                snd (fixed_size_llseek k f_pos offset origin (dev_size (device s))), s))"
  using assms by (simp add: aesd_llseek_def mutex_lock_def mutex_unlock_def split: prod.split)

interpretation fops: file_handler aesd_fops admissible_call
proof
  fix c s f_pos
  assume a: "admissible_call c" "dev_wf s" "\<not> lock (device s)"
  show "\<exists>r fp s'. aesd_fops c s f_pos = Some (r, fp, s') \<and> dev_wf s' \<and> \<not> lock (device s')"
  proof (cases c)
    case (Read k buf count)
    then show ?thesis using read_returns [OF a(2,3)] a by fastforce
  next
    case (Write k buf count)
    then show ?thesis using write_ok [of k s count buf f_pos] a by fastforce
  next
    case (Ioctl k cmd arg)
    then show ?thesis using ioctl_returns [OF a(2,3)] a by fastforce
  qed (use a in \<open>auto simp: llseek_returns aesd_open_def aesd_release_def\<close>)
qed

section \<open>Writing\<close>

definition demo_init :: sys where
  "demo_init =
     \<lparr>device = zero_device\<lparr>dev_entry := Some \<lparr>buffptr = None, esize = 0\<rparr>\<rparr>,
      heap = Map.empty, user = write_user (\<lambda>_. CHR 0x00) 0 (''hi'' @ [newline])\<rparr>"

lemma zero_commands_wf: "commands_wf (circular_buffer zero_device) h"
  by (simp add: commands_wf_def zero_device_def cb_wf_def cb_list_def cb_count_def)

lemma zero_cb_list: "cb_list (circular_buffer zero_device) = []"
  by (simp add: zero_device_def cb_list_def cb_count_def)

lemma demo_init_wf:
  "dev_wf demo_init" "\<not> lock (device demo_init)" "dev_cmds demo_init = []" "dev_pending demo_init = []"
  using zero_commands_wf
  by (simp_all add: dev_wf_def demo_init_def pending_ok_def dev_cmds_def zero_cb_list dev_pending_def
      entry_bytes_def) (simp add: zero_device_def)

lemma write_result_demo: "write_result demo_kernel demo_init 0 3 = Inr 3"
  by (simp add: write_result_def demo_kernel_def demo_init_def aesd_write_alloc_def pool_malloc_def upt_rec)

text \<open>
  C6. \<open>aesd_write\<close> refines the abstract history. For a write of 1 to $2^{31}$ bytes on a well-formed unlocked
  device it returns, keeps the invariant and releases the lock on every path. On success the bytes are appended to
  the unfinished line, and a newline at the end makes it the newest of at most ten stored lines; after \<open>EFAULT\<close>
  and \<open>ENOMEM\<close> the stored lines are unchanged and the unfinished line is dropped; after \<open>ERESTARTSYS\<close> nothing
  has changed.
\<close>

theorem aesd_write_refines:
  assumes "kernel_ok k" and "dev_wf s" and "0 < unat count" and "unat count \<le> 2 ^ 31"
    and "\<not> lock (device s)"
  shows "\<exists>s'. aesd_write k s buf count f_pos =
           Some (write_result k s buf count,
                 if isl (write_result k s buf count) then f_pos else f_pos + count, s') \<and>
           dev_wf s' \<and> \<not> lock (device s') \<and>
           (dev_cmds s', dev_pending s') =
             write_effect (write_result k s buf count) (dev_cmds s, dev_pending s)
               (read_user (user s) buf (unat count))"
  using write_ok [OF assms] by blast

theorem aesd_write_refines_witness:
  "kernel_ok demo_kernel \<and> dev_wf demo_init \<and> \<not> lock (device demo_init) \<and>
   (\<exists>s'. aesd_write demo_kernel demo_init 0 3 0 = Some (Inr 3, 3, s') \<and>
         dev_cmds s' = [''hi'' @ [newline]] \<and> dev_pending s' = [])"
proof -
  have "read_user (user demo_init) 0 3 = ''hi'' @ [newline]"
    by (simp add: read_user_def demo_init_def write_user_def upt_rec)
  then show ?thesis
    using aesd_write_refines [OF demo_kernel_ok demo_init_wf(1), of 3 0 0] demo_init_wf demo_kernel_ok
    by (auto simp: write_result_demo write_effect_def spec_write_def)
qed

definition tracked :: "sys \<Rightarrow> bool" where
  "tracked s \<longleftrightarrow> unat (dev_size (device s)) = length (concat (dev_cmds s))"

lemma unat_size_minus_add:
  assumes "unat w < 2 ^ 40" and "a < 2 ^ 40" and "b < 2 ^ 40"
  shows "unat (w - of_nat a + of_nat b :: size_t) =
           (if a \<le> unat w + b then unat w + b - a else unat w + b + 2 ^ 64 - a)"
proof -
  have eq: "w - of_nat a + of_nat b = (w + of_nat b) - of_nat a" by simp
  have "unat (w + of_nat b) = unat w + b"
    using assms by (simp add: unat_size_add unat_size_of_nat)
  then show ?thesis
    unfolding eq unat_sub_if' using assms by (simp add: unat_size_of_nat word_size)
qed

lemma full_cmds: "dev_wf s \<Longrightarrow> full (circular_buffer (device s)) \<longleftrightarrow> length (dev_cmds s) = 10"
  by (simp add: dev_cmds_def dev_wf_def commands_wf_def cb_full_iff)

text \<open>
  C20. When \<open>aesd_write\<close> keeps \<open>aesd_device.size\<close> equal to the number of stored bytes. For a write that completes a
  line this holds afterwards exactly when the line came in one write, as long as fewer than ten lines are stored, and
  exactly when the dropped line was as long as the new line plus its earlier fragments, once ten are stored: the size
  of the old entry is read after it has been overwritten, and only the last fragment is counted.
\<close>

theorem aesd_write_size_tracked_iff:
  assumes k: "kernel_ok k" and wf: "dev_wf s" and c: "0 < unat count" "unat count \<le> 2 ^ 31"
    and lk: "\<not> lock (device s)" and tr: "tracked s"
    and new: "last (dev_pending s @ read_user (user s) buf (unat count)) = newline"
    and w: "aesd_write k s buf count f_pos = Some (Inr count, fp, s')"
  shows "tracked s' \<longleftrightarrow>
           (if length (dev_cmds s) = 10
            then length (hd (dev_cmds s)) = 2 * length (dev_pending s) + unat count
            else dev_pending s = [])"
proof -
  let ?new = "dev_pending s @ read_user (user s) buf (unat count)"
  let ?T = "length (concat (dev_cmds s))"
  have r: "write_result k s buf count = Inr count"
    using write_ok [OF k wf c lk, of buf f_pos] w by auto
  have s': "dev_cmds s' = drop (Suc (length (dev_cmds s)) - 10) (dev_cmds s @ [?new])"
      "dev_size (device s') = size_after s ?new count"
    using write_success [OF k wf c lk r refl, of f_pos] w new by (auto simp: spec_write_def Let_def)
  have T: "?T \<le> 10 * 2 ^ 32" by (rule total_le [OF dev_wf_commands [OF wf]])
  have P: "length (dev_pending s) \<le> 2 ^ 32"
    using wf pending_size_le pending_bytes_length
    by (fastforce simp: dev_wf_def dev_pending_def split: option.splits)
  show ?thesis
  proof (cases "length (dev_cmds s) = 10")
    case True
    then obtain x xs where x: "dev_cmds s = x # xs" by (cases "dev_cmds s") auto
    have "unat (dev_size (device s')) =
        (if length ?new \<le> ?T + unat count then ?T + unat count - length ?new
         else ?T + unat count + 2 ^ 64 - length ?new)"
      using unat_size_minus_add [of "dev_size (device s)" "length ?new" "unat count"] tr T P c True
        full_cmds [OF wf] s'(2) new by (simp add: tracked_def size_after_def)
    then show ?thesis
      using s'(1) x True T P c(2) by (auto simp: tracked_def)
  next
    case False
    moreover have "length (dev_cmds s) \<le> 10"
      using wf cb_count_le by (simp add: dev_cmds_def dev_wf_def commands_wf_def)
    moreover have "unat (dev_size (device s) + count) = ?T + unat count"
      using tr T c(2) by (simp add: tracked_def unat_size_add)
    ultimately show ?thesis
      using s' full_cmds [OF wf] new by (auto simp: tracked_def size_after_def)
  qed
qed

text \<open>A device with ten commands of one byte each, and one with an unfinished command.\<close>

definition demo_full :: sys where
  "demo_full =
     \<lparr>device =
        \<lparr>circular_buffer =
           \<lparr>entry = map (\<lambda>i. \<lparr>buffptr = Some i, esize = 1\<rparr>) [0..<10],
            in_offs = 0, out_offs = 0, full = True\<rparr>,
         dev_entry = Some \<lparr>buffptr = None, esize = 0\<rparr>, lock = False, dev_size = 10\<rparr>,
      heap = (\<lambda>p. if p < 10 then Some [newline] else None),
      user = write_user (\<lambda>_. CHR 0x00) 0 (''hi'' @ [newline])\<rparr>"

definition demo_pending :: sys where
  "demo_pending =
     demo_init\<lparr>heap := [0 \<mapsto> ''a''],
               device := (device demo_init)\<lparr>dev_entry := Some \<lparr>buffptr = Some 0, esize = 1\<rparr>\<rparr>\<rparr>"

lemma demo_full_list:
  "cb_list (circular_buffer (device demo_full)) = map (\<lambda>i. \<lparr>buffptr = Some i, esize = 1\<rparr>) [0..<10]"
  by (simp add: demo_full_def cb_list_def cb_count_def cb_pos_def)

lemma demo_full_wf:
  "dev_wf demo_full" "\<not> lock (device demo_full)" "dev_pending demo_full = []"
  "dev_cmds demo_full = replicate 10 [newline]" "tracked demo_full"
proof -
  have "commands_wf (circular_buffer (device demo_full)) (heap demo_full)"
    unfolding commands_wf_def demo_full_list
    by (auto simp: demo_full_def cb_wf_def command_ok_def entry_ok_def entry_bytes_def distinct_map inj_on_def)
  then show "dev_wf demo_full" by (simp add: dev_wf_def) (simp add: demo_full_def pending_ok_def)
  show "\<not> lock (device demo_full)" "dev_pending demo_full = []"
    by (simp_all add: demo_full_def dev_pending_def entry_bytes_def)
  show c: "dev_cmds demo_full = replicate 10 [newline]"
    unfolding dev_cmds_def demo_full_list
    by (rule nth_equalityI) (auto simp: demo_full_def entry_bytes_def)
  show "tracked demo_full"
    by (simp add: tracked_def c length_concat) (simp add: demo_full_def)
qed

lemma demo_pending_wf:
  "dev_wf demo_pending" "\<not> lock (device demo_pending)" "dev_pending demo_pending = ''a''"
  using zero_commands_wf
  by (simp_all add: dev_wf_def demo_pending_def demo_init_def pending_ok_def entry_ok_def dev_pending_def
      entry_bytes_def zero_cb_list) (simp add: zero_device_def)

theorem aesd_write_size_tracked_iff_witness:
  "tracked demo_full \<and>
   (\<exists>fp s'. aesd_write demo_kernel demo_full 0 3 0 = Some (Inr 3, fp, s') \<and> \<not> tracked s')"
proof -
  have r: "write_result demo_kernel demo_full 0 3 = Inr 3"
    by (simp add: write_result_def demo_kernel_def demo_full_def aesd_write_alloc_def pool_malloc_def upt_rec)
  have new: "read_user (user demo_full) 0 3 = ''hi'' @ [newline]"
    by (simp add: read_user_def demo_full_def write_user_def upt_rec)
  obtain s' where s': "aesd_write demo_kernel demo_full 0 3 0 = Some (Inr 3, 3, s')"
    using write_success [OF demo_kernel_ok demo_full_wf(1) _ _ demo_full_wf(2) r refl, of 0] by auto
  then have "\<not> tracked s'"
    using aesd_write_size_tracked_iff [OF demo_kernel_ok demo_full_wf(1) _ _ demo_full_wf(2,5), of 3 0 0 3 s'] new
    by (simp add: demo_full_wf)
  with s' show ?thesis using demo_full_wf by auto
qed

text \<open>
  C21. Every allocated kernel buffer stays reachable from the device over a write, with one exception: if the enlargement
  of the buffer of an unfinished line fails, its old buffer is lost. A write that returns leaks memory exactly in
  this case.
\<close>

theorem aesd_write_no_leak:
  assumes k: "kernel_ok k" and wf: "dev_wf s" and c: "0 < unat count" "unat count \<le> 2 ^ 31"
    and lk: "\<not> lock (device s)" and nl: "no_leak s"
    and w: "aesd_write k s buf count f_pos = Some (r, fp, s')"
  shows "no_leak s' \<longleftrightarrow> (r = Inl ENOMEM \<longrightarrow> dev_pending s = [])"
proof -
  obtain e where e: "dev_entry (device s) = Some e" and p: "pending_ok (heap s) e"
    using wf by (auto simp: dev_wf_def split: option.splits)
  have r: "r = write_result k s buf count" using write_ok [OF k wf c lk, of buf f_pos] w by auto
  consider (intr) "mutex_interrupted k"
    | (nomem) "\<not> mutex_interrupted k" "aesd_write_alloc k (heap s) e count = None"
    | (fault) q h1 where "\<not> mutex_interrupted k" "aesd_write_alloc k (heap s) e count = Some (q, h1)"
        "fst (copy_from_user k (user s) buf count) \<noteq> 0"
    | (ok) "r = Inr count"
    using r e by (cases "aesd_write_alloc k (heap s) e count") (auto simp: write_result_def split: if_splits)
  then show ?thesis
  proof cases
    case intr
    then show ?thesis using w nl by (auto simp: aesd_write_def)
  next
    case nomem
    then have s': "s' = set_entry (e\<lparr>buffptr := None, esize := 0\<rparr>) s" "r = Inl ENOMEM"
      using write_nomem [OF nomem(1) lk e nomem(2)] w by auto
    have "dev_pending s = [] \<longleftrightarrow> buffptr e = None"
      using p e by (auto simp: dev_pending_def pending_ok_def entry_bytes_def split: if_splits elim!: entry_okE)
    moreover have "owned s' = owned s \<longleftrightarrow> buffptr e = None"
      using wf e by (cases "buffptr e") (auto simp: s' owned_def dev_wf_def)
    ultimately show ?thesis using s' nl by (auto simp: no_leak_def)
  next
    case fault
    then have s': "s' = set_entry (e\<lparr>buffptr := None, esize := 0\<rparr>) (s\<lparr>heap := heap_without (heap s) e\<rparr>)"
        "r = Inl EFAULT"
      using write_fault [OF k wf c(2) fault(1) lk e fault(2,3)] w by auto
    have "no_leak s'"
      using nl wf e by (auto simp: s' no_leak_def owned_def heap_without_def dev_wf_def split: option.splits)
    then show ?thesis using s' by simp
  next
    case ok
    then show ?thesis
      using write_success [OF k wf c lk _ refl, of buf f_pos] r w nl by auto
  qed
qed

definition failing_kernel :: kernel where
  "failing_kernel = demo_kernel\<lparr>krealloc := (\<lambda>h q n. None)\<rparr>"

lemma failing_kernel_ok: "kernel_ok failing_kernel"
  using demo_kernel_ok
  by (simp add: failing_kernel_def kernel_ok_def kmalloc_ok_def krealloc_ok_def copy_from_user_ok_def
      copy_to_user_ok_def)

theorem aesd_write_no_leak_witness:
  "no_leak demo_pending \<and> dev_pending demo_pending = ''a'' \<and>
   (\<exists>fp s'. aesd_write failing_kernel demo_pending 0 3 0 = Some (Inl ENOMEM, fp, s') \<and> \<not> no_leak s')"
proof -
  have nl: "no_leak demo_pending"
    by (auto simp: no_leak_def owned_def demo_pending_def demo_init_def zero_cb_list)
  have "write_result failing_kernel demo_pending 0 3 = Inl ENOMEM"
    by (simp add: write_result_def failing_kernel_def demo_kernel_def demo_pending_def demo_init_def
        aesd_write_alloc_def)
  then obtain s' where "aesd_write failing_kernel demo_pending 0 3 0 = Some (Inl ENOMEM, 0, s')"
    using write_ok [OF failing_kernel_ok demo_pending_wf(1) _ _ demo_pending_wf(2), of 3 0 0] by auto
  then show ?thesis
    using aesd_write_no_leak [OF failing_kernel_ok demo_pending_wf(1) _ _ demo_pending_wf(2) nl, of 3 0 0]
      nl demo_pending_wf(3) by auto
qed

text \<open>A write of zero bytes with nothing pending reads before the start of an empty block.\<close>

lemma aesd_write_zero_undefined:
  assumes "kernel_ok k" and "\<not> mutex_interrupted k" and "\<not> lock (device s)"
    and "dev_entry (device s) = Some \<lparr>buffptr = None, esize = 0\<rparr>"
    and "kmalloc k (heap s) 0 \<noteq> None" and "fst (copy_from_user k (user s) buf 0) = 0"
  shows "aesd_write k s buf 0 f_pos = None"
proof -
  obtain p h where m: "kmalloc k (heap s) 0 = Some (p, h)" using assms(5) by auto
  then have h: "h = (heap s)(p \<mapsto> [])"
    using assms(1) by (fastforce simp: kernel_ok_def kmalloc_ok_def)
  have "length (snd (copy_from_user k (user s) buf 0)) = 0"
    using assms(1) by (simp add: kernel_ok_def copy_from_user_ok_def)
  then have c: "copy_from_user k (user s) buf 0 = (0, [])"
    using assms(6) by (simp add: prod_eq_iff)
  show ?thesis
    using assms(2-4) m h c
    by (simp add: aesd_write_def mutex_lock_def aesd_write_alloc_def kwrite_def kread_def Let_def)
qed

lemma aesd_write_zero_undefined_witness:
  "dev_wf demo_init \<and> aesd_write demo_kernel demo_init 0 0 0 = None"
proof -
  have "dev_entry (device demo_init) = Some \<lparr>buffptr = None, esize = 0\<rparr>"
    "kmalloc demo_kernel (heap demo_init) 0 \<noteq> None" "\<not> mutex_interrupted demo_kernel"
    "fst (copy_from_user demo_kernel (user demo_init) 0 0) = 0"
    by (simp_all add: demo_init_def demo_kernel_def pool_malloc_def upt_rec)
  then show ?thesis
    using aesd_write_zero_undefined [OF demo_kernel_ok _ demo_init_wf(2)] demo_init_wf(1) by blast
qed

section \<open>Reading\<close>

lemma read_ok:
  assumes "copy_to_user_ok k" and "copy_never_fails k" and "\<not> mutex_interrupted k"
    and "dev_wf s" and "\<not> lock (device s)"
    and "bs = take (unat count) (drop (unat f_pos) (concat (dev_cmds s)))"
  shows "aesd_read k s buf count f_pos =
    Some (Inr (of_nat (length bs)), read_final (dev_cmds s) f_pos count 0,
          s\<lparr>user := write_user (user s) buf bs\<rparr>)"
proof -
  let ?s = "s\<lparr>device := device s\<lparr>lock := True\<rparr>\<rparr>"
  have "dev_cmds ?s = dev_cmds s" "unlocked ?s u = s\<lparr>user := u\<rparr>" for u
    using assms(5) by (simp_all add: dev_cmds_def unlocked_def)
  then show ?thesis
    using read_loop_ok [OF assms(1,2), of ?s bs count f_pos buf 0] dev_wf_commands [OF assms(4)] assms
    by (simp add: aesd_read_def mutex_lock_def)
qed


lemma demo_full_cmds:
  "dev_cmds demo_full =
     [[newline], [newline], [newline], [newline], [newline], [newline], [newline], [newline], [newline], [newline]]"
  unfolding demo_full_wf(4) by (simp add: numeral_eq_Suc)

lemma demo_never_fails: "copy_never_fails demo_kernel" "\<not> mutex_interrupted demo_kernel"
    "copy_to_user_ok demo_kernel"
  by (simp_all add: copy_never_fails_def demo_kernel_def copy_to_user_ok_def)


text \<open>
  C19. When \<open>aesd_read\<close> leaves the file position where a reader expects it. After a successful read of \<open>n\<close> bytes the
  position has advanced by \<open>n\<close> exactly when fewer bytes than requested were delivered, nothing was requested, or the
  last delivered byte lies in the entry in which the read started. Otherwise the position overshoots, because the last
  step adds the total count again.
\<close>

theorem aesd_read_position_iff:
  assumes k: "kernel_ok k" "copy_never_fails k" and wf: "dev_wf s" "\<not> lock (device s)"
    and r: "aesd_read k s buf count f_pos = Some (Inr n, fp, s')"
  shows "unat fp = unat f_pos + unat n \<longleftrightarrow>
           unat n < unat count \<or> unat count = 0 \<or>
           piece_start (map length (dev_cmds s)) (unat f_pos + unat count - 1) \<le> unat f_pos"
proof -
  let ?p = "unat f_pos" and ?c = "unat count" and ?t = "length (concat (dev_cmds s))"
  have intr: "\<not> mutex_interrupted k" using r by (auto simp: aesd_read_def)
  have n: "n = of_nat (min ?c (?t - ?p))" and fp: "fp = read_final (dev_cmds s) f_pos count 0"
    using read_ok [OF _ k(2) intr wf refl, of buf count f_pos] k(1) r
    by (auto simp: kernel_ok_def min.commute)
  have t: "?t \<le> 10 * 2 ^ 32" by (rule total_le [OF dev_wf_commands [OF wf(1)]])
  have un: "unat n = min ?c (?t - ?p)" using t by (simp add: n unat_size_of_nat min_def)
  show ?thesis
  proof (cases "?p < ?t \<and> ?p + ?c \<le> ?t")
    case True
    have m: "read_mark (map length (dev_cmds s)) ?p ?c \<le> ?t"
      using True by (auto simp: read_mark_def piece_start_def split: option.split)
    have "unat fp = read_mark (map length (dev_cmds s)) ?p ?c + ?c"
      using True m t by (simp add: fp read_final_def Let_def unat_size_add unat_size_of_nat)
    moreover have "unat n = ?c" using un True by (auto simp: min_def)
    ultimately show ?thesis by (auto simp: read_mark_def)
  next
    case False
    then have "unat fp = ?p + (?t - ?p)"
      using t by (cases "?t \<le> ?p") (auto simp: fp read_final_def Let_def unat_size_add unat_size_of_nat)
    then show ?thesis using un False by auto
  qed
qed

theorem aesd_read_position_iff_witness:
  "\<exists>fp s'. aesd_read demo_kernel demo_full 0 2 0 = Some (Inr 2, fp, s') \<and> unat fp \<noteq> 2"
proof -
  have r: "aesd_read demo_kernel demo_full 0 2 0 =
      Some (Inr 2, read_final (dev_cmds demo_full) 0 2 0,
            demo_full\<lparr>user := write_user (user demo_full) 0 [newline, newline]\<rparr>)"
    using read_ok [OF demo_never_fails(3,1,2) demo_full_wf(1,2) refl, where count = 2 and f_pos = 0 and buf = 0]
    by (simp add: demo_full_cmds)
  have "piece_start (map length (dev_cmds demo_full)) 1 = 1"
    by (simp add: demo_full_cmds piece_start_def)
  then show ?thesis
    using aesd_read_position_iff [OF demo_kernel_ok demo_never_fails(1) demo_full_wf(1,2) r] r by auto
qed

end
