(* ===== verification/Driver_Session.thy ===== *)
theory Driver_Session
  imports Driver_System
begin

text \<open>
  Sequences of calls on the driver: a seek followed by a read, the life of the module from loading to
  unloading, and the history of writes. The facts about single handlers come from \<open>Driver_Refinement\<close> and
  \<open>Driver_System\<close>, those about arbitrary call sequences from the interpretation \<open>fops\<close>.
\<close>

definition faulting_kernel :: kernel where
  "faulting_kernel = demo_kernel\<lparr>copy_to_user := (\<lambda>u a bs. (of_nat (length bs), u))\<rparr>"

section \<open>Seeking\<close>

lemma ioctl_ok:
  assumes "dev_wf s" and "\<not> lock (device s)"
  shows "aesd_ioctl k s f_pos cmd arg =
    Some (if cmd \<noteq> AESDCHAR_IOCSEEKTO k then (Inl ENOTTY, f_pos, s)
          else let (left, st) = copy_seekto_from_user k (user s) arg in
            if left \<noteq> 0 then (Inl EFAULT, f_pos, s)
            else if mutex_interrupted k then (Inl ERESTARTSYS, f_pos, s)
            else (case spec_seek (dev_cmds s) (unat (write_cmd st)) (unat (write_cmd_offset st)) of
                    Some p \<Rightarrow> (Inr 0, of_nat p, s)
                  | None \<Rightarrow> (Inl EINVAL, f_pos, s)))"
  by (simp add: aesd_ioctl_def adjust_ok [OF dev_wf_commands [OF assms(1)] assms(2)] split: prod.split)

text \<open>
  C11. \<open>aesd_ioctl\<close> on every branch: \<open>ENOTTY\<close> for another command, \<open>EFAULT\<close> when the argument cannot be copied,
  \<open>ERESTARTSYS\<close> when the lock is interrupted, \<open>EINVAL\<close> when there is no such line or byte, and otherwise the file
  position becomes the sum of the sizes of the lines before the requested one plus the requested offset. The device
  is unchanged and unlocked on every branch, and the position is unchanged on every error.
\<close>

theorem aesd_ioctl_correct:
  assumes "dev_wf s" and "\<not> lock (device s)"
  shows "aesd_ioctl k s f_pos cmd arg =
    Some (if cmd \<noteq> AESDCHAR_IOCSEEKTO k then (Inl ENOTTY, f_pos, s)
          else let (left, st) = copy_seekto_from_user k (user s) arg in
            if left \<noteq> 0 then (Inl EFAULT, f_pos, s)
            else if mutex_interrupted k then (Inl ERESTARTSYS, f_pos, s)
            else (case spec_seek (dev_cmds s) (unat (write_cmd st)) (unat (write_cmd_offset st)) of
                    Some p \<Rightarrow> (Inr 0, of_nat p, s)
                  | None \<Rightarrow> (Inl EINVAL, f_pos, s)))"
  by (rule ioctl_ok [OF assms])

theorem aesd_ioctl_correct_witness:
  "aesd_ioctl demo_kernel demo_full 7 0xC0081601 0 = Some (Inl EINVAL, 7, demo_full) \<and>
   aesd_ioctl demo_kernel demo_full 7 5 0 = Some (Inl ENOTTY, 7, demo_full)"
  using aesd_ioctl_correct [OF demo_full_wf(1,2), of demo_kernel 7 _ 0] demo_full_cmds
  by (simp add: AESDCHAR_IOCSEEKTO_def) (simp add: demo_kernel_def spec_seek_def)

lemma spec_seek_drop:
  assumes "spec_seek cmds c off = Some p"
  shows "drop p (concat cmds) = drop off (cmds ! c) @ concat (drop (Suc c) cmds)"
    and "p < length (concat cmds)"
proof -
  have c: "c < length cmds" "off < length (cmds ! c)" "p = length (concat (take c cmds)) + off"
    using assms by (auto simp: spec_seek_def split: if_splits)
  have split: "concat cmds = concat (take c cmds) @ cmds ! c @ concat (drop (Suc c) cmds)"
    using arg_cong [OF id_take_nth_drop [OF c(1)], of concat] by simp
  show "drop p (concat cmds) = drop off (cmds ! c) @ concat (drop (Suc c) cmds)"
    using c by (subst split) simp
  show "p < length (concat cmds)" using c by (subst split) simp
qed

text \<open>A seek that succeeds, followed by a read, delivers the bytes from the position of the seek.\<close>

lemma aesd_ioctl_then_read:
  assumes k: "kernel_ok k" "copy_never_fails k" "\<not> mutex_interrupted k"
    and wf: "dev_wf s" "\<not> lock (device s)"
    and seek: "copy_seekto_from_user k (user s) arg = (0, st)"
    and c: "c = unat (write_cmd st)" "c < length (dev_cmds s)"
    and off: "off = unat (write_cmd_offset st)" "off < length (dev_cmds s ! c)"
    and bs: "bs = take (unat count) (drop off (dev_cmds s ! c) @ concat (drop (Suc c) (dev_cmds s)))"
  shows "\<exists>p. aesd_ioctl k s f_pos (AESDCHAR_IOCSEEKTO k) arg = Some (Inr 0, p, s) \<and>
           (\<exists>fp. aesd_read k s buf count p =
              Some (Inr (of_nat (length bs)), fp, s\<lparr>user := write_user (user s) buf bs\<rparr>))"
proof -
  obtain p where p: "spec_seek (dev_cmds s) c off = Some p" using c off by (auto simp: spec_seek_def)
  have "p < 2 ^ 64"
    using spec_seek_drop(2) [OF p] total_le [OF dev_wf_commands [OF wf(1)]] by simp
  then have "bs = take (unat count) (drop (unat (of_nat p :: loff_t)) (concat (dev_cmds s)))"
    using spec_seek_drop(1) [OF p] bs by (simp add: unat_size_of_nat)
  then show ?thesis
    using read_ok [OF _ k(2,3) wf, of bs count "of_nat p" buf] k(1) ioctl_ok [OF wf] seek p k(3) c(1) off(1)
    by (simp add: kernel_ok_def)
qed

definition seeking_kernel :: kernel where
  "seeking_kernel = demo_kernel\<lparr>copy_seekto_from_user := (\<lambda>u a. (0, \<lparr>write_cmd = 8, write_cmd_offset = 0\<rparr>))\<rparr>"

lemma seeking_kernel_ok: "kernel_ok seeking_kernel" "copy_never_fails seeking_kernel"
    "\<not> mutex_interrupted seeking_kernel"
  using demo_kernel_ok demo_never_fails
  by (simp_all add: seeking_kernel_def kernel_ok_def kmalloc_ok_def krealloc_ok_def copy_from_user_ok_def
      copy_to_user_ok_def copy_never_fails_def)

lemma aesd_ioctl_then_read_witness:
  "\<exists>p. aesd_ioctl seeking_kernel demo_full 0 (AESDCHAR_IOCSEEKTO seeking_kernel) 0 = Some (Inr 0, p, demo_full) \<and>
     (\<exists>fp. aesd_read seeking_kernel demo_full 0 5 p =
        Some (Inr 2, fp, demo_full\<lparr>user := write_user (user demo_full) 0 [newline, newline]\<rparr>))"
proof -
  have "copy_seekto_from_user seeking_kernel (user demo_full) 0 = (0, \<lparr>write_cmd = 8, write_cmd_offset = 0\<rparr>)"
    by (simp add: seeking_kernel_def)
  then show ?thesis
    using aesd_ioctl_then_read [OF seeking_kernel_ok demo_full_wf(1,2) _ refl _ refl _ refl,
        of 0 _ 0 0 5] by (simp add: demo_full_cmds)
qed

text \<open>
  What the kernel documents of \<open>fixed_size_llseek\<close> in the two modes used here, for a file of \<open>sz\<close> bytes: \<open>SEEK_SET\<close> (0)
  moves to a position from 0 to \<open>sz\<close> and rejects every other one, and \<open>SEEK_END\<close> (2) with offset zero moves to \<open>sz\<close>.
  Positions and sizes are signed; nothing is assumed for a negative size.
\<close>

definition llseek_ok :: "kernel \<Rightarrow> bool" where
  "llseek_ok k \<longleftrightarrow> (\<forall>p off sz. 0 \<le> sint sz \<longrightarrow>
     fixed_size_llseek k p off 0 sz = (if 0 \<le> sint off \<and> sint off \<le> sint sz then (Inr off, off) else (Inl EINVAL, p)) \<and>
     fixed_size_llseek k p 0 2 sz = (Inr sz, sz))"

lemma demo_llseek_ok: "llseek_ok demo_kernel"
  by (simp add: llseek_ok_def demo_kernel_def seek_within_def Let_def)

lemma llseek_within:
  assumes "llseek_ok k" and "\<not> mutex_interrupted k" and "\<not> lock (device s)" and "unat (dev_size (device s)) < 2 ^ 63"
  shows "aesd_llseek k s f_pos off 0 =
      Some (if unat off \<le> unat (dev_size (device s)) then (Inr off, off, s) else (Inl EINVAL, f_pos, s))"
    and "aesd_llseek k s f_pos 0 2 = Some (Inr (dev_size (device s)), dev_size (device s), s)"
  using assms(1-3) signed_within [OF assms(4)] by (auto simp: llseek_returns llseek_ok_def)

section \<open>Loading and unloading\<close>

lemma init_device:
  assumes "d = zero_device\<lparr>dev_entry := Some \<lparr>buffptr = None, esize = 0\<rparr>\<rparr>" and "device s = d"
  shows "dev_wf s" "dev_cmds s = []" "dev_pending s = []" "tracked s" "\<not> lock (device s)" "owned s = {}"
  using zero_commands_wf assms
  by (simp_all add: dev_wf_def pending_ok_def dev_cmds_def zero_cb_list dev_pending_def entry_bytes_def
      tracked_def owned_def) (simp_all add: zero_device_def)

definition fresh_device :: aesd_dev where
  "fresh_device = zero_device\<lparr>dev_entry := Some \<lparr>buffptr = None, esize = 0\<rparr>\<rparr>"

lemma init_eq:
  "aesd_init_module env m =
     (if fst (alloc_chrdev_region env) < 0 then
        Some (fst (alloc_chrdev_region env), m\<lparr>aesd_major := snd (alloc_chrdev_region env)\<rparr>)
      else if entry_alloc env then
        Some (cdev_add env,
              \<lparr>msys = (msys m)\<lparr>device := fresh_device\<rparr>, aesd_major = snd (alloc_chrdev_region env),
               region = (cdev_add env = 0), cdev_live = (cdev_add env = 0)\<rparr>)
      else None)"
proof -
  have "zero_device\<lparr>circular_buffer := aesd_circular_buffer_init (circular_buffer zero_device), lock := False,
      dev_entry := Some \<lparr>buffptr = None, esize = 0\<rparr>, dev_size := 0\<rparr> = fresh_device"
    by (simp add: zero_device_def fresh_device_def aesd_circular_buffer_init_def)
  then show ?thesis
    by (cases m) (simp add: aesd_init_module_def aesd_setup_cdev_def Let_def split: prod.split)
qed

lemma init_ok:
  assumes "aesd_init_module env m = Some (0, m')"
  shows "device (msys m') = fresh_device" and "heap (msys m') = heap (msys m)"
  using assms by (auto simp: init_eq split: if_splits)

lemma fresh_ok:
  assumes "device s = fresh_device"
  shows "dev_wf s" "dev_cmds s = []" "dev_pending s = []" "tracked s" "\<not> lock (device s)" "owned s = {}"
  using init_device [OF fresh_device_def assms] by auto

text \<open>
  C23. Loading a module that is not loaded, with every outcome of the calls it makes. If \<open>alloc_chrdev_region\<close> fails, its
  error is returned, nothing is registered and the device is untouched. Otherwise, if the allocation of the pending
  entry fails, the result is not tested and the load has no defined result. Otherwise, if \<open>cdev_add\<close> fails, its error
  is returned and nothing is registered, but the entry structure stays allocated. Otherwise the load returns 0 with
  the region and the device registered and a well-formed, unlocked device without stored or unfinished lines whose
  size is right.
\<close>

theorem aesd_init_module_correct:
  assumes "\<not> cdev_live m" and "\<not> region m"
  shows "if fst (alloc_chrdev_region env) \<ge> 0 \<and> \<not> entry_alloc env then aesd_init_module env m = None
    else \<exists>m'. aesd_init_module env m =
        Some (if fst (alloc_chrdev_region env) < 0 then fst (alloc_chrdev_region env) else cdev_add env, m') \<and>
      (if fst (alloc_chrdev_region env) < 0 then
         \<not> region m' \<and> \<not> cdev_live m' \<and> msys m' = msys m
       else if cdev_add env \<noteq> 0 then
         \<not> region m' \<and> \<not> cdev_live m' \<and> dev_entry (device (msys m')) \<noteq> None
       else region m' \<and> cdev_live m' \<and> aesd_major m' = snd (alloc_chrdev_region env) \<and>
         dev_wf (msys m') \<and> \<not> lock (device (msys m')) \<and> dev_cmds (msys m') = [] \<and>
         dev_pending (msys m') = [] \<and> tracked (msys m'))"
  using assms fresh_ok [of "(msys m)\<lparr>device := fresh_device\<rparr>"] by (auto simp: init_eq fresh_device_def)

definition demo_env :: module_env where
  "demo_env = \<lparr>alloc_chrdev_region = (0, 240), cdev_add = 0, entry_alloc = True\<rparr>"

definition unloaded :: aesd_module where
  "unloaded = \<lparr>msys = \<lparr>device = zero_device, heap = Map.empty, user = (\<lambda>_. CHR 0x00)\<rparr>, aesd_major = 0,
     region = False, cdev_live = False\<rparr>"

theorem aesd_init_module_correct_witness:
  "(\<exists>m'. aesd_init_module demo_env unloaded = Some (0, m') \<and> region m' \<and> cdev_live m' \<and> aesd_major m' = 240 \<and>
     dev_wf (msys m') \<and> dev_cmds (msys m') = []) \<and>
   aesd_init_module (demo_env\<lparr>entry_alloc := False\<rparr>) unloaded = None"
  using aesd_init_module_correct [of unloaded demo_env] aesd_init_module_correct [of unloaded "demo_env\<lparr>entry_alloc := False\<rparr>"]
  by (auto simp: demo_env_def unloaded_def)



section \<open>Sequences of calls\<close>

text \<open>
  C7. After a successful load, every sequence of calls through the table \<open>aesd_fops\<close> on any number of open files, with
  any behaviour of the kernel services the handlers rely on (writes not empty and of at most $2^{31}$ bytes), runs to
  its end: no handler reads or writes outside a buffer, uses or frees a freed one, or blocks on its own lock, and
  afterwards the device satisfies its invariant and is unlocked.
\<close>

theorem driver_calls_safe:
  assumes "aesd_init_module env m = Some (0, m')" and "\<forall>c \<in> snd ` set cs. admissible_call c"
  shows "\<exists>rs s' files'. run_calls aesd_fops cs (msys m') files = Some (rs, s', files') \<and>
           length rs = length cs \<and> dev_wf s' \<and> \<not> lock (device s')"
  using fops.run_calls_returns [OF assms(2)] fresh_ok [OF init_ok(1) [OF assms(1)]] by simp

definition demo_calls :: "(nat \<times> dev_call) list" where
  "demo_calls =
     [(0, Open), (1, Open), (0, Write demo_kernel 0 3), (1, Read faulting_kernel 0 5),
      (0, Llseek demo_kernel 0 2), (1, Ioctl demo_kernel 5 0), (0, Release)]"

theorem driver_calls_safe_witness:
  "\<exists>m' rs s' files'. aesd_init_module demo_env unloaded = Some (0, m') \<and>
     run_calls aesd_fops demo_calls (msys m') (\<lambda>_. 0) = Some (rs, s', files') \<and> length rs = 7 \<and>
     dev_wf s' \<and> \<not> lock (device s')"
proof -
  obtain m' where m': "aesd_init_module demo_env unloaded = Some (0, m')"
    by (simp add: init_eq demo_env_def)
  have "\<forall>c \<in> snd ` set demo_calls. admissible_call c" "length demo_calls = 7"
    using demo_kernel_ok by (simp_all add: demo_calls_def)
  then show ?thesis using driver_calls_safe [OF m', of demo_calls "\<lambda>_. 0"] m' by auto
qed

text \<open>
  The calls of a program that writes the strings \<open>ds\<close> one after the other: it puts each one at the start of
  its memory and calls \<open>write\<close>. Every write may find the kernel in another state.
\<close>

definition write_calls :: "nat \<Rightarrow> umem \<Rightarrow> (kernel \<times> char list) list \<Rightarrow> (nat \<times> dev_call) list" where
  "write_calls fd u ds =
     concat (map (\<lambda>(k, d). [(fd, UserStore (write_user u 0 d)), (fd, Write k 0 (of_nat (length d)))]) ds)"

fun write_results :: "'a list \<Rightarrow> 'a list" where
  "write_results (a # b # xs) = b # write_results xs"
| "write_results _ = []"

definition valid_write :: "kernel \<times> char list \<Rightarrow> bool" where
  "valid_write w \<longleftrightarrow> kernel_ok (fst w) \<and> snd w \<noteq> [] \<and> length (snd w) \<le> 2 ^ 31"

lemma read_write_user:
  assumes "length d \<le> 2 ^ 31"
  shows "read_user (write_user u 0 d) 0 (length d) = d"
  using assms by (intro nth_equalityI) (simp_all add: read_user_def write_user_def unat_size_of_nat)

lemma drop_drop_last:
  "drop (Suc (length (drop (length cs - n) cs)) - n) (drop (length cs - n) cs @ [d]) =
     drop (Suc (length cs) - n) (cs @ [d])"
  by (cases "n \<le> length cs") (simp_all add: Suc_diff_le)

lemma ten_lines_le:
  assumes "\<forall>c \<in> set cs. length c \<le> n"
  shows "length (concat (take 10 cs)) \<le> 10 * n"
proof -
  have "length (concat (take 10 cs)) \<le> length (take 10 cs) * n"
    using assms by (intro length_concat_bound) (auto dest: in_set_takeD)
  also have "\<dots> \<le> 10 * n" by (intro mult_right_mono) auto
  finally show ?thesis .
qed

text \<open>
  One successful write of a whole line \<open>d\<close> after the lines \<open>cs\<close>. Once ten lines are stored, the size field does not
  change any more: the size of the new line is subtracted and added.
\<close>

lemma write_line:
  assumes k: "kernel_ok k" and d: "d \<noteq> []" "last d = newline" "length d \<le> 2 ^ 31"
    and s: "dev_wf s" "\<not> lock (device s)" "read_user (user s) 0 (length d) = d"
    and cs: "dev_cmds s = drop (length cs - 10) cs" "dev_pending s = []" "\<forall>c \<in> set cs. length c \<le> 2 ^ 31"
      "unat (dev_size (device s)) = length (concat (take 10 cs))"
    and w: "aesd_write k s 0 (of_nat (length d)) fp = Some (Inr n, fp', s')"
  shows "dev_wf s'" and "\<not> lock (device s')" and "dev_pending s' = []"
    and "dev_cmds s' = drop (length (cs @ [d]) - 10) (cs @ [d])"
    and "unat (dev_size (device s')) = length (concat (take 10 (cs @ [d])))"
proof -
  let ?n = "of_nat (length d) :: size_t"
  have n: "unat ?n = length d" using d(3) by (intro unat_size_of_nat) simp
  have r: "write_result k s 0 ?n = Inr ?n"
    using write_ok [OF k s(1) _ _ s(2), of ?n 0 fp] w d n by (auto simp: write_result_def split: if_splits option.splits)
  obtain s1 where "aesd_write k s 0 ?n fp = Some (Inr ?n, fp + ?n, s1)" and s1: "dev_wf s1" "\<not> lock (device s1)"
      "(dev_cmds s1, dev_pending s1) = spec_write (dev_cmds s, dev_pending s) d" "dev_size (device s1) = size_after s d ?n"
    using write_success [OF k s(1) _ _ s(2) r, of d fp] d s(3) cs(2) n by auto
  then have s': "s' = s1" using w by simp
  show "dev_wf s'" "\<not> lock (device s')" using s1(1,2) s' by simp_all
  show "dev_pending s' = []" "dev_cmds s' = drop (length (cs @ [d]) - 10) (cs @ [d])"
    using s1(3) d(2) cs(1,2) s' drop_drop_last [of cs 10 d] by (simp_all add: spec_write_def)
  have "length (concat (take 10 cs)) \<le> 10 * 2 ^ 31" by (rule ten_lines_le [OF cs(3)])
  moreover have "full (circular_buffer (device s)) \<longleftrightarrow> 10 \<le> length cs" using full_cmds [OF s(1)] cs(1) by auto
  ultimately show "unat (dev_size (device s')) = length (concat (take 10 (cs @ [d])))"
    using s1(4) s' cs(4) d(2,3) n by (auto simp: size_after_def unat_size_add)
qed

lemma run_lines:
  assumes "\<forall>w \<in> set ds. valid_write w \<and> last (snd w) = newline"
    and "run_calls aesd_fops (write_calls fd u ds) s files = Some (rs, s', files')"
    and "list_all (\<lambda>r. \<not> isl r) (write_results rs)" and "dev_wf s" and "\<not> lock (device s)"
    and "dev_cmds s = drop (length cs - 10) cs" and "dev_pending s = []" and "\<forall>c \<in> set cs. length c \<le> 2 ^ 31"
    and "unat (dev_size (device s)) = length (concat (take 10 cs))"
  shows "dev_wf s' \<and> \<not> lock (device s') \<and> dev_cmds s' = drop (length (cs @ map snd ds) - 10) (cs @ map snd ds) \<and>
    unat (dev_size (device s')) = length (concat (take 10 (cs @ map snd ds)))"
  using assms
proof (induction ds arbitrary: s files rs cs)
  case Nil
  then show ?case by (simp add: write_calls_def)
next
  case (Cons w ds)
  obtain k d where w: "w = (k, d)" by (cases w)
  define s0 where "s0 = s\<lparr>user := write_user u 0 d\<rparr>"
  have d: "kernel_ok k" "d \<noteq> []" "last d = newline" "length d \<le> 2 ^ 31"
    using Cons.prems(1) w by (auto simp: valid_write_def)
  have s0: "dev_wf s0" "\<not> lock (device s0)" "read_user (user s0) 0 (length d) = d"
      "dev_cmds s0 = drop (length cs - 10) cs" "dev_pending s0 = []"
      "unat (dev_size (device s0)) = length (concat (take 10 cs))"
    using Cons.prems d(4) read_write_user by (simp_all add: s0_def dev_pending_def split: option.splits)
  obtain r fp s1 rs' where 1: "aesd_write k s0 0 (of_nat (length d)) (files fd) = Some (r, fp, s1)"
      "run_calls aesd_fops (write_calls fd u ds) s1 (files(fd := fp)) = Some (rs', s', files')" "rs = Inr 0 # r # rs'"
    using Cons.prems(2) w by (auto simp: write_calls_def s0_def Option.bind_eq_Some_conv)
  obtain n where r: "r = Inr n" and rs': "list_all (\<lambda>r. \<not> isl r) (write_results rs')"
    using Cons.prems(3) 1(3) by (cases r) auto
  note s1 = write_line [OF d s0(1-5) Cons.prems(8) s0(6) 1(1) [unfolded r]]
  have "\<forall>c \<in> set (cs @ [d]). length c \<le> 2 ^ 31" using Cons.prems(8) d(4) by auto
  then show ?case using Cons.IH [OF _ 1(2) rs' s1(1,2,4,3) _ s1(5)] Cons.prems(1) w by simp
qed

text \<open>The device after it has been loaded and whole lines have been written to it.\<close>

lemma lines_written:
  assumes "aesd_init_module env m = Some (0, m')" and "\<forall>w \<in> set ds. valid_write w \<and> last (snd w) = newline"
    and "run_calls aesd_fops (write_calls fd u ds) (msys m') files = Some (rs, s', files')"
    and "list_all (\<lambda>r. \<not> isl r) (write_results rs)"
  shows "dev_wf s'" and "\<not> lock (device s')" and "dev_cmds s' = drop (length ds - 10) (map snd ds)"
    and "unat (dev_size (device s')) = length (concat (take 10 (map snd ds)))"
  using run_lines [OF assms(2-4), of "[]"] fresh_ok [OF init_ok(1) [OF assms(1)]] by (auto simp: tracked_def)

text \<open>
  C14. Load, write and read: after a successful load and any number of successful writes of 1 to $2^{31}$ bytes that each end
  with a newline, a read of any length from position 0 returns the concatenation of the last ten of them, cut off at
  this length: all of it when the length is sufficient. The returned count is the number of these bytes, they stand in
  the user buffer, and nothing else has changed. In the reading call, the copies to the user succeed and the wait for
  the lock is not interrupted; the writes may meet any behaviour of the kernel as long as they report success.
\<close>

theorem driver_keeps_last_ten_lines:
  assumes m: "aesd_init_module env m = Some (0, m')"
    and ds: "\<forall>w \<in> set ds. valid_write w \<and> last (snd w) = newline"
    and run: "run_calls aesd_fops (write_calls fd u ds) (msys m') files = Some (rs, s', files')"
    and ok: "list_all (\<lambda>r. \<not> isl r) (write_results rs)"
    and k: "kernel_ok k" "copy_never_fails k" "\<not> mutex_interrupted k"
    and bs: "bs = take (unat count) (concat (drop (length ds - 10) (map snd ds)))"
  shows "\<exists>fp. aesd_read k s' buf count 0 =
           Some (Inr (of_nat (length bs)), fp, s'\<lparr>user := write_user (user s') buf bs\<rparr>)"
  using lines_written [OF m ds run ok] read_ok [OF _ k(2,3), of s' bs count 0 buf] k(1) bs
  by (auto simp: kernel_ok_def)

abbreviation demo_line :: "char list" where
  "demo_line \<equiv> ''hi'' @ [newline]"

lemma demo_line_run:
  "\<exists>m' s'. aesd_init_module demo_env unloaded = Some (0, m') \<and>
     run_calls aesd_fops (write_calls 0 (\<lambda>_. CHR 0x00) [(demo_kernel, demo_line)]) (msys m') (\<lambda>_. 0) =
       Some ([Inr 0, Inr 3], s', (\<lambda>_. 0)(0 := 3))"
proof -
  obtain m' where m': "aesd_init_module demo_env unloaded = Some (0, m')" and h: "heap (msys m') = Map.empty"
    by (simp add: init_eq demo_env_def unloaded_def)
  have f: "device (msys m') = fresh_device" by (rule init_ok(1) [OF m'])
  define s where "s = (msys m')\<lparr>user := write_user (\<lambda>_. CHR 0x00) 0 demo_line\<rparr>"
  have s: "dev_wf s" "\<not> lock (device s)" using fresh_ok [of s] f by (simp_all add: s_def)
  have "write_result demo_kernel s 0 3 = Inr 3"
    using f h by (simp add: write_result_def demo_kernel_def s_def fresh_device_def aesd_write_alloc_def
        pool_malloc_def upt_rec)
  then obtain s' where "aesd_write demo_kernel s 0 3 0 = Some (Inr 3, 3, s')"
    using write_ok [OF demo_kernel_ok s(1) _ _ s(2), of 3 0 0] by auto
  then show ?thesis using m' by (auto simp: write_calls_def s_def)
qed

lemma demo_line_valid: "\<forall>w \<in> set [(demo_kernel, demo_line)]. valid_write w \<and> last (snd w) = newline"
  using demo_kernel_ok by (simp add: valid_write_def)

theorem driver_keeps_last_ten_lines_witness:
  "\<exists>m' rs s' files' fp. aesd_init_module demo_env unloaded = Some (0, m') \<and>
     run_calls aesd_fops (write_calls 0 (\<lambda>_. CHR 0x00) [(demo_kernel, demo_line)]) (msys m') (\<lambda>_. 0) =
       Some (rs, s', files') \<and> list_all (\<lambda>r. \<not> isl r) (write_results rs) \<and>
     aesd_read demo_kernel s' 64 100 0 =
       Some (Inr 3, fp, s'\<lparr>user := write_user (user s') 64 demo_line\<rparr>)"
proof -
  obtain m' s' where m': "aesd_init_module demo_env unloaded = Some (0, m')"
    and run: "run_calls aesd_fops (write_calls 0 (\<lambda>_. CHR 0x00) [(demo_kernel, demo_line)]) (msys m') (\<lambda>_. 0) =
      Some ([Inr 0, Inr 3], s', (\<lambda>_. 0)(0 := 3))" using demo_line_run by blast
  show ?thesis
    using driver_keeps_last_ten_lines [OF m' demo_line_valid run _ demo_kernel_ok demo_never_fails(1,2) refl,
        where buf = 64 and count = 100] m' run
    by auto
qed

text \<open>
  C22. Seeking after any history of whole lines: after a successful load and any number of successful writes of 1 to
  $2^{31}$ bytes that each end with a newline, an absolute seek is accepted exactly up to the total length of the
  first ten lines and rejected with \<open>EINVAL\<close> beyond it, without a change of the position, and a seek to the end
  goes to this length; a read from an offset, however, delivers the bytes of the last ten lines from there. So the
  two agree while at most ten lines have been written, and later only if the totals happen to be equal. The copies of
  the read succeed, the locks are not interrupted, and \<open>fixed_size_llseek\<close>, which belongs to the kernel, compares
  signed values (only its answers for sizes that are not negative are used).
\<close>

theorem aesd_llseek_after_writes:
  assumes m: "aesd_init_module env m = Some (0, m')"
    and ds: "\<forall>w \<in> set ds. valid_write w \<and> last (snd w) = newline"
    and run: "run_calls aesd_fops (write_calls fd u ds) (msys m') files = Some (rs, s', files')"
    and ok: "list_all (\<lambda>r. \<not> isl r) (write_results rs)"
    and k: "kernel_ok k" "copy_never_fails k" "\<not> mutex_interrupted k" "llseek_ok k"
    and bound: "bound = length (concat (take 10 (map snd ds)))"
    and stored: "stored = concat (drop (length ds - 10) (map snd ds))"
  shows "aesd_llseek k s' f_pos off 0 =
      Some (if unat off \<le> bound then (Inr off, off, s') else (Inl EINVAL, f_pos, s')) \<and>
    aesd_llseek k s' f_pos 0 2 = Some (Inr (of_nat bound), of_nat bound, s') \<and>
    (\<exists>fp. aesd_read k s' buf count off =
       Some (Inr (of_nat (length (take (unat count) (drop (unat off) stored)))), fp,
             s'\<lparr>user := write_user (user s') buf (take (unat count) (drop (unat off) stored))\<rparr>))"
proof -
  note l = lines_written [OF m ds run ok]
  have "length (concat (take 10 (map snd ds))) \<le> 10 * 2 ^ 31"
    using ds by (intro ten_lines_le) (auto simp: valid_write_def)
  then have "unat (dev_size (device s')) < 2 ^ 63" using l(4) by simp
  note seek = llseek_within [OF k(4,3) l(2) this, of f_pos]
  have "dev_size (device s') = of_nat bound" using l(4) bound size_eq_of_nat by blast
  then have "aesd_llseek k s' f_pos 0 2 = Some (Inr (of_nat bound), of_nat bound, s')" using seek(2) by simp
  moreover have "aesd_llseek k s' f_pos off 0 =
      Some (if unat off \<le> bound then (Inr off, off, s') else (Inl EINVAL, f_pos, s'))" using seek(1) l(4) bound by simp
  moreover note read_ok [OF _ k(2,3) l(1,2) refl, of buf count off]
  ultimately show ?thesis using k(1) stored l(3) by (auto simp: kernel_ok_def)
qed

theorem aesd_llseek_after_writes_witness:
  "\<exists>m' rs s' files'. aesd_init_module demo_env unloaded = Some (0, m') \<and>
     run_calls aesd_fops (write_calls 0 (\<lambda>_. CHR 0x00) [(demo_kernel, demo_line)]) (msys m') (\<lambda>_. 0) =
       Some (rs, s', files') \<and>
     aesd_llseek demo_kernel s' 0 2 0 = Some (Inr 2, 2, s') \<and> aesd_llseek demo_kernel s' 0 4 0 = Some (Inl EINVAL, 0, s') \<and>
     aesd_llseek demo_kernel s' 0 0 2 = Some (Inr 3, 3, s') \<and>
     (\<exists>fp. aesd_read demo_kernel s' 64 9 2 = Some (Inr 1, fp, s'\<lparr>user := write_user (user s') 64 [newline]\<rparr>))"
proof -
  obtain m' s' where m': "aesd_init_module demo_env unloaded = Some (0, m')"
    and run: "run_calls aesd_fops (write_calls 0 (\<lambda>_. CHR 0x00) [(demo_kernel, demo_line)]) (msys m') (\<lambda>_. 0) =
      Some ([Inr 0, Inr 3], s', (\<lambda>_. 0)(0 := 3))" using demo_line_run by blast
  note seek = aesd_llseek_after_writes [OF m' demo_line_valid run _ demo_kernel_ok demo_never_fails(1,2)
      demo_llseek_ok refl refl, where f_pos = 0 and buf = 64 and count = 9]
  show ?thesis using seek [of 2] seek [of 4] m' run by auto
qed

end
