(* ===== verification/Connector.thy ===== *)
theory Connector
  imports Driver_Session
begin

text \<open>
  The connection thread of \<open>server/aesdsocket.c\<close>: receiving a message, recognising a seek command in it,
  writing it to the data file or seeking, and sending the file back. The C library calls on the data file
  are the fields of a \<open>stdio\<close> record; the locale \<open>data_file\<close> states what the thread relies on. It is
  interpreted on a plain file (\<open>USE_AESD_CHAR_DEVICE\<close> 0) and, in \<open>Server_Device\<close>, on the driver.
\<close>

section \<open>C strings\<close>

definition NUL :: char where
  "NUL = CHR 0x00"

text \<open>The string a pointer to the bytes \<open>bs\<close> denotes, without the terminator.\<close>

definition cstring :: "char list \<Rightarrow> char list" where
  "cstring bs = takeWhile (\<lambda>c. c \<noteq> NUL) bs"

text \<open>\<open>strstr\<close>, \<open>strchr\<close> and \<open>memchr\<close> return a pointer into their argument, here the rest of it.\<close>

fun strstr :: "char list \<Rightarrow> char list \<Rightarrow> char list option" where
  "strstr [] needle = (if needle = [] then Some [] else None)"
| "strstr (c # cs) needle =
     (if take (length needle) (c # cs) = needle then Some (c # cs) else strstr cs needle)"

fun strchr :: "char list \<Rightarrow> char \<Rightarrow> char list option" where
  "strchr [] x = None"
| "strchr (c # cs) x = (if c = x then Some (c # cs) else strchr cs x)"

fun memchr :: "char list \<Rightarrow> char \<Rightarrow> nat option" where
  "memchr [] x = None"
| "memchr (c # cs) x = (if c = x then Some 0 else map_option Suc (memchr cs x))"

definition isspace :: "char \<Rightarrow> bool" where
  "isspace c \<longleftrightarrow> c = CHR '' '' \<or> (9 \<le> (of_char c :: nat) \<and> (of_char c :: nat) \<le> 13)"

definition isdigit :: "char \<Rightarrow> bool" where
  "isdigit c \<longleftrightarrow> 48 \<le> (of_char c :: nat) \<and> (of_char c :: nat) \<le> 57"

definition digit_val :: "char \<Rightarrow> int" where
  "digit_val c = of_char c - 48"

definition decimal_val :: "char list \<Rightarrow> int" where
  "decimal_val ds = foldl (\<lambda>v c. 10 * v + digit_val c) 0 ds"

text \<open>\<open>atoi\<close> on a value that an \<open>int\<close> cannot represent has no defined result.\<close>

definition atoi :: "char list \<Rightarrow> int option" where
  "atoi str =
     (let s = dropWhile isspace str;
          neg = (s \<noteq> [] \<and> hd s = CHR ''-'');
          s = (if s \<noteq> [] \<and> (hd s = CHR ''-'' \<or> hd s = CHR ''+'') then tl s else s);
          m = decimal_val (takeWhile isdigit s);
          v = (if neg then - m else m)
      in if - (2 ^ 31) \<le> v \<and> v < 2 ^ 31 then Some v else None)"

section \<open>The data file\<close>

text \<open>
  The calls on a stream \<open>'f\<close>. What they return is used only where the code uses it: the bytes of \<open>fread\<close>,
  and whether \<open>ioctl\<close> succeeded.
\<close>

record 'f stdio =
  fwrite :: "char list \<Rightarrow> 'f \<Rightarrow> 'f option"
  fflush :: "'f \<Rightarrow> 'f option"
  rewind :: "'f \<Rightarrow> 'f option"
  fread :: "nat \<Rightarrow> 'f \<Rightarrow> (char list \<times> 'f) option"
  ioctl_seekto :: "aesd_seekto \<Rightarrow> 'f \<Rightarrow> (bool \<times> 'f) option"

section \<open>Receiving a message\<close>

definition BUFFER_SIZE :: nat where
  "BUFFER_SIZE = 1024"

text \<open>\<open>message_buf\<close>: \<open>NULL\<close>, a block with its contents, or a pointer to a block that has been freed.\<close>

datatype message_buf = Null | Block "char list" | Freed

text \<open>
  The receive loop. \<open>chunks\<close> are the results of \<open>recv\<close>: the bytes of each call, where an empty chunk or the
  end of the list stands for a return value of zero or below. \<open>realloc n\<close> tells whether a block of \<open>n\<close>
  bytes can be had. The result is \<open>message_buf\<close> and \<open>total_len\<close> when the loop is left.
\<close>

fun recv_loop :: "(nat \<Rightarrow> bool) \<Rightarrow> char list list \<Rightarrow> message_buf \<Rightarrow> nat \<Rightarrow> message_buf \<times> nat" where
  "recv_loop realloc [] message_buf total_len = (message_buf, total_len)"
| "recv_loop realloc (recv_buf # chunks) message_buf total_len =
     (if recv_buf = [] then (message_buf, total_len)
      else
        let newline_ptr = memchr recv_buf newline;
            chunk_len = (case newline_ptr of None \<Rightarrow> length recv_buf | Some i \<Rightarrow> i + 1)
        in if \<not> realloc (total_len + chunk_len + 1) then
             (case message_buf of Null \<Rightarrow> Null | _ \<Rightarrow> Freed, total_len)
           else
             let old = (case message_buf of Block bs \<Rightarrow> bs | _ \<Rightarrow> []);
                 message_buf = Block (take total_len old @ take chunk_len recv_buf @ [NUL]);
                 total_len = total_len + chunk_len
             in if newline_ptr \<noteq> None then (message_buf, total_len)
                else recv_loop realloc chunks message_buf total_len)"

section \<open>Acting on the message\<close>

definition ioctlString :: "char list" where
  "ioctlString = ''AESDCHAR_IOCSEEKTO:''"

text \<open>
  The two numbers of a seek command. \<open>separator + 1\<close> is not a valid string when \<open>strchr\<close> finds no comma.
\<close>

definition parse_seekto :: "char list \<Rightarrow> aesd_seekto option" where
  "parse_seekto ioctlCase = do {
     x \<leftarrow> atoi (drop (length ioctlString) ioctlCase);
     separator \<leftarrow> strchr ioctlCase (CHR '','');
     y \<leftarrow> atoi (tl separator);
     Some \<lparr>write_cmd = of_int x, write_cmd_offset = of_int y\<rparr>
   }"

text \<open>The loop that sends the file: every \<open>fread\<close> that yields bytes is followed by a \<open>send\<close> of them.\<close>

partial_function (option) send_loop :: "'f stdio \<Rightarrow> 'f \<Rightarrow> char list list \<Rightarrow> (char list list \<times> 'f) option" where
  "send_loop io f sent = do {
     (file_buf, f) \<leftarrow> fread io BUFFER_SIZE f;
     if file_buf \<noteq> [] then send_loop io f (sent @ [file_buf]) else Some (sent, f)
   }"

text \<open>The part under \<open>file_mutex\<close>, for a message of \<open>total_len\<close> bytes in \<open>block\<close>.\<close>

definition critical_section :: "'f stdio \<Rightarrow> char list \<Rightarrow> nat \<Rightarrow> 'f \<Rightarrow> (char list list \<times> 'f) option" where
  "critical_section io block total_len f =
     (case strstr (cstring block) ioctlString of
        Some ioctlCase \<Rightarrow> do {
          seekto \<leftarrow> parse_seekto ioctlCase;
          (ok, f) \<leftarrow> ioctl_seekto io seekto f;
          send_loop io f []
        }
      | None \<Rightarrow> do {
          f \<leftarrow> fwrite io (take total_len block) f;
          f \<leftarrow> fflush io f;
          f \<leftarrow> rewind io f;
          send_loop io f []
        })"

record thread_arg_t =
  client_sock :: int
  finished :: bool

text \<open>
  How the thread ends: the data file could not be opened, and the thread runs \<open>cleanup\<close> and ends the process
  (\<open>Inl\<close>; what \<open>cleanup\<close> does is in \<open>Server_Main\<close>), or the thread returns. Then
  \<open>sent\<close> are the blocks sent to the client and \<open>sock_open\<close> tells whether the connection is still open.
\<close>

record 'f conn_end =
  sent :: "char list list"
  data :: 'f
  arg :: thread_arg_t
  file_mutex :: bool
  sock_open :: bool

definition connector ::
  "'f stdio \<Rightarrow> 'f option \<Rightarrow> (nat \<Rightarrow> bool) \<Rightarrow> char list list \<Rightarrow> bool \<Rightarrow> thread_arg_t
     \<Rightarrow> (unit + 'f conn_end) option" where
  "connector io fopen realloc chunks mutex thread_arg =
     (case fopen of
        None \<Rightarrow> Some (Inl ())
      | Some f \<Rightarrow> do {
          let (message_buf, total_len) = recv_loop realloc chunks Null 0;
          (out, f, mutex) \<leftarrow>
            (if message_buf \<noteq> Null \<and> total_len > 0 then do {
               block \<leftarrow> (case message_buf of Block bs \<Rightarrow> Some bs | _ \<Rightarrow> None);
               ensure (\<not> mutex);
               (out, f) \<leftarrow> critical_section io block total_len f;
               Some (out, f, False)
             }
             else Some ([], f, mutex));
          Some (Inr \<lparr>sent = out, data = f, arg = thread_arg\<lparr>finished := True\<rparr>, file_mutex = mutex,
                     sock_open = False\<rparr>)
        })"

section \<open>The received message\<close>

text \<open>The bytes up to and including the first newline.\<close>

definition first_line :: "char list \<Rightarrow> char list" where
  "first_line bs = (case memchr bs newline of None \<Rightarrow> bs | Some i \<Rightarrow> take (Suc i) bs)"

definition received :: "char list list \<Rightarrow> char list" where
  "received chunks = concat (takeWhile (\<lambda>c. c \<noteq> []) chunks)"

lemma memchr_append:
  "memchr (xs @ ys) x =
     (case memchr xs x of Some i \<Rightarrow> Some i | None \<Rightarrow> map_option (\<lambda>i. length xs + i) (memchr ys x))"
  by (induction xs) (cases "memchr ys x"; auto split: option.split)+

lemma memchr_None: "memchr xs x = None \<longleftrightarrow> x \<notin> set xs"
  by (induction xs) auto

lemma memchr_absent [simp]: "x \<notin> set xs \<Longrightarrow> memchr xs x = None"
  by (simp add: memchr_None)

lemma memchr_Some_less: "memchr xs x = Some i \<Longrightarrow> i < length xs \<and> xs ! i = x"
  by (induction xs arbitrary: i) (auto split: if_splits)

lemma first_line_append: "newline \<notin> set xs \<Longrightarrow> first_line (xs @ ys) = xs @ first_line ys"
  by (simp add: first_line_def memchr_append split: option.split)

lemma first_line_stops: "newline \<in> set xs \<Longrightarrow> first_line (xs @ ys) = first_line xs"
  using memchr_None [of xs newline] memchr_Some_less [of xs newline]
  by (cases "memchr xs newline") (auto simp: first_line_def memchr_append)

lemma first_line_no_newline: "newline \<notin> set xs \<Longrightarrow> first_line xs = xs"
  by (simp add: first_line_def)

text \<open>\<open>chunk_len\<close> of the code for the received bytes \<open>c\<close>.\<close>

abbreviation line_len :: "char list \<Rightarrow> nat" where
  "line_len c \<equiv> (case memchr c newline of None \<Rightarrow> length c | Some i \<Rightarrow> i + 1)"

lemma line_len_le: "line_len c \<le> length (first_line (c @ r))"
  using memchr_Some_less [of c newline]
  by (cases "memchr c newline")
    (simp_all add: first_line_append memchr_None, simp add: first_line_def memchr_append)

lemma recv_loop_Block:
  assumes "\<And>n. n \<le> Suc (length (first_line (m @ received chunks))) \<Longrightarrow> realloc n" and "newline \<notin> set m"
  shows "recv_loop realloc chunks (Block (m @ [NUL])) (length m) =
    (Block (first_line (m @ received chunks) @ [NUL]), length (first_line (m @ received chunks)))"
  using assms
proof (induction chunks arbitrary: m)
  case Nil
  then show ?case by (simp add: received_def first_line_no_newline)
next
  case (Cons c cs)
  show ?case
  proof (cases "c = []")
    case True
    then show ?thesis using Cons.prems by (simp add: received_def first_line_no_newline)
  next
    case c: False
    then have rec: "received (c # cs) = c @ received cs" by (simp add: received_def)
    show ?thesis
    proof (cases "memchr c newline")
      case None
      then have nl: "newline \<notin> set (m @ c)" using Cons.prems(2) by (simp add: memchr_None)
      have "length (m @ c) \<le> length (first_line (m @ received (c # cs)))"
        using first_line_append [OF nl, of "received cs"] by (simp add: rec)
      then have "realloc (Suc (length m + length c))" using Cons.prems(1) by simp
      moreover have "recv_loop realloc cs (Block ((m @ c) @ [NUL])) (length (m @ c)) =
          (Block (first_line (m @ received (c # cs)) @ [NUL]), length (first_line (m @ received (c # cs))))"
        using Cons.IH [OF _ nl] Cons.prems(1) by (simp add: rec)
      ultimately show ?thesis using None c by simp
    next
      case (Some i)
      have line: "first_line (m @ received (c # cs)) = m @ take (Suc i) c"
        using Cons.prems(2) Some memchr_Some_less [OF Some]
        by (simp add: rec first_line_append first_line_def memchr_append)
      have "realloc (Suc (length m + Suc i))"
        using Cons.prems(1) memchr_Some_less [OF Some] by (simp add: line)
      then show ?thesis using Some c memchr_Some_less [OF Some] by (simp add: line min_def)
    qed
  qed
qed

lemma recv_loop_message:
  assumes "\<And>n. n \<le> Suc (length (first_line (received chunks))) \<Longrightarrow> realloc n"
  shows "recv_loop realloc chunks Null 0 =
    (if received chunks = [] then (Null, 0)
     else (Block (first_line (received chunks) @ [NUL]), length (first_line (received chunks))))"
proof (cases "received chunks = []")
  case True
  show ?thesis
  proof (cases chunks)
    case (Cons c cs)
    then have "c = []" using True by (cases "c = []") (simp_all add: received_def)
    then show ?thesis using Cons True by simp
  qed (simp add: received_def)
next
  case False
  then obtain c cs where chunks: "chunks = c # cs" by (cases chunks) (simp_all add: received_def)
  then have c: "chunks = c # cs" "c \<noteq> []" using False by (auto simp: received_def)
  then have "Suc (line_len c) \<le> Suc (length (first_line (received chunks)))"
    using line_len_le by (simp add: received_def)
  then have "realloc (Suc (line_len c))" by (rule assms)
  then have "recv_loop realloc chunks Null 0 = recv_loop realloc chunks (Block ([] @ [NUL])) (length ([] :: char list))"
    using c by simp
  then show ?thesis using recv_loop_Block [of "[]" chunks realloc] assms False by simp
qed

section \<open>Seek commands\<close>

definition digit_char :: "nat \<Rightarrow> char" where
  "digit_char d = char_of (48 + d)"

fun show_nat :: "nat \<Rightarrow> char list" where
  "show_nat n = (if n < 10 then [digit_char n] else show_nat (n div 10) @ [digit_char (n mod 10)])"

declare show_nat.simps [simp del]

lemma of_char_digit: "d < 10 \<Longrightarrow> (of_char (digit_char d) :: nat) = 48 + d"
  by (simp add: digit_char_def)

lemma digit_char_isdigit [simp]: "d < 10 \<Longrightarrow> isdigit (digit_char d)"
  by (simp add: isdigit_def of_char_digit)

lemma digit_val_char [simp]: "d < 10 \<Longrightarrow> digit_val (digit_char d) = int d"
  using of_char_digit [of d] by (simp add: digit_val_def) (metis of_char_of of_nat_of_char
      add_diff_cancel_left' of_nat_add of_nat_numeral)

lemma show_nat_digits: "\<forall>c \<in> set (show_nat n). isdigit c"
proof (induction n rule: show_nat.induct)
  case (1 n)
  then show ?case by (subst show_nat.simps) auto
qed

lemma show_nat_nonempty [simp]: "show_nat n \<noteq> []"
  by (subst show_nat.simps) simp

lemma decimal_val_snoc [simp]: "decimal_val (xs @ [c]) = 10 * decimal_val xs + digit_val c"
  by (simp add: decimal_val_def)

lemma decimal_val_show: "decimal_val (show_nat n) = int n"
proof (induction n rule: show_nat.induct)
  case (1 n)
  show ?case
  proof (cases "n < 10")
    case True
    then show ?thesis by (subst show_nat.simps) (simp add: decimal_val_def)
  next
    case False
    then have "decimal_val (show_nat n) = 10 * int (n div 10) + int (n mod 10)"
      using 1 by (subst show_nat.simps) simp
    then show ?thesis by (metis mult_div_mod_eq of_nat_add of_nat_mult of_nat_numeral)
  qed
qed

lemma isdigit_simps [simp]:
  "\<not> isdigit (CHR '','')" "\<not> isdigit newline" "\<not> isdigit (CHR ''-'')" "\<not> isdigit (CHR ''+'')"
  "isdigit c \<Longrightarrow> \<not> isspace c" "\<not> isdigit NUL"
  by (auto simp: isdigit_def isspace_def NUL_def)

lemma takeWhile_digits:
  assumes "\<forall>c \<in> set ds. isdigit c" and "rest = [] \<or> \<not> isdigit (hd rest)"
  shows "takeWhile isdigit (ds @ rest) = ds"
  using assms by (cases rest) (auto simp: takeWhile_append)

lemma atoi_show:
  assumes "n < 2 ^ 31" and "rest = [] \<or> \<not> isdigit (hd rest)"
  shows "atoi (show_nat n @ rest) = Some (int n)"
proof -
  have d: "isdigit (hd (show_nat n))" using show_nat_digits [of n] by simp
  then have "dropWhile isspace (show_nat n @ rest) = show_nat n @ rest"
    by (cases "show_nat n") auto
  moreover have "hd (show_nat n @ rest) \<noteq> CHR ''-''" "hd (show_nat n @ rest) \<noteq> CHR ''+''"
    using d by (cases "show_nat n"; auto)+
  ultimately show ?thesis
    using takeWhile_digits [OF show_nat_digits assms(2)] assms(1)
    by (simp add: atoi_def Let_def decimal_val_show)
qed

lemma strchr_append: "x \<notin> set xs \<Longrightarrow> strchr (xs @ ys) x = strchr ys x"
  by (induction xs) auto

lemma strchr_None: "strchr xs x = None \<longleftrightarrow> x \<notin> set xs"
  by (induction xs) auto

lemma strstr_prefix: "strstr (needle @ rest) needle = Some (needle @ rest)"
  by (cases needle; cases rest) auto

lemma parse_seekto_show:
  assumes "x < 2 ^ 31" and "y < 2 ^ 31" and "rest = [] \<or> \<not> isdigit (hd rest)"
  shows "parse_seekto (ioctlString @ show_nat x @ '','' @ show_nat y @ rest) =
           Some \<lparr>write_cmd = of_nat x, write_cmd_offset = of_nat y\<rparr>"
proof -
  have "CHR '','' \<notin> set (ioctlString @ show_nat x)"
    using show_nat_digits [of x] by (auto simp: ioctlString_def)
  then have sep: "strchr (ioctlString @ show_nat x @ '','' @ show_nat y @ rest) (CHR '','') = Some ('','' @ show_nat y @ rest)"
    using strchr_append [of "CHR '',''" "ioctlString @ show_nat x"] by simp
  show ?thesis
    using atoi_show [OF assms(1), of "'','' @ show_nat y @ rest"] atoi_show [OF assms(2,3)] sep
    by (simp add: parse_seekto_def)
qed

lemma cstring_seekto:
  "cstring ((ioctlString @ show_nat x @ '','' @ show_nat y @ [newline]) @ [NUL]) =
     ioctlString @ show_nat x @ '','' @ show_nat y @ [newline]"
proof -
  have "\<forall>c \<in> set (ioctlString @ show_nat x @ '','' @ show_nat y @ [newline]). c \<noteq> NUL"
    using show_nat_digits [of x] show_nat_digits [of y]
    by (auto simp: ioctlString_def NUL_def dest: isdigit_simps(6) [unfolded NUL_def, THEN notE])
  then show ?thesis unfolding cstring_def by (subst takeWhile_append2) auto
qed

section \<open>A sequence of connections\<close>

text \<open>
  Connections whose critical sections are run one after the other, as \<open>file_mutex\<close> orders them. Every thread
  opens the file anew. The result are the bytes sent to each client and the file at the end.
\<close>

fun serve ::
  "'f stdio \<Rightarrow> ('f \<Rightarrow> 'f) \<Rightarrow> (nat \<Rightarrow> bool) \<Rightarrow> (int \<times> char list list) list \<Rightarrow> 'f
     \<Rightarrow> (char list list \<times> 'f) option" where
  "serve io reopen realloc [] f = Some ([], f)"
| "serve io reopen realloc ((sock, chunks) # cs) f = do {
     r \<leftarrow> connector io (Some (reopen f)) realloc chunks False \<lparr>client_sock = sock, finished = False\<rparr>;
     (case r of
        Inl _ \<Rightarrow> None
      | Inr e \<Rightarrow> do {
          (rs, f) \<leftarrow> serve io reopen realloc cs (data e);
          Some (concat (sent e) # rs, f)
        })
   }"

text \<open>A connection that sends a line, or the rest of a line before it closes, and no seek command.\<close>

definition plain_message :: "char list list \<Rightarrow> bool" where
  "plain_message chunks \<longleftrightarrow>
     received chunks \<noteq> [] \<and> strstr (cstring (first_line (received chunks) @ [NUL])) ioctlString = None"

fun fits_all :: "('a \<Rightarrow> char list \<Rightarrow> 'a) \<Rightarrow> ('a \<Rightarrow> char list \<Rightarrow> bool) \<Rightarrow> 'a \<Rightarrow> char list list \<Rightarrow> bool" where
  "fits_all deliver fits c [] \<longleftrightarrow> True"
| "fits_all deliver fits c (m # ms) \<longleftrightarrow> fits c m \<and> fits_all deliver fits (deliver c m) ms"

text \<open>The successive contents after each of the messages.\<close>

fun contents_after :: "('a \<Rightarrow> char list \<Rightarrow> 'a) \<Rightarrow> 'a \<Rightarrow> char list list \<Rightarrow> 'a list" where
  "contents_after deliver c [] = []"
| "contents_after deliver c (m # ms) = deliver c m # contents_after deliver (deliver c m) ms"

lemma first_line_nonempty: "bs \<noteq> [] \<Longrightarrow> first_line bs \<noteq> []"
  by (auto simp: first_line_def split: option.split)

section \<open>The contract of the data file\<close>

text \<open>
  \<open>content\<close> is the abstract content of the file, \<open>text_of\<close> the bytes that reading it from the start yields,
  \<open>deliver\<close> the effect of a flushed write, \<open>seek\<close> the position of a seek command and \<open>pos\<close> the read
  position of the stream. \<open>fits\<close> restricts the writes the contract covers.
\<close>

locale data_file =
  fixes io :: "'f stdio"
    and ok :: "'f \<Rightarrow> bool"
    and content :: "'f \<Rightarrow> 'a"
    and text_of :: "'a \<Rightarrow> char list"
    and deliver :: "'a \<Rightarrow> char list \<Rightarrow> 'a"
    and seek :: "'a \<Rightarrow> nat \<Rightarrow> nat \<Rightarrow> nat option"
    and pos :: "'f \<Rightarrow> nat"
    and fresh :: "'f \<Rightarrow> bool"
    and fits :: "'a \<Rightarrow> char list \<Rightarrow> bool"
    and reopen :: "'f \<Rightarrow> 'f"
  assumes law_reopen: "ok f \<Longrightarrow> ok (reopen f) \<and> content (reopen f) = content f \<and> fresh (reopen f)"
    and law_write: "ok f \<Longrightarrow> fresh f \<Longrightarrow> bs \<noteq> [] \<Longrightarrow> fits (content f) bs \<Longrightarrow>
      \<exists>f1 f2 f3. fwrite io bs f = Some f1 \<and> fflush io f1 = Some f2 \<and> rewind io f2 = Some f3 \<and>
        ok f3 \<and> content f3 = deliver (content f) bs \<and> pos f3 = 0"
    and law_read: "ok f \<Longrightarrow> 0 < n \<Longrightarrow>
      \<exists>bs f'. fread io n f = Some (bs, f') \<and> bs = take n (drop (pos f) (text_of (content f))) \<and>
        ok f' \<and> content f' = content f \<and> pos f' = pos f + length bs"
    and law_ioctl: "ok f \<Longrightarrow> fresh f \<Longrightarrow>
      \<exists>b f'. ioctl_seekto io st f = Some (b, f') \<and> ok f' \<and> content f' = content f \<and>
        pos f' = (case seek (content f) (unat (write_cmd st)) (unat (write_cmd_offset st)) of
                    Some p \<Rightarrow> p | None \<Rightarrow> 0)"
begin

lemma send_loop_ok:
  "ok f \<Longrightarrow> \<exists>out f'. send_loop io f acc = Some (acc @ out, f') \<and>
     concat out = drop (pos f) (text_of (content f)) \<and>
     (\<forall>c \<in> set out. c \<noteq> [] \<and> length c \<le> BUFFER_SIZE) \<and> ok f' \<and> content f' = content f"
proof (induction "length (text_of (content f)) - pos f" arbitrary: f acc rule: less_induct)
  case less
  let ?t = "drop (pos f) (text_of (content f))"
  have "0 < BUFFER_SIZE" by (simp add: BUFFER_SIZE_def)
  then obtain bs f1 where r: "fread io BUFFER_SIZE f = Some (bs, f1)"
    and bs: "bs = take BUFFER_SIZE ?t" and f1: "ok f1" "content f1 = content f" "pos f1 = pos f + length bs"
    using law_read [OF less.prems] by blast
  show ?case
  proof (cases "bs = []")
    case True
    moreover from this bs have "?t = []" by (auto simp: BUFFER_SIZE_def)
    ultimately show ?thesis using r f1 by (subst send_loop.simps) simp
  next
    case False
    then have lt: "length (text_of (content f1)) - pos f1 < length (text_of (content f)) - pos f"
      using bs f1 by (auto simp: min_def split: if_splits)
    obtain out f' where out: "send_loop io f1 (acc @ [bs]) = Some ((acc @ [bs]) @ out, f')"
        "concat out = drop (pos f1) (text_of (content f))"
        "\<forall>c \<in> set out. c \<noteq> [] \<and> length c \<le> BUFFER_SIZE" "ok f'" "content f' = content f"
      using less.hyps [OF lt f1(1), of "acc @ [bs]"] f1(2) by auto
    have "concat (bs # out) = ?t"
      using out(2) bs f1(3) append_take_drop_id [of BUFFER_SIZE ?t] False
      by (cases "BUFFER_SIZE \<le> length ?t") (auto simp: add.commute)
    moreover have "length bs \<le> BUFFER_SIZE" using bs by simp
    ultimately show ?thesis
      using out False r by (intro exI [of _ "bs # out"] exI [of _ f']) (subst send_loop.simps, simp)
  qed
qed

text \<open>A message without a seek command is stored and the whole file is sent.\<close>

lemma write_message:
  assumes "ok f" and "fresh f" and "fits (content f) (take n block)" and "take n block \<noteq> []"
    and "strstr (cstring block) ioctlString = None"
  shows "\<exists>out f'. critical_section io block n f = Some (out, f') \<and>
      concat out = text_of (deliver (content f) (take n block)) \<and>
      (\<forall>c \<in> set out. c \<noteq> [] \<and> length c \<le> BUFFER_SIZE) \<and>
      ok f' \<and> content f' = deliver (content f) (take n block)"
proof -
  obtain f1 f2 f3 where f: "fwrite io (take n block) f = Some f1" "fflush io f1 = Some f2" "rewind io f2 = Some f3"
      "ok f3" "content f3 = deliver (content f) (take n block)" "pos f3 = 0"
    using law_write [OF assms(1,2,4,3)] by blast
  then show ?thesis using send_loop_ok [OF f(4), of "[]"] by (simp add: critical_section_def assms(5))
qed

text \<open>A seek command leaves the file as it is and sends it from the position of the seek.\<close>

lemma seek_message:
  assumes "ok f" and "fresh f" and "strstr (cstring block) ioctlString = Some c" and "parse_seekto c = Some st"
  shows "\<exists>out f'. critical_section io block n f = Some (out, f') \<and>
      concat out = drop (case seek (content f) (unat (write_cmd st)) (unat (write_cmd_offset st)) of
                           Some p \<Rightarrow> p | None \<Rightarrow> 0) (text_of (content f)) \<and>
      ok f' \<and> content f' = content f"
proof -
  obtain b f1 where f1: "ioctl_seekto io st f = Some (b, f1)" "ok f1" "content f1 = content f"
      "pos f1 = (case seek (content f) (unat (write_cmd st)) (unat (write_cmd_offset st)) of
                   Some p \<Rightarrow> p | None \<Rightarrow> 0)"
    using law_ioctl [OF assms(1,2)] by blast
  then show ?thesis
    using send_loop_ok [OF f1(2), of "[]"] assms by (auto simp: critical_section_def)
qed

lemma connector_writes:
  assumes "ok f" and "fresh f" and "plain_message chunks" and "\<forall>n. realloc n"
    and "m = first_line (received chunks)" and "fits (content f) m"
  shows "\<exists>e. connector io (Some f) realloc chunks False a = Some (Inr e) \<and>
      concat (sent e) = text_of (deliver (content f) m) \<and>
      (\<forall>c \<in> set (sent e). c \<noteq> [] \<and> length c \<le> BUFFER_SIZE) \<and>
      ok (data e) \<and> content (data e) = deliver (content f) m \<and>
      finished (arg e) \<and> \<not> file_mutex e \<and> \<not> sock_open e"
proof -
  have m: "m \<noteq> []" "received chunks \<noteq> []" "strstr (cstring (m @ [NUL])) ioctlString = None"
    using assms(3,5) first_line_nonempty by (auto simp: plain_message_def)
  have "recv_loop realloc chunks Null 0 = (Block (m @ [NUL]), length m)"
    using recv_loop_message [of chunks realloc] assms(4,5) m(2) by simp
  then show ?thesis
    using write_message [OF assms(1,2), of "length m" "m @ [NUL]"] assms(6) m by (auto simp: connector_def)
qed

lemma connector_seeks:
  assumes "ok f" and "fresh f" and "received chunks \<noteq> []" and "\<forall>n. realloc n"
    and "strstr (cstring (first_line (received chunks) @ [NUL])) ioctlString = Some c" and "parse_seekto c = Some st"
  shows "\<exists>e. connector io (Some f) realloc chunks False a = Some (Inr e) \<and>
      concat (sent e) = drop (case seek (content f) (unat (write_cmd st)) (unat (write_cmd_offset st)) of
                                Some p \<Rightarrow> p | None \<Rightarrow> 0) (text_of (content f)) \<and>
      content (data e) = content f \<and> ok (data e) \<and> finished (arg e) \<and> \<not> file_mutex e \<and> \<not> sock_open e"
proof -
  let ?m = "first_line (received chunks)"
  have "recv_loop realloc chunks Null 0 = (Block (?m @ [NUL]), length ?m)"
    using recv_loop_message [of chunks realloc] assms(3,4) by simp
  then show ?thesis
    using seek_message [OF assms(1,2,5,6), of "length ?m"] first_line_nonempty [OF assms(3)]
    by (auto simp: connector_def)
qed

lemma serve_ok:
  assumes "ok f" and "\<forall>c \<in> set cs. plain_message (snd c)" and "\<forall>n. realloc n"
    and "fits_all deliver fits (content f) (map (\<lambda>c. first_line (received (snd c))) cs)"
  shows "\<exists>f'. serve io reopen realloc cs f =
      Some (map text_of (contents_after deliver (content f) (map (\<lambda>c. first_line (received (snd c))) cs)), f') \<and>
    ok f' \<and> content f' = fold (\<lambda>m c. deliver c m) (map (\<lambda>c. first_line (received (snd c))) cs) (content f)"
  using assms
proof (induction cs arbitrary: f)
  case Nil
  then show ?case by simp
next
  case (Cons sc cs)
  obtain sock chunks where sc: "sc = (sock, chunks)" by (cases sc)
  have r: "ok (reopen f)" "content (reopen f) = content f" "fresh (reopen f)"
    using law_reopen [OF Cons.prems(1)] by auto
  let ?m = "first_line (received chunks)"
  obtain e where e: "connector io (Some (reopen f)) realloc chunks False \<lparr>client_sock = sock, finished = False\<rparr> =
        Some (Inr e)" "concat (sent e) = text_of (deliver (content f) ?m)" "ok (data e)"
      "content (data e) = deliver (content f) ?m"
    using connector_writes [OF r(1,3) _ Cons.prems(3) refl, of chunks "\<lparr>client_sock = sock, finished = False\<rparr>"]
      Cons.prems(2,4) r(2) sc by auto
  obtain f' where "serve io reopen realloc cs (data e) =
      Some (map text_of (contents_after deliver (content (data e))
         (map (\<lambda>c. first_line (received (snd c))) cs)), f')" "ok f'"
      "content f' = fold (\<lambda>m c. deliver c m) (map (\<lambda>c. first_line (received (snd c))) cs) (content (data e))"
    using Cons.IH [OF e(3) _ Cons.prems(3)] Cons.prems(2,4) e(4) sc by auto
  then show ?case using e sc by simp
qed

end

section \<open>A plain file\<close>

text \<open>
  The data file without the driver, opened with mode \<open>a+\<close>: \<open>wbuf\<close> is the output buffered by the C library,
  flushed output goes to the end of the file, and the seek command is not supported.
\<close>

record plain_file =
  bytes :: "char list"
  offset :: nat
  wbuf :: "char list"

definition plain_flush :: "plain_file \<Rightarrow> plain_file" where
  "plain_flush f =
     (if wbuf f = [] then f
      else f\<lparr>bytes := bytes f @ wbuf f, offset := length (bytes f @ wbuf f), wbuf := []\<rparr>)"

definition plain_stdio :: "plain_file stdio" where
  "plain_stdio =
     \<lparr>fwrite = (\<lambda>bs f. Some (f\<lparr>wbuf := wbuf f @ bs\<rparr>)),
      fflush = (\<lambda>f. Some (plain_flush f)),
      rewind = (\<lambda>f. Some ((plain_flush f)\<lparr>offset := 0\<rparr>)),
      fread = (\<lambda>n f. let bs = take n (drop (offset f) (bytes f)) in
                 Some (bs, f\<lparr>offset := offset f + length bs\<rparr>)),
      ioctl_seekto = (\<lambda>st f. Some (False, f))\<rparr>"

definition plain_reopen :: "plain_file \<Rightarrow> plain_file" where
  "plain_reopen f = \<lparr>bytes = bytes f, offset = 0, wbuf = []\<rparr>"

interpretation pf: data_file plain_stdio "\<lambda>f. wbuf f = []" bytes "\<lambda>bs. bs" "(@)" "\<lambda>_ _ _. None" offset
    "\<lambda>f. offset f = 0" "\<lambda>_ _. True" plain_reopen
  by unfold_locales (auto simp: plain_stdio_def plain_flush_def plain_reopen_def Let_def)

section \<open>Properties\<close>

text \<open>
  C15. The message that the receive loop of \<open>connector\<close> assembles does not depend on how the network cuts the stream
  into pieces: it is the received bytes up to and including the first newline, or all of them when the client closes
  first, followed by a terminator, and \<open>total_len\<close> is its length.
\<close>

theorem recv_loop_first_line:
  assumes "\<forall>n \<le> Suc (length (first_line (received chunks))). realloc n"
  shows "recv_loop realloc chunks Null 0 =
    (if received chunks = [] then (Null, 0)
     else (Block (first_line (received chunks) @ [NUL]), length (first_line (received chunks))))"
  using recv_loop_message [of chunks realloc] assms by blast

theorem recv_loop_first_line_witness:
  "recv_loop (\<lambda>n. n \<le> 7) [''ab'', ''cde'' @ [newline] @ ''xyz'', ''q''] Null 0 =
     (Block (''abcde'' @ [newline, NUL]), 6)"
proof -
  have "first_line (received [''ab'', ''cde'' @ [newline] @ ''xyz'', ''q'']) = ''abcde'' @ [newline]"
    by (simp add: first_line_def received_def)
  then show ?thesis
    using recv_loop_first_line [of "[''ab'', ''cde'' @ [newline] @ ''xyz'', ''q'']" "\<lambda>n. n \<le> 7"]
    by (simp add: received_def)
qed

text \<open>
  C25. A client that sends \<open>AESDCHAR_IOCSEEKTO:x,y\<close> and a newline, with \<open>x\<close> and \<open>y\<close> in decimal and below $2^{31}$,
  makes the connection thread issue exactly the seek to \<open>x\<close> and \<open>y\<close> and then send the file from there; nothing is
  written.
\<close>

theorem critical_section_seekto:
  assumes "x < 2 ^ 31" and "y < 2 ^ 31"
    and "m = ioctlString @ show_nat x @ '','' @ show_nat y @ [newline]"
  shows "critical_section io (m @ [NUL]) n f =
    Option.bind (ioctl_seekto io \<lparr>write_cmd = of_nat x, write_cmd_offset = of_nat y\<rparr> f)
      (\<lambda>(ok, f'). send_loop io f' [])"
proof -
  have "cstring (m @ [NUL]) = m" unfolding assms(3) by (rule cstring_seekto)
  moreover have "strstr m ioctlString = Some m" unfolding assms(3) by (rule strstr_prefix)
  moreover have "parse_seekto m = Some \<lparr>write_cmd = of_nat x, write_cmd_offset = of_nat y\<rparr>"
    unfolding assms(3) using parse_seekto_show [OF assms(1,2), of "[newline]"] by simp
  ultimately show ?thesis by (simp add: critical_section_def case_prod_beta)
qed

lemma show_nat_12_3: "show_nat 12 = ''12''" "show_nat 3 = ''3''"
  by (simp_all add: show_nat.simps digit_char_def char_of_def bit_0)

theorem critical_section_seekto_witness:
  "critical_section plain_stdio (''AESDCHAR_IOCSEEKTO:12,3'' @ [newline] @ [NUL]) 24
       \<lparr>bytes = ''abc'', offset = 0, wbuf = []\<rparr> =
     send_loop plain_stdio \<lparr>bytes = ''abc'', offset = 0, wbuf = []\<rparr> []"
  using critical_section_seekto [of 12 3 _ plain_stdio 24 "\<lparr>bytes = ''abc'', offset = 0, wbuf = []\<rparr>", OF _ _ refl]
  by (simp add: show_nat_12_3 ioctlString_def plain_stdio_def)

text \<open>
  C40. A seek command without a comma makes the connection thread evaluate \<open>atoi(NULL + 1)\<close>: the model has no result for
  it. Any client can send such a message.
\<close>

theorem connector_missing_comma_undefined:
  assumes "\<forall>n. realloc n" and "received chunks \<noteq> []"
    and "strstr (cstring (first_line (received chunks) @ [NUL])) ioctlString = Some c" and "CHR '','' \<notin> set c"
  shows "connector io (Some f) realloc chunks False a = None"
proof -
  have "strchr c (CHR '','') = None" using assms(4) by (simp add: strchr_None)
  then have "parse_seekto c = None"
    by (cases "atoi (drop (length ioctlString) c)") (simp_all add: parse_seekto_def)
  then show ?thesis
    using recv_loop_message [of chunks realloc] assms first_line_nonempty [OF assms(2)]
    by (simp add: connector_def critical_section_def)
qed

theorem connector_missing_comma_undefined_witness:
  "connector plain_stdio (Some \<lparr>bytes = [], offset = 0, wbuf = []\<rparr>) (\<lambda>_. True)
     [ioctlString @ ''7'' @ [newline]] False \<lparr>client_sock = 4, finished = False\<rparr> = None"
proof -
  have m: "first_line (received [ioctlString @ ''7'' @ [newline]]) = ioctlString @ ''7'' @ [newline]"
    by (simp add: first_line_def received_def ioctlString_def)
  have "cstring ((ioctlString @ ''7'' @ [newline]) @ [NUL]) = ioctlString @ ''7'' @ [newline]"
    by (simp add: cstring_def ioctlString_def NUL_def)
  then have s: "strstr (cstring (first_line (received [ioctlString @ ''7'' @ [newline]]) @ [NUL])) ioctlString =
      Some (ioctlString @ ''7'' @ [newline])"
    unfolding m by (simp only: strstr_prefix)
  have "CHR '','' \<notin> set (ioctlString @ ''7'' @ [newline])"
    "received [ioctlString @ ''7'' @ [newline]] \<noteq> []" by (simp_all add: ioctlString_def received_def)
  then show ?thesis using connector_missing_comma_undefined [OF _ _ s, where realloc = "\<lambda>_. True"] by simp
qed

text \<open>
  Out of memory in the receive loop after a part of the message has been stored: \<open>message_buf\<close> is freed but not
  reset, and the thread goes on to use it.
\<close>

lemma connector_realloc_failure_undefined:
  assumes "c \<noteq> []" and "newline \<notin> set c" and "realloc (Suc (length c))" and "d \<noteq> []"
    and "\<forall>n > Suc (length c). \<not> realloc n"
  shows "connector io (Some f) realloc (c # d # chunks) False a = None"
proof -
  have "0 < line_len d" using assms(4) by (auto split: option.split)
  then have "recv_loop realloc (c # d # chunks) Null 0 = (Freed, length c)"
    using assms by (simp add: Let_def)
  then show ?thesis using assms(1) by (simp add: connector_def)
qed

lemma connector_realloc_failure_undefined_witness:
  "connector plain_stdio (Some \<lparr>bytes = [], offset = 0, wbuf = []\<rparr>) (\<lambda>n. n \<le> 3)
     [''ab'', ''c'' @ [newline]] False \<lparr>client_sock = 4, finished = False\<rparr> = None"
  by (rule connector_realloc_failure_undefined) simp_all

end
