(* ===== verification/Server_Threads.thy ===== *)
theory Server_Threads
  imports Connector
begin

text \<open>
  The connection threads of \<open>server/aesdsocket.c\<close> running at the same time: every thread is a state machine over
  the statements of \<open>connector\<close> that touch the data file or \<open>file_mutex\<close>, and a step of the process is a step of
  one thread. The data file is split into what the threads share and the stream that belongs to one thread; the
  locale \<open>shared_file\<close> states how the two are put together. The main result is that \<open>file_mutex\<close> makes the
  threads behave as if their critical sections ran one after the other (\<open>serve\<close>); that no thread gets stuck and
  every execution ends is in \<open>Server_Progress\<close>.
\<close>

section \<open>The thread as a state machine\<close>

text \<open>
  Where a thread stands. A thread from \<open>Deciding\<close> to \<open>Unlocking\<close> holds \<open>file_mutex\<close>. \<open>Sending\<close> and the states
  after it carry the blocks sent to the client so far.
\<close>

datatype conn_pc =
    Start
  | Receiving
  | Locking "char list" nat
  | Deciding "char list" nat
  | Seeking aesd_seekto
  | Writing "char list"
  | Flushing
  | Rewinding
  | Sending "char list list"
  | Unlocking "char list list"
  | Closing "char list list"
  | Finished "char list list"

text \<open>One statement of the critical section, for a thread whose stream together with the shared file is \<open>f\<close>.\<close>

fun crit_step :: "'f stdio \<Rightarrow> conn_pc \<Rightarrow> 'f \<Rightarrow> (conn_pc \<times> 'f) option" where
  "crit_step io (Deciding block total_len) f =
     (case strstr (cstring block) ioctlString of
        Some ioctlCase \<Rightarrow> do { seekto \<leftarrow> parse_seekto ioctlCase; Some (Seeking seekto, f) }
      | None \<Rightarrow> Some (Writing (take total_len block), f))"
| "crit_step io (Seeking seekto) f = do { (ok, f) \<leftarrow> ioctl_seekto io seekto f; Some (Sending [], f) }"
| "crit_step io (Writing bs) f = do { f \<leftarrow> fwrite io bs f; Some (Flushing, f) }"
| "crit_step io Flushing f = do { f \<leftarrow> fflush io f; Some (Rewinding, f) }"
| "crit_step io Rewinding f = do { f \<leftarrow> rewind io f; Some (Sending [], f) }"
| "crit_step io (Sending out) f = do {
     (file_buf, f) \<leftarrow> fread io BUFFER_SIZE f;
     Some (if file_buf \<noteq> [] then Sending (out @ [file_buf]) else Unlocking out, f)
   }"
| "crit_step io _ f = None"

text \<open>
  What the receive loop leads to: a thread without a message goes on to close the connection, a thread whose
  buffer has been freed has no defined behaviour.
\<close>

fun after_receive :: "message_buf \<times> nat \<Rightarrow> conn_pc option" where
  "after_receive (message_buf, total_len) =
     (if message_buf \<noteq> Null \<and> total_len > 0 then
        (case message_buf of Block bs \<Rightarrow> Some (Locking bs total_len) | _ \<Rightarrow> None)
      else Some (Closing []))"

record 'f conn_thread =
  pc :: conn_pc
  stream :: 'f
  input :: "char list list"
  sock :: int

text \<open>The process: the shared file, the owner of \<open>file_mutex\<close>, the threads, and the order of the owners so far.\<close>

record ('f, 's) pool =
  shared :: 's
  owner :: "nat option"
  threads :: "'f conn_thread list"
  order :: "nat list"

text \<open>
  A step of thread \<open>i\<close>. \<open>new_stream\<close> is what \<open>fopen\<close> gives for the shared file, \<open>attach\<close> the stream of a thread on
  the file as it is now, and \<open>detach\<close> the shared file after a call.
  The receive loop touches nothing shared and is one step, as are the last statements of the thread (\<open>free\<close>,
  \<open>fclose\<close> of a stream with nothing left to write, \<open>finished = 1\<close>, \<open>close\<close>). \<open>fopen\<close> succeeds; what a thread does
  otherwise is in \<open>Server_Main\<close>. A thread waits for \<open>file_mutex\<close> by having no step.
\<close>

definition thread_step ::
  "'f stdio \<Rightarrow> ('s \<Rightarrow> 'f) \<Rightarrow> ('s \<Rightarrow> 'f \<Rightarrow> 'f) \<Rightarrow> ('f \<Rightarrow> 's) \<Rightarrow> (nat \<Rightarrow> bool) \<Rightarrow> nat \<Rightarrow> ('f, 's) pool \<Rightarrow> ('f, 's) pool option" where
  "thread_step io new_stream attach detach realloc i p =
     (let t = threads p ! i in
      case pc t of
        Start \<Rightarrow> Some (p\<lparr>threads := (threads p)[i := t\<lparr>pc := Receiving, stream := new_stream (shared p)\<rparr>]\<rparr>)
      | Receiving \<Rightarrow> do {
          q \<leftarrow> after_receive (recv_loop realloc (input t) Null 0);
          Some (p\<lparr>threads := (threads p)[i := t\<lparr>pc := q\<rparr>]\<rparr>)
        }
      | Locking block total_len \<Rightarrow> do {
          ensure (owner p = None);
          Some (p\<lparr>threads := (threads p)[i := t\<lparr>pc := Deciding block total_len\<rparr>], owner := Some i, order := order p @ [i]\<rparr>)
        }
      | Unlocking out \<Rightarrow>
          Some (p\<lparr>threads := (threads p)[i := t\<lparr>pc := Closing out\<rparr>], owner := None\<rparr>)
      | Closing out \<Rightarrow> Some (p\<lparr>threads := (threads p)[i := t\<lparr>pc := Finished out\<rparr>]\<rparr>)
      | Finished out \<Rightarrow> None
      | q \<Rightarrow> do {
          (q, f) \<leftarrow> crit_step io q (attach (shared p) (stream t));
          Some (p\<lparr>shared := detach f, threads := (threads p)[i := t\<lparr>pc := q, stream := f\<rparr>]\<rparr>)
        })"

inductive pool_step ::
  "'f stdio \<Rightarrow> ('s \<Rightarrow> 'f) \<Rightarrow> ('s \<Rightarrow> 'f \<Rightarrow> 'f) \<Rightarrow> ('f \<Rightarrow> 's) \<Rightarrow> (nat \<Rightarrow> bool) \<Rightarrow> ('f, 's) pool \<Rightarrow> ('f, 's) pool \<Rightarrow> bool"
  for io new_stream attach detach realloc where
  step: "i < length (threads p) \<Longrightarrow> thread_step io new_stream attach detach realloc i p = Some p' \<Longrightarrow>
     pool_step io new_stream attach detach realloc p p'"

inductive_cases pool_stepE: "pool_step io new_stream attach detach realloc p p'"

text \<open>
  The process when no thread has run. A connection that is accepted later is one whose thread takes its first step
  later.
\<close>

definition pool_start :: "'f \<Rightarrow> ('f \<Rightarrow> 's) \<Rightarrow> (int \<times> char list list) list \<Rightarrow> ('f, 's) pool" where
  "pool_start f detach cs =
     \<lparr>shared = detach f, owner = None,
      threads = map (\<lambda>c. \<lparr>pc = Start, stream = f, input = snd c, sock = fst c\<rparr>) cs, order = []\<rparr>"

section \<open>The rest of a critical section\<close>

fun crit_rest :: "'f stdio \<Rightarrow> conn_pc \<Rightarrow> 'f \<Rightarrow> (char list list \<times> 'f) option" where
  "crit_rest io (Deciding block total_len) f = critical_section io block total_len f"
| "crit_rest io (Seeking seekto) f = do { (ok, f) \<leftarrow> ioctl_seekto io seekto f; send_loop io f [] }"
| "crit_rest io (Writing bs) f = do { f \<leftarrow> fwrite io bs f; f \<leftarrow> fflush io f; f \<leftarrow> rewind io f; send_loop io f [] }"
| "crit_rest io Flushing f = do { f \<leftarrow> fflush io f; f \<leftarrow> rewind io f; send_loop io f [] }"
| "crit_rest io Rewinding f = do { f \<leftarrow> rewind io f; send_loop io f [] }"
| "crit_rest io (Sending out) f = send_loop io f out"
| "crit_rest io (Unlocking out) f = Some (out, f)"
| "crit_rest io _ f = None"

fun in_critical :: "conn_pc \<Rightarrow> bool" where
  "in_critical (Deciding block n) \<longleftrightarrow> True"
| "in_critical (Seeking st) \<longleftrightarrow> True"
| "in_critical (Writing bs) \<longleftrightarrow> True"
| "in_critical Flushing \<longleftrightarrow> True"
| "in_critical Rewinding \<longleftrightarrow> True"
| "in_critical (Sending out) \<longleftrightarrow> True"
| "in_critical (Unlocking out) \<longleftrightarrow> True"
| "in_critical _ \<longleftrightarrow> False"

lemma crit_step_rest:
  assumes "crit_step io q f = Some (q', f')"
  shows "crit_rest io q' f' = crit_rest io q f" and "in_critical q" and "in_critical q'"
proof -
  show "crit_rest io q' f' = crit_rest io q f"
    using assms
    by (cases q) (auto simp: critical_section_def send_loop.simps [of io f] Option.bind_eq_Some_conv
        split: option.splits if_splits)
  show "in_critical q" "in_critical q'"
    using assms by (cases q; auto simp: Option.bind_eq_Some_conv split: option.splits if_splits)+
qed

lemma crit_step_defined:
  assumes "crit_rest io q f = Some r" and "\<forall>out. q \<noteq> Unlocking out"
  shows "\<exists>q' f'. crit_step io q f = Some (q', f')"
  using assms
  by (cases q) (auto simp: critical_section_def send_loop.simps [of io f] Option.bind_eq_Some_conv
      split: option.splits)

text \<open>The number of statements left, for a critical section that ends.\<close>

inductive crit_dist :: "'f stdio \<Rightarrow> conn_pc \<Rightarrow> 'f \<Rightarrow> nat \<Rightarrow> bool" for io where
  dist_0: "crit_dist io (Unlocking out) f 0"
| dist_Suc: "crit_step io q f = Some (q', f') \<Longrightarrow> crit_dist io q' f' k \<Longrightarrow> crit_dist io q f (Suc k)"

inductive_cases crit_dist_UnlockingE: "crit_dist io (Unlocking out) f k"
inductive_cases crit_distE: "crit_dist io q f k"

lemma send_loop_dist:
  assumes "send_loop io f out = Some r"
  shows "\<exists>k. crit_dist io (Sending out) f k"
proof (rule send_loop.raw_induct [OF _ assms])
  fix loop :: "'a stdio \<Rightarrow> 'a \<Rightarrow> char list list \<Rightarrow> (char list list \<times> 'a) option" and io f out r
  assume IH: "\<And>io f out r. loop io f out = Some r \<Longrightarrow> \<exists>k. crit_dist io (Sending out) f k"
    and step: "fread io BUFFER_SIZE f \<bind> (\<lambda>(b, f). if b \<noteq> [] then loop io f (out @ [b]) else Some (out, f)) = Some r"
  from step obtain b f' where b: "fread io BUFFER_SIZE f = Some (b, f')"
    and r: "(if b \<noteq> [] then loop io f' (out @ [b]) else Some (out, f')) = Some r"
    by (auto simp: Option.bind_eq_Some_conv)
  show "\<exists>k. crit_dist io (Sending out) f k"
  proof (cases "b = []")
    case True
    then have "crit_step io (Sending out) f = Some (Unlocking out, f')" using b by simp
    then show ?thesis by (blast intro: dist_Suc [OF _ dist_0])
  next
    case False
    then have "\<exists>k. crit_dist io (Sending (out @ [b])) f' k" using IH r by simp
    moreover have "crit_step io (Sending out) f = Some (Sending (out @ [b]), f')" using b False by simp
    ultimately show ?thesis by (metis dist_Suc)
  qed
qed

text \<open>The states before the sending loop, in an order in which every step goes to a smaller one.\<close>

fun crit_phase :: "conn_pc \<Rightarrow> nat" where
  "crit_phase (Deciding block n) = 4"
| "crit_phase (Writing bs) = 3"
| "crit_phase Flushing = 2"
| "crit_phase (Seeking st) = 1"
| "crit_phase Rewinding = 1"
| "crit_phase _ = 0"

lemma crit_step_phase:
  "crit_step io q f = Some (q', f') \<Longrightarrow> (\<forall>out. q \<noteq> Sending out) \<Longrightarrow> crit_phase q' < crit_phase q"
  by (cases q) (auto simp: Option.bind_eq_Some_conv split: option.splits)

lemma crit_rest_dist: "crit_rest io q f = Some r \<Longrightarrow> \<exists>k. crit_dist io q f k"
proof (induction "crit_phase q" arbitrary: q f rule: less_induct)
  case less
  show ?case
  proof (cases "\<exists>out. q = Sending out \<or> q = Unlocking out")
    case True
    then show ?thesis using less.prems send_loop_dist dist_0 by (metis crit_rest.simps(6))
  next
    case False
    then obtain q' f' where s: "crit_step io q f = Some (q', f')" using crit_step_defined [OF less.prems] by blast
    then have "crit_phase q' < crit_phase q" using crit_step_phase [OF s] False by blast
    moreover have "crit_rest io q' f' = Some r" using less.prems crit_step_rest(1) [OF s] by simp
    ultimately obtain k where "crit_dist io q' f' k" using less.hyps by blast
    then show ?thesis using dist_Suc [OF s] by blast
  qed
qed

section \<open>Histories of critical sections\<close>

text \<open>One more connection at the end of a sequence that has been served.\<close>

lemma serve_snoc:
  assumes "serve io reopen realloc cs f = Some (rs, f1)"
    and "after_receive (recv_loop realloc chunks Null 0) = Some (Locking block n)"
  shows "serve io reopen realloc (cs @ [(s, chunks)]) f =
    map_option (\<lambda>(out, f2). (rs @ [concat out], f2)) (critical_section io block n (reopen f1))"
  using assms(1)
proof (induction cs arbitrary: f rs)
  case Nil
  have "recv_loop realloc chunks Null 0 = (Block block, n)" "0 < n"
    using assms(2) by (cases "recv_loop realloc chunks Null 0"; auto split: if_splits message_buf.splits)+
  then show ?case
    using Nil by (cases "critical_section io block n (reopen f1)") (auto simp: connector_def)
next
  case (Cons c cs)
  obtain sock chs where c: "c = (sock, chs)" by (cases c)
  obtain e rs' where "connector io (Some (reopen f)) realloc chs False \<lparr>client_sock = sock, finished = False\<rparr> = Some (Inr e)"
      "serve io reopen realloc cs (data e) = Some (rs', f1)" "rs = concat (sent e) # rs'"
    using Cons.prems
    by (cases "connector io (Some (reopen f)) realloc chs False \<lparr>client_sock = sock, finished = False\<rparr>")
      (auto simp: c Option.bind_eq_Some_conv split: sum.split_asm)
  then show ?case
    using Cons.IH by (cases "critical_section io block n (reopen f1)") (auto simp: c)
qed

text \<open>The connections that have left their critical section, in the order in which they entered it.\<close>

definition served :: "('f, 's) pool \<Rightarrow> nat list" where
  "served p = (case owner p of None \<Rightarrow> order p | Some i \<Rightarrow> butlast (order p))"

fun reply :: "conn_pc \<Rightarrow> char list" where
  "reply (Closing out) = concat out"
| "reply (Finished out) = concat out"
| "reply _ = []"

definition all_finished :: "('f, 's) pool \<Rightarrow> bool" where
  "all_finished p \<longleftrightarrow> (\<forall>t \<in> set (threads p). \<exists>out. pc t = Finished out)"

text \<open>Whether the receive loop gives a message, so that the thread takes \<open>file_mutex\<close>.\<close>

definition has_message :: "(nat \<Rightarrow> bool) \<Rightarrow> char list list \<Rightarrow> bool" where
  "has_message realloc chunks \<longleftrightarrow>
     (case after_receive (recv_loop realloc chunks Null 0) of Some (Locking block n) \<Rightarrow> True | _ \<Rightarrow> False)"

text \<open>
  What holds of a single thread; \<open>done\<close> tells whether it has left its critical section. A thread without a message
  never enters it and sends nothing.
\<close>

definition thread_ok :: "('s \<Rightarrow> 'f) \<Rightarrow> (nat \<Rightarrow> bool) \<Rightarrow> bool \<Rightarrow> 'f conn_thread \<Rightarrow> bool" where
  "thread_ok new_stream realloc done t \<longleftrightarrow>
     (case pc t of
        Start \<Rightarrow> \<not> done
      | Receiving \<Rightarrow> \<not> done \<and> stream t \<in> range new_stream
      | Locking block n \<Rightarrow>
          \<not> done \<and> stream t \<in> range new_stream \<and> after_receive (recv_loop realloc (input t) Null 0) = Some (Locking block n)
      | Closing out \<Rightarrow> if done then has_message realloc (input t) else out = [] \<and> \<not> has_message realloc (input t)
      | Finished out \<Rightarrow> if done then has_message realloc (input t) else out = [] \<and> \<not> has_message realloc (input t)
      | _ \<Rightarrow> \<not> done \<and> has_message realloc (input t))"

lemma thread_ok_critical:
  "in_critical (pc t) \<Longrightarrow> thread_ok new_stream realloc done t \<longleftrightarrow> \<not> done \<and> has_message realloc (input t)"
  by (cases "pc t") (auto simp: thread_ok_def)

definition owner_ok :: "('f, 's) pool \<Rightarrow> bool" where
  "owner_ok p \<longleftrightarrow>
     (\<forall>i < length (threads p). in_critical (pc (threads p ! i)) \<longleftrightarrow> owner p = Some i) \<and>
     distinct (order p) \<and> set (order p) \<subseteq> {..<length (threads p)} \<and>
     (\<forall>i. owner p = Some i \<longrightarrow> order p \<noteq> [] \<and> last (order p) = i)"

definition pool_ok :: "('s \<Rightarrow> 'f) \<Rightarrow> (nat \<Rightarrow> bool) \<Rightarrow> (int \<times> char list list) list \<Rightarrow> ('f, 's) pool \<Rightarrow> bool" where
  "pool_ok new_stream realloc cs p \<longleftrightarrow>
     map (\<lambda>t. (sock t, input t)) (threads p) = cs \<and>
     (\<forall>i < length (threads p). thread_ok new_stream realloc (i \<in> set (served p)) (threads p ! i)) \<and> owner_ok p"

text \<open>The critical section of a connection that has received the pieces \<open>chunks\<close>.\<close>

definition section_of :: "'f stdio \<Rightarrow> (nat \<Rightarrow> bool) \<Rightarrow> char list list \<Rightarrow> 'f \<Rightarrow> (char list list \<times> 'f) option" where
  "section_of io realloc chunks f =
     (case after_receive (recv_loop realloc chunks Null 0) of
        Some (Locking block n) \<Rightarrow> critical_section io block n f
      | _ \<Rightarrow> None)"

lemma served_simps [simp]:
  "owner p = None \<Longrightarrow> served p = order p" "owner p = Some i \<Longrightarrow> served p = butlast (order p)"
  by (simp_all add: served_def)

lemma owner_okD:
  assumes "owner_ok p" and "owner p = Some i"
  shows "i < length (threads p)" "in_critical (pc (threads p ! i))" "order p = served p @ [i]" "i \<notin> set (served p)"
proof -
  have o: "order p \<noteq> []" "last (order p) = i" "distinct (order p)" "set (order p) \<subseteq> {..<length (threads p)}"
    using assms by (auto simp: owner_ok_def)
  show ord: "order p = served p @ [i]" using o(1,2) assms(2) append_butlast_last_id by fastforce
  show "i \<notin> set (served p)" using o(3) by (simp add: ord)
  show "i < length (threads p)" using o(4) by (simp add: ord)
  then show "in_critical (pc (threads p ! i))" using assms by (auto simp: owner_ok_def)
qed

text \<open>Replacing one thread in a pool.\<close>

lemma pool_ok_update:
  assumes p: "pool_ok new_stream realloc cs p" and i: "i < length (threads p)"
    and th: "threads p' = (threads p)[i := t']" "sock t' = sock (threads p ! i)" "input t' = input (threads p ! i)"
    and t': "thread_ok new_stream realloc (i \<in> set (served p')) t'"
    and srv: "set (served p') - {i} = set (served p) - {i}"
    and own: "owner_ok p'"
  shows "pool_ok new_stream realloc cs p'"
proof -
  have "map (\<lambda>t. (sock t, input t)) ((threads p)[i := t']) = map (\<lambda>t. (sock t, input t)) (threads p)"
    using i th(2,3) by (auto simp: list_eq_iff_nth_eq nth_list_update)
  moreover have "j \<in> set (served p') \<longleftrightarrow> j \<in> set (served p)" if "j \<noteq> i" for j using srv that by auto
  ultimately show ?thesis
    using p t' own i by (auto simp: pool_ok_def th(1) nth_list_update)
qed

definition conn_of :: "('f, 's) pool \<Rightarrow> nat \<Rightarrow> int \<times> char list list" where
  "conn_of p i = (sock (threads p ! i), input (threads p ! i))"

definition reply_of :: "('f, 's) pool \<Rightarrow> nat \<Rightarrow> char list" where
  "reply_of p i = reply (pc (threads p ! i))"

lemma order_has_message:
  assumes "pool_ok new_stream realloc cs p" and "j \<in> set (order p)"
  shows "has_message realloc (input (threads p ! j))"
proof -
  have j: "j < length (threads p)" and tok: "thread_ok new_stream realloc (j \<in> set (served p)) (threads p ! j)"
    using assms by (auto simp: pool_ok_def owner_ok_def)
  show ?thesis
  proof (cases "j \<in> set (served p)")
    case True
    then show ?thesis using tok by (cases "pc (threads p ! j)") (auto simp: thread_ok_def)
  next
    case False
    then obtain i where own: "owner p = Some i" using assms(2) by (cases "owner p") simp_all
    have "owner_ok p" using assms(1) by (simp add: pool_ok_def)
    then have "order p = served p @ [i]" using own by (rule owner_okD(3))
    then have "i = j" using False assms(2) by (simp del: served_simps)
    then have "in_critical (pc (threads p ! j))" using owner_okD(2) [OF _ own] assms(1) by (simp add: pool_ok_def)
    then show ?thesis using tok by (simp add: thread_ok_critical)
  qed
qed

lemma thread_step_critical:
  assumes "in_critical (pc (threads p ! i))" and "\<forall>out. pc (threads p ! i) \<noteq> Unlocking out"
  shows "thread_step io new_stream attach detach realloc i p =
    map_option (\<lambda>(q, f). p\<lparr>shared := detach f, threads := (threads p)[i := (threads p ! i)\<lparr>pc := q, stream := f\<rparr>]\<rparr>)
      (crit_step io (pc (threads p ! i)) (attach (shared p) (stream (threads p ! i))))"
  using assms
  by (cases "pc (threads p ! i)";
      cases "crit_step io (pc (threads p ! i)) (attach (shared p) (stream (threads p ! i)))")
    (auto simp: thread_step_def Let_def simp del: crit_step.simps)

section \<open>Steps of a consistent pool\<close>

lemma pool_ok_quiet:
  assumes ok: "pool_ok new_stream realloc cs p" and i: "i < length (threads p)"
    and p': "p' = p\<lparr>threads := (threads p)[i := t']\<rparr>"
    and same: "sock t' = sock (threads p ! i)" "input t' = input (threads p ! i)"
    and out: "\<not> in_critical (pc (threads p ! i))" "\<not> in_critical (pc t')"
    and t': "thread_ok new_stream realloc (i \<in> set (served p)) t'"
  shows "pool_ok new_stream realloc cs p'" and "served p' = served p" and "owner p \<noteq> Some i"
proof -
  show own: "owner p \<noteq> Some i" using ok i out(1) by (auto simp: pool_ok_def owner_ok_def)
  show srv: "served p' = served p" by (simp add: p' served_def split: option.split)
  have "owner_ok p" using ok by (simp add: pool_ok_def)
  then have "owner_ok p'" using own i out(2) by (auto simp: p' owner_ok_def nth_list_update)
  then show "pool_ok new_stream realloc cs p'" using pool_ok_update [OF ok i, of p' t'] same t' srv by (simp add: p')
qed

lemma pool_ok_lock:
  assumes ok: "pool_ok new_stream realloc cs p" and i: "i < length (threads p)"
    and q: "pc (threads p ! i) = Locking block n" and none: "owner p = None"
    and p': "p' = p\<lparr>threads := (threads p)[i := (threads p ! i)\<lparr>pc := Deciding block n\<rparr>], owner := Some i,
      order := order p @ [i]\<rparr>"
  shows "pool_ok new_stream realloc cs p'" and "served p' = served p" and "i \<notin> set (served p)"
    and "stream (threads p ! i) \<in> range new_stream"
    and "after_receive (recv_loop realloc (input (threads p ! i)) Null 0) = Some (Locking block n)"
proof -
  show t: "i \<notin> set (served p)" "stream (threads p ! i) \<in> range new_stream"
      and r: "after_receive (recv_loop realloc (input (threads p ! i)) Null 0) = Some (Locking block n)"
    using ok i q by (auto simp: pool_ok_def thread_ok_def)
  show srv: "served p' = served p" using none by (simp add: p')
  have "owner_ok p'" using ok i none t(1) by (auto simp: pool_ok_def p' owner_ok_def nth_list_update)
  then show "pool_ok new_stream realloc cs p'"
    using t(1) srv by (intro pool_ok_update [OF ok i, of p' "(threads p ! i)\<lparr>pc := Deciding block n\<rparr>"])
      (simp_all add: p' thread_ok_def has_message_def r)
qed

lemma pool_ok_section:
  assumes ok: "pool_ok new_stream realloc cs p" and i: "i < length (threads p)"
    and crit: "in_critical (pc (threads p ! i))" "in_critical q"
    and p': "p' = p\<lparr>shared := s, threads := (threads p)[i := (threads p ! i)\<lparr>pc := q, stream := g\<rparr>]\<rparr>"
  shows "pool_ok new_stream realloc cs p'" and "served p' = served p" and "i \<notin> set (served p)" and "owner p = Some i"
proof -
  show own: "owner p = Some i" using ok i crit(1) by (auto simp: pool_ok_def owner_ok_def)
  show t: "i \<notin> set (served p)" using owner_okD(4) [OF _ own] ok by (simp add: pool_ok_def)
  show srv: "served p' = served p" using own by (simp add: p')
  have "owner_ok p'" using ok i own crit(2) by (auto simp: pool_ok_def p' owner_ok_def nth_list_update)
  moreover have "thread_ok new_stream realloc False ((threads p ! i)\<lparr>pc := q, stream := g\<rparr>)"
    using ok i crit by (auto simp: pool_ok_def thread_ok_critical)
  ultimately show "pool_ok new_stream realloc cs p'"
    using t srv by (intro pool_ok_update [OF ok i, of p' "(threads p ! i)\<lparr>pc := q, stream := g\<rparr>"]) (simp_all add: p')
qed

lemma pool_ok_unlock:
  assumes ok: "pool_ok new_stream realloc cs p" and i: "i < length (threads p)" and q: "pc (threads p ! i) = Unlocking out"
    and p': "p' = p\<lparr>threads := (threads p)[i := (threads p ! i)\<lparr>pc := Closing out\<rparr>], owner := None\<rparr>"
  shows "pool_ok new_stream realloc cs p'" and "served p' = served p @ [i]" and "i \<notin> set (served p)" and "owner p = Some i"
proof -
  show own: "owner p = Some i" using ok i q by (auto simp: pool_ok_def owner_ok_def)
  have ook: "owner_ok p" using ok by (simp add: pool_ok_def)
  note t = owner_okD [OF ook own]
  show srv: "served p' = served p @ [i]" using t(3) by (simp add: p')
  show "i \<notin> set (served p)" by (rule t(4))
  have "owner_ok p'" using ook i own by (auto simp: p' owner_ok_def nth_list_update)
  moreover have "has_message realloc (input (threads p ! i))" using ok i t(2) by (auto simp: pool_ok_def thread_ok_critical)
  ultimately show "pool_ok new_stream realloc cs p'"
    using srv by (intro pool_ok_update [OF ok i, of p' "(threads p ! i)\<lparr>pc := Closing out\<rparr>"]) (auto simp: p' thread_ok_def)
qed

text \<open>The four kinds of steps: outside of the critical section, taking the mutex, in the section, releasing the mutex.\<close>

lemma thread_step_cases:
  assumes st: "thread_step io new_stream attach detach realloc i p = Some p'"
    and tok: "thread_ok new_stream realloc done (threads p ! i)"
  obtains (quiet) t' where "p' = p\<lparr>threads := (threads p)[i := t']\<rparr>"
      "sock t' = sock (threads p ! i)" "input t' = input (threads p ! i)"
      "\<not> in_critical (pc (threads p ! i))" "\<not> in_critical (pc t')"
      "thread_ok new_stream realloc done t'" "done \<Longrightarrow> reply (pc t') = reply (pc (threads p ! i))"
  | (lock) block n where "pc (threads p ! i) = Locking block n" "owner p = None"
      "p' = p\<lparr>threads := (threads p)[i := (threads p ! i)\<lparr>pc := Deciding block n\<rparr>], owner := Some i, order := order p @ [i]\<rparr>"
  | (inside) q g where
      "crit_step io (pc (threads p ! i)) (attach (shared p) (stream (threads p ! i))) = Some (q, g)"
      "p' = p\<lparr>shared := detach g, threads := (threads p)[i := (threads p ! i)\<lparr>pc := q, stream := g\<rparr>]\<rparr>"
  | (unlock) out where "pc (threads p ! i) = Unlocking out"
      "p' = p\<lparr>threads := (threads p)[i := (threads p ! i)\<lparr>pc := Closing out\<rparr>], owner := None\<rparr>"
proof (cases "pc (threads p ! i)")
  case Start
  then show ?thesis
    using st tok quiet [of "(threads p ! i)\<lparr>pc := Receiving, stream := new_stream (shared p)\<rparr>"]
    by (auto simp: thread_step_def thread_ok_def)
next
  case Receiving
  then obtain q where q: "after_receive (recv_loop realloc (input (threads p ! i)) Null 0) = Some q"
      "p' = p\<lparr>threads := (threads p)[i := (threads p ! i)\<lparr>pc := q\<rparr>]\<rparr>"
    using st by (auto simp: thread_step_def Let_def Option.bind_eq_Some_conv)
  then have "(\<exists>block n. q = Locking block n) \<or> q = Closing []"
    by (cases "recv_loop realloc (input (threads p ! i)) Null 0") (auto split: if_splits message_buf.splits)
  then show ?thesis
    using tok Receiving q(1) by (intro quiet [OF q(2)]) (auto simp: thread_ok_def has_message_def)
next
  case (Locking block n)
  then show ?thesis
    using st by (intro lock [OF Locking]) (auto simp: thread_step_def Option.bind_eq_Some_conv ensure_def split: if_splits)
next
  case (Unlocking out)
  then show ?thesis using st by (intro unlock [OF Unlocking]) (simp add: thread_step_def)
next
  case (Closing out)
  then show ?thesis
    using st tok quiet [of "(threads p ! i)\<lparr>pc := Finished out\<rparr>"] by (auto simp: thread_step_def thread_ok_def)
next
  case (Finished out)
  then show ?thesis using st by (simp add: thread_step_def)
qed (use st in \<open>auto simp: thread_step_critical simp del: crit_step.simps intro: inside\<close>)

section \<open>Histories of a pool\<close>

text \<open>
  The threads that have been served have behaved as if they had run one after the other and left the file \<open>f\<close>;
  what remains of the critical section of the owner is what remains of it on this file.
\<close>

definition past ::
  "'f stdio \<Rightarrow> ('s \<Rightarrow> 'f) \<Rightarrow> ('f \<Rightarrow> 's) \<Rightarrow> (nat \<Rightarrow> bool) \<Rightarrow> 'f \<Rightarrow> ('f, 's) pool \<Rightarrow> 'f \<Rightarrow> bool" where
  "past io new_stream detach realloc f0 p f \<longleftrightarrow>
     serve io (\<lambda>f. new_stream (detach f)) realloc (map (conn_of p) (served p)) f0 = Some (map (reply_of p) (served p), f)"

definition present ::
  "'f stdio \<Rightarrow> ('s \<Rightarrow> 'f) \<Rightarrow> ('s \<Rightarrow> 'f \<Rightarrow> 'f) \<Rightarrow> ('f \<Rightarrow> 's) \<Rightarrow> (nat \<Rightarrow> bool) \<Rightarrow> ('f, 's) pool \<Rightarrow> 'f \<Rightarrow> bool" where
  "present io new_stream attach detach realloc p f \<longleftrightarrow>
     (case owner p of
        None \<Rightarrow> detach f = shared p
      | Some i \<Rightarrow> section_of io realloc (input (threads p ! i)) (new_stream (detach f)) =
                   crit_rest io (pc (threads p ! i)) (attach (shared p) (stream (threads p ! i))))"

definition good ::
  "'f stdio \<Rightarrow> ('s \<Rightarrow> 'f) \<Rightarrow> ('s \<Rightarrow> 'f \<Rightarrow> 'f) \<Rightarrow> ('f \<Rightarrow> 's) \<Rightarrow> (nat \<Rightarrow> bool) \<Rightarrow> (int \<times> char list list) list \<Rightarrow> 'f \<Rightarrow> ('f, 's) pool \<Rightarrow> bool" where
  "good io new_stream attach detach realloc cs f0 p \<longleftrightarrow>
     pool_ok new_stream realloc cs p \<and> (\<exists>f. past io new_stream detach realloc f0 p f \<and> present io new_stream attach detach realloc p f)"

lemma past_cong:
  assumes "past io new_stream detach realloc f0 p f" and "served p' = served p"
    and "\<And>j. j \<in> set (served p) \<Longrightarrow> conn_of p' j = conn_of p j \<and> reply_of p' j = reply_of p j"
  shows "past io new_stream detach realloc f0 p' f"
proof -
  have same: "map (conn_of p') (served p) = map (conn_of p) (served p)"
    "map (reply_of p') (served p) = map (reply_of p) (served p)" using assms(3) by simp_all
  show ?thesis using assms(1) unfolding past_def assms(2) same .
qed

section \<open>The file shared by the threads\<close>

text \<open>
  What a thread may keep in its stream and what belongs to the file: attaching a stream to a state of the file keeps
  this state, a stream is attached to the file it has just used, and a stream that has been opened and not used
  depends only on the file.
\<close>

locale shared_file =
  fixes io :: "'f stdio"
    and new_stream :: "'s \<Rightarrow> 'f"
    and attach :: "'s \<Rightarrow> 'f \<Rightarrow> 'f"
    and detach :: "'f \<Rightarrow> 's"
  assumes law_detach_attach: "detach (attach s f) = s"
    and law_attach_detach: "attach (detach f) f = f"
    and law_attach_new: "attach s' (new_stream s) = new_stream s'"
begin

text \<open>A step that does not touch the file or the mutex.\<close>

lemma quiet_step:
  assumes "good io new_stream attach detach realloc cs f0 p" and i: "i < length (threads p)"
    and p': "p' = p\<lparr>threads := (threads p)[i := t']\<rparr>"
    and t': "sock t' = sock (threads p ! i)" "input t' = input (threads p ! i)"
      "\<not> in_critical (pc (threads p ! i))" "\<not> in_critical (pc t')"
      "thread_ok new_stream realloc (i \<in> set (served p)) t'"
    and same: "i \<in> set (served p) \<Longrightarrow> reply (pc t') = reply (pc (threads p ! i))"
  shows "good io new_stream attach detach realloc cs f0 p'"
proof -
  obtain f where f: "past io new_stream detach realloc f0 p f" "present io new_stream attach detach realloc p f" and ok: "pool_ok new_stream realloc cs p"
    using assms(1) by (auto simp: good_def)
  note q = pool_ok_quiet [OF ok i p' t']
  have "past io new_stream detach realloc f0 p' f"
    using i t'(1,2) same
    by (intro past_cong [OF f(1) q(2)]) (auto simp: p' conn_of_def reply_of_def nth_list_update)
  moreover have "present io new_stream attach detach realloc p' f"
    using f(2) q(3) by (auto simp: present_def p' split: option.splits)
  ultimately show ?thesis using q(1) by (auto simp: good_def)
qed

lemma lock_step:
  assumes "good io new_stream attach detach realloc cs f0 p" and i: "i < length (threads p)" and q: "pc (threads p ! i) = Locking block n"
    and none: "owner p = None"
    and p': "p' = p\<lparr>threads := (threads p)[i := (threads p ! i)\<lparr>pc := Deciding block n\<rparr>], owner := Some i,
      order := order p @ [i]\<rparr>"
  shows "good io new_stream attach detach realloc cs f0 p'"
proof -
  obtain f where f: "past io new_stream detach realloc f0 p f" "present io new_stream attach detach realloc p f" and ok: "pool_ok new_stream realloc cs p"
    using assms(1) by (auto simp: good_def)
  note l = pool_ok_lock [OF ok i q none p']
  have "past io new_stream detach realloc f0 p' f"
    using l(3) i by (intro past_cong [OF f(1) l(2)]) (auto simp: p' conn_of_def reply_of_def nth_list_update)
  moreover have "present io new_stream attach detach realloc p' f"
    using f(2) none l(4,5) i by (auto simp: present_def p' section_of_def law_attach_new)
  ultimately show ?thesis using l(1) by (auto simp: good_def)
qed

lemma section_step:
  assumes "good io new_stream attach detach realloc cs f0 p" and i: "i < length (threads p)"
    and c: "crit_step io (pc (threads p ! i)) (attach (shared p) (stream (threads p ! i))) = Some (q, g)"
    and p': "p' = p\<lparr>shared := detach g, threads := (threads p)[i := (threads p ! i)\<lparr>pc := q, stream := g\<rparr>]\<rparr>"
  shows "good io new_stream attach detach realloc cs f0 p'"
proof -
  obtain f where f: "past io new_stream detach realloc f0 p f" "present io new_stream attach detach realloc p f" and ok: "pool_ok new_stream realloc cs p"
    using assms(1) by (auto simp: good_def)
  note c' = crit_step_rest [OF c]
  note s = pool_ok_section [OF ok i c'(2,3) p']
  have "past io new_stream detach realloc f0 p' f"
    using s(3) i by (intro past_cong [OF f(1) s(2)]) (auto simp: p' conn_of_def reply_of_def nth_list_update)
  moreover have "present io new_stream attach detach realloc p' f"
    using f(2) s(4) c'(1) i by (auto simp: present_def p' law_attach_detach)
  ultimately show ?thesis using s(1) by (auto simp: good_def)
qed

lemma unlock_step:
  assumes "good io new_stream attach detach realloc cs f0 p" and i: "i < length (threads p)" and q: "pc (threads p ! i) = Unlocking out"
    and p': "p' = p\<lparr>threads := (threads p)[i := (threads p ! i)\<lparr>pc := Closing out\<rparr>], owner := None\<rparr>"
  shows "good io new_stream attach detach realloc cs f0 p'"
proof -
  obtain f where f: "past io new_stream detach realloc f0 p f" "present io new_stream attach detach realloc p f" and ok: "pool_ok new_stream realloc cs p"
    using assms(1) by (auto simp: good_def)
  note u = pool_ok_unlock [OF ok i q p']
  let ?g = "attach (shared p) (stream (threads p ! i))"
  have "section_of io realloc (input (threads p ! i)) (new_stream (detach f)) = Some (out, ?g)"
    using f(2) u(4) q by (simp add: present_def)
  then obtain block n where rcv: "after_receive (recv_loop realloc (input (threads p ! i)) Null 0) = Some (Locking block n)"
      and cs: "critical_section io block n (new_stream (detach f)) = Some (out, ?g)"
    by (auto simp: section_of_def split: option.splits conn_pc.splits)
  have same: "map (conn_of p') (served p) = map (conn_of p) (served p)"
      "map (reply_of p') (served p) = map (reply_of p) (served p)" "conn_of p' i = conn_of p i" "reply_of p' i = concat out"
    using u(3) i by (auto simp: p' conn_of_def reply_of_def nth_list_update)
  have "past io new_stream detach realloc f0 p' ?g"
    using serve_snoc [OF f(1) [unfolded past_def] rcv, of "sock (threads p ! i)"] cs
    by (simp add: past_def u(2) same) (simp add: conn_of_def)
  moreover have "present io new_stream attach detach realloc p' ?g" by (simp add: present_def p' law_detach_attach)
  ultimately show ?thesis using u(1) by (auto simp: good_def)
qed

lemma thread_step_good:
  assumes good: "good io new_stream attach detach realloc cs f0 p" and i: "i < length (threads p)"
    and st: "thread_step io new_stream attach detach realloc i p = Some p'"
  shows "good io new_stream attach detach realloc cs f0 p'"
proof -
  have "thread_ok new_stream realloc (i \<in> set (served p)) (threads p ! i)" using good i by (simp add: good_def pool_ok_def)
  with st show ?thesis
  proof (cases rule: thread_step_cases)
    case (quiet t')
    then show ?thesis by (rule quiet_step [OF good i])
  next
    case (lock block n)
    then show ?thesis by (rule lock_step [OF good i])
  next
    case (inside q g)
    then show ?thesis by (rule section_step [OF good i])
  next
    case (unlock out)
    then show ?thesis by (rule unlock_step [OF good i])
  qed
qed

lemma start_good: "good io new_stream attach detach realloc cs f0 (pool_start f0 detach cs)"
  by (auto simp: good_def pool_ok_def pool_start_def thread_ok_def owner_ok_def past_def present_def comp_def)

lemma reachable_good:
  "(pool_step io new_stream attach detach realloc)\<^sup>*\<^sup>* (pool_start f0 detach cs) p \<Longrightarrow> good io new_stream attach detach realloc cs f0 p"
  by (induction rule: rtranclp_induct) (auto simp: start_good elim!: pool_stepE intro: thread_step_good)

text \<open>Two threads are never both in the part under \<open>file_mutex\<close>.\<close>

lemma good_exclusive:
  assumes "good io new_stream attach detach realloc cs f0 p" and "i < length (threads p)" and "j < length (threads p)"
    and "in_critical (pc (threads p ! i))" and "in_critical (pc (threads p ! j))"
  shows "i = j"
proof -
  have "owner p = Some i" "owner p = Some j" using assms by (auto simp: good_def pool_ok_def owner_ok_def)
  then show ?thesis by simp
qed

text \<open>What has happened when all threads have returned.\<close>

lemma good_finished:
  assumes "good io new_stream attach detach realloc cs f0 p" and "all_finished p"
  shows "distinct (order p)"
    and "set (order p) = {i. i < length cs \<and> has_message realloc (snd (cs ! i))}"
    and "\<exists>f. serve io (\<lambda>f. new_stream (detach f)) realloc (map ((!) cs) (order p)) f0 = Some (map (reply_of p) (order p), f) \<and> detach f = shared p"
    and "i < length cs \<Longrightarrow> \<not> has_message realloc (snd (cs ! i)) \<Longrightarrow> reply_of p i = []"
proof -
  have ok: "pool_ok new_stream realloc cs p" using assms(1) by (simp add: good_def)
  then have ook: "owner_ok p" and len: "length (threads p) = length cs" by (auto simp: pool_ok_def)
  have conn: "conn_of p j = cs ! j" "input (threads p ! j) = snd (cs ! j)" if "j < length cs" for j
    using ok that by (auto simp: pool_ok_def conn_of_def)
  have fin: "\<exists>out. pc (threads p ! j) = Finished out" if "j < length cs" for j
    using assms(2) that len by (simp add: all_finished_def)
  have none: "owner p = None"
  proof (rule ccontr)
    assume "owner p \<noteq> None"
    then obtain j where "owner p = Some j" by auto
    then have "j < length cs" "in_critical (pc (threads p ! j))" using owner_okD [OF ook] len by auto
    then show False using fin by fastforce
  qed
  show "distinct (order p)" using ook by (simp add: owner_ok_def)
  have tok: "j \<in> set (order p) \<longleftrightarrow> has_message realloc (snd (cs ! j))"
    "\<not> has_message realloc (snd (cs ! j)) \<longrightarrow> reply_of p j = []" if "j < length cs" for j
  proof -
    have "thread_ok new_stream realloc (j \<in> set (order p)) (threads p ! j)"
      using ok that len none by (auto simp: pool_ok_def)
    then show "j \<in> set (order p) \<longleftrightarrow> has_message realloc (snd (cs ! j))"
      "\<not> has_message realloc (snd (cs ! j)) \<longrightarrow> reply_of p j = []"
      using fin [OF that] conn [OF that] by (auto simp: thread_ok_def reply_of_def split: if_splits)
  qed
  have sub: "set (order p) \<subseteq> {..<length cs}" using ook len by (simp add: owner_ok_def)
  then show "set (order p) = {i. i < length cs \<and> has_message realloc (snd (cs ! i))}" using tok(1) by auto
  show "i < length cs \<Longrightarrow> \<not> has_message realloc (snd (cs ! i)) \<Longrightarrow> reply_of p i = []" using tok(2) by blast
  have same: "map (conn_of p) (order p) = map ((!) cs) (order p)" using sub conn(1) by auto
  show "\<exists>f. serve io (\<lambda>f. new_stream (detach f)) realloc (map ((!) cs) (order p)) f0 = Some (map (reply_of p) (order p), f) \<and> detach f = shared p"
    unfolding same [symmetric] using assms(1) none by (auto simp: good_def past_def present_def)
qed

end

end
