(* ===== verification/Server_Progress.thy ===== *)
theory Server_Progress
  imports Server_Threads
begin

text \<open>
  The connection threads of \<open>server/aesdsocket.c\<close> do not get stuck and every execution of them ends, whatever the
  scheduler does; with the results of \<open>Server_Threads\<close> this gives what every client is sent in the end. The contract
  \<open>shared_file\<close> is interpreted here on a plain file, and on the driver in \<open>Server_Device\<close>.
\<close>

section \<open>Every execution ends\<close>

text \<open>
  On every execution from \<open>x\<close>, maximal or infinite, a state with \<open>P\<close> is reached: it holds now, or a step is possible and
  the same is true after every step.
\<close>

inductive inevitably :: "('a \<Rightarrow> 'a \<Rightarrow> bool) \<Rightarrow> ('a \<Rightarrow> bool) \<Rightarrow> 'a \<Rightarrow> bool" for step P where
  now: "P x \<Longrightarrow> inevitably step P x"
| later: "step x y \<Longrightarrow> (\<And>z. step x z \<Longrightarrow> inevitably step P z) \<Longrightarrow> inevitably step P x"

lemma inevitably_mono: "inevitably step P x \<Longrightarrow> (\<And>x. P x \<Longrightarrow> Q x) \<Longrightarrow> inevitably step Q x"
  by (induction rule: inevitably.induct) (auto intro: inevitably.intros)

lemma inevitably_run:
  "inevitably step P x \<Longrightarrow> \<sigma> 0 = x \<Longrightarrow> (\<And>n. step (\<sigma> n) (\<sigma> (Suc n))) \<Longrightarrow> \<exists>n. P (\<sigma> n)"
proof (induction arbitrary: \<sigma> rule: inevitably.induct)
  case (now x)
  then show ?case by blast
next
  case (later x y)
  have "step x (\<sigma> (Suc 0))" using later.prems(1) later.prems(2) [of 0] by simp
  then have "\<exists>n. P (\<sigma> (Suc n))" using later.IH [of "\<sigma> (Suc 0)" "\<lambda>n. \<sigma> (Suc n)"] later.prems(2) by blast
  then show ?case by blast
qed

lemma inevitably_reachable: "inevitably step P x \<Longrightarrow> \<exists>y. step\<^sup>*\<^sup>* x y \<and> P y"
  by (induction rule: inevitably.induct) (blast intro: converse_rtranclp_into_rtranclp)+

text \<open>
  A state with \<open>P\<close> is inevitable when an invariant \<open>I\<close> holds, a step is possible while \<open>P\<close> does not hold, and every step
  makes a weight smaller, or keeps it and makes a distance smaller.
\<close>

lemma inevitably_weight:
  fixes w :: "'a \<Rightarrow> nat" and d :: "'a \<Rightarrow> nat \<Rightarrow> bool"
  assumes inv: "\<And>x y. I x \<Longrightarrow> step x y \<Longrightarrow> I y" and dist: "\<And>x. I x \<Longrightarrow> \<exists>k. d x k"
    and progress: "\<And>x. I x \<Longrightarrow> \<not> P x \<Longrightarrow> \<exists>y. step x y"
    and smaller: "\<And>x y k. I x \<Longrightarrow> d x k \<Longrightarrow> step x y \<Longrightarrow> w y < w x \<or> w y = w x \<and> (\<exists>k' < k. d y k')"
    and x: "I x"
  shows "inevitably step (\<lambda>x. I x \<and> P x) x"
proof -
  have "I x \<Longrightarrow> d x k \<Longrightarrow> inevitably step (\<lambda>x. I x \<and> P x) x" for x k
  proof (induction "(w x, k)" arbitrary: x k rule: wf_induct_rule [OF wf_lex_prod [OF wf_less_than wf_less_than]])
    case 1
    have "inevitably step (\<lambda>x. I x \<and> P x) y" if "step x y" for y
    proof -
      have y: "I y" using inv 1(2) that .
      then obtain l where "d y l" using dist by blast
      moreover note smaller [OF 1(2,3) that]
      ultimately show ?thesis using 1(1) y by auto
    qed
    then show ?case using progress [OF 1(2)] 1(2) by (cases "P x") (auto intro: now later)
  qed
  then show ?thesis using x dist by blast
qed

text \<open>How far a thread is from its end; the statements of the critical section are counted by \<open>crit_dist\<close>.\<close>

fun weight :: "conn_pc \<Rightarrow> nat" where
  "weight Start = 5"
| "weight Receiving = 4"
| "weight (Locking block n) = 3"
| "weight (Closing out) = 1"
| "weight (Finished out) = 0"
| "weight _ = 2"

definition pool_weight :: "('f, 's) pool \<Rightarrow> nat" where
  "pool_weight p = sum_list (map (\<lambda>t. weight (pc t)) (threads p))"

lemma weight_critical: "in_critical q \<Longrightarrow> weight q = 2"
  by (cases q) simp_all

lemma pool_weight_update:
  assumes "i < length (threads p)" and "threads p' = (threads p)[i := t']"
  shows "pool_weight p' + weight (pc (threads p ! i)) = pool_weight p + weight (pc t')"
proof -
  have "weight (pc (threads p ! i)) \<le> pool_weight p"
    using assms(1) elem_le_sum_list [of i "map (\<lambda>t. weight (pc t)) (threads p)"] by (simp add: pool_weight_def)
  then show ?thesis
    using assms by (simp add: pool_weight_def map_update sum_list_update)
qed

lemma thread_step_weight:
  assumes "i < length (threads p)" and "thread_step io new_stream attach detach realloc i p = Some p'"
    and "\<not> in_critical (pc (threads p ! i)) \<or> (\<exists>out. pc (threads p ! i) = Unlocking out)"
  shows "pool_weight p' < pool_weight p"
proof -
  have "\<exists>t'. threads p' = (threads p)[i := t'] \<and> weight (pc t') < weight (pc (threads p ! i))"
    using assms(2,3)
    by (cases "pc (threads p ! i)")
      (auto simp: thread_step_def Let_def Option.bind_eq_Some_conv split: if_splits message_buf.splits
        elim!: after_receive.elims)
  then obtain t' where "threads p' = (threads p)[i := t']" "weight (pc t') < weight (pc (threads p ! i))" by blast
  then show ?thesis using pool_weight_update [OF assms(1)] by fastforce
qed

text \<open>The number of statements left to the owner.\<close>

definition owner_dist ::
  "'f stdio \<Rightarrow> ('s \<Rightarrow> 'f \<Rightarrow> 'f) \<Rightarrow> ('f, 's) pool \<Rightarrow> nat \<Rightarrow> bool" where
  "owner_dist io attach p k \<longleftrightarrow>
     (\<forall>i. owner p = Some i \<longrightarrow> crit_dist io (pc (threads p ! i)) (attach (shared p) (stream (threads p ! i))) k)"

text \<open>
  No connection gets stuck when every sequence of critical sections has a result: the receive loops leave the threads
  in a defined state, and \<open>serve\<close> is defined on the connections in every order.
\<close>

definition all_defined ::
  "'f stdio \<Rightarrow> ('s \<Rightarrow> 'f) \<Rightarrow> ('f \<Rightarrow> 's) \<Rightarrow> (nat \<Rightarrow> bool) \<Rightarrow> (int \<times> char list list) list \<Rightarrow> 'f \<Rightarrow> bool" where
  "all_defined io new_stream detach realloc cs f0 \<longleftrightarrow>
     (\<forall>c \<in> set cs. after_receive (recv_loop realloc (snd c) Null 0) \<noteq> None) \<and>
     (\<forall>js. distinct js \<and> set js \<subseteq> {..<length cs} \<and> (\<forall>j \<in> set js. has_message realloc (snd (cs ! j))) \<longrightarrow>
        serve io (\<lambda>f. new_stream (detach f)) realloc (map ((!) cs) js) f0 \<noteq> None)"

text \<open>When a thread can take a step: outside of the critical section with the mutex free, and in the critical section.\<close>

lemma outside_progress:
  assumes "owner p = None" and "\<not> in_critical (pc (threads p ! i))" and "\<And>out. pc (threads p ! i) \<noteq> Finished out"
    and "after_receive (recv_loop realloc (input (threads p ! i)) Null 0) \<noteq> None"
  shows "\<exists>p'. thread_step io new_stream attach detach realloc i p = Some p'"
  using assms by (cases "pc (threads p ! i)") (auto simp: thread_step_def Let_def)

lemma critical_progress:
  assumes crit: "in_critical (pc (threads p ! i))"
    and r: "crit_rest io (pc (threads p ! i)) (attach (shared p) (stream (threads p ! i))) = Some r"
  shows "\<exists>p'. thread_step io new_stream attach detach realloc i p = Some p'"
proof (cases "\<exists>out. pc (threads p ! i) = Unlocking out")
  case True
  then show ?thesis by (auto simp: thread_step_def)
next
  case False
  then show ?thesis using crit_step_defined [OF r] crit by (auto simp: thread_step_critical)
qed

context shared_file
begin

lemma owner_defined:
  assumes "good io new_stream attach detach realloc cs f0 p" and "all_defined io new_stream detach realloc cs f0" and own: "owner p = Some i"
  shows "\<exists>r. crit_rest io (pc (threads p ! i)) (attach (shared p) (stream (threads p ! i))) = Some r"
proof -
  obtain f where f: "past io new_stream detach realloc f0 p f" "present io new_stream attach detach realloc p f" and ok: "pool_ok new_stream realloc cs p"
    using assms(1) by (auto simp: good_def)
  have ook: "owner_ok p" and len: "length (threads p) = length cs" using ok by (auto simp: pool_ok_def)
  note o = owner_okD [OF ook own]
  have conn: "conn_of p j = cs ! j" if "j < length cs" for j
    using ok that by (auto simp: pool_ok_def conn_of_def)
  have ord: "distinct (order p)" "set (order p) \<subseteq> {..<length cs}" using ook len by (auto simp: owner_ok_def)
  have msg: "has_message realloc (snd (cs ! j))" if "j \<in> set (order p)" for j
  proof -
    have "conn_of p j = cs ! j" using conn ord(2) that by auto
    then show ?thesis using order_has_message [OF ok that] by (metis conn_of_def snd_conv)
  qed
  have same: "map (conn_of p) (order p) = map ((!) cs) (order p)" using ord(2) conn by auto
  obtain block n where rcv: "after_receive (recv_loop realloc (input (threads p ! i)) Null 0) = Some (Locking block n)"
    using ok o(1,2) by (auto simp: pool_ok_def thread_ok_critical has_message_def split: option.splits conn_pc.splits)
  have "serve io (\<lambda>f. new_stream (detach f)) realloc (map (conn_of p) (order p)) f0 \<noteq> None"
    unfolding same using assms(2) ord msg by (simp add: all_defined_def)
  then have "critical_section io block n (new_stream (detach f)) \<noteq> None"
    using serve_snoc [OF f(1) [unfolded past_def] rcv, of "sock (threads p ! i)"] unfolding o(3)
    by (simp add: conn_of_def)
  then show ?thesis using f(2) own rcv by (auto simp: present_def section_of_def)
qed

lemma progress:
  assumes "good io new_stream attach detach realloc cs f0 p" and "all_defined io new_stream detach realloc cs f0" and "\<not> all_finished p"
  shows "\<exists>p'. pool_step io new_stream attach detach realloc p p'"
proof (cases "owner p")
  case None
  have ok: "pool_ok new_stream realloc cs p" using assms(1) by (simp add: good_def)
  obtain i where i: "i < length (threads p)" "\<And>out. pc (threads p ! i) \<noteq> Finished out"
    using assms(3) by (auto simp: all_finished_def in_set_conv_nth)
  have "(sock (threads p ! i), input (threads p ! i)) \<in> set cs" using ok i(1) by (auto simp: pool_ok_def)
  then have "after_receive (recv_loop realloc (input (threads p ! i)) Null 0) \<noteq> None"
    using assms(2) by (force simp: all_defined_def)
  moreover have "\<not> in_critical (pc (threads p ! i))" using ok i(1) None by (auto simp: pool_ok_def owner_ok_def)
  ultimately show ?thesis using outside_progress [OF None _ i(2)] pool_step.step [OF i(1)] by metis
next
  case (Some i)
  have o: "i < length (threads p)" "in_critical (pc (threads p ! i))"
    using owner_okD [OF _ Some] assms(1) by (auto simp: good_def pool_ok_def)
  then show ?thesis
    using critical_progress [OF o(2)] owner_defined [OF assms(1,2) Some] pool_step.step [OF o(1)] by metis
qed

text \<open>A step brings some thread nearer to its end, or the owner nearer to the end of its critical section.\<close>

lemma thread_step_decreases:
  assumes i: "i < length (threads p)" and st: "thread_step io new_stream attach detach realloc i p = Some p'"
    and own: "in_critical (pc (threads p ! i)) \<Longrightarrow> owner p = Some i" and d: "owner_dist io attach p k"
  shows "pool_weight p' < pool_weight p \<or> pool_weight p' = pool_weight p \<and> (\<exists>k' < k. owner_dist io attach p' k')"
proof (cases "\<not> in_critical (pc (threads p ! i)) \<or> (\<exists>out. pc (threads p ! i) = Unlocking out)")
  case True
  then show ?thesis using thread_step_weight [OF i st] by blast
next
  case False
  then obtain q g where c: "crit_step io (pc (threads p ! i)) (attach (shared p) (stream (threads p ! i))) = Some (q, g)"
    and p': "p' = p\<lparr>shared := detach g, threads := (threads p)[i := (threads p ! i)\<lparr>pc := q, stream := g\<rparr>]\<rparr>"
    using st by (auto simp: thread_step_critical)
  have "owner p = Some i" using own False by blast
  moreover from this have "crit_dist io (pc (threads p ! i)) (attach (shared p) (stream (threads p ! i))) k"
    using d by (simp add: owner_dist_def)
  then obtain k' where "k = Suc k'" "crit_dist io q g k'"
    using c False by (auto elim: crit_distE)
  moreover have "pool_weight p' = pool_weight p"
    using pool_weight_update [OF i, of p' "(threads p ! i)\<lparr>pc := q, stream := g\<rparr>"] crit_step_rest(2,3) [OF c]
    by (simp add: p' weight_critical)
  ultimately show ?thesis using i by (auto simp: p' owner_dist_def law_attach_detach)
qed

lemma owner_dist_exists:
  assumes "\<And>i. owner p = Some i \<Longrightarrow>
      \<exists>r. crit_rest io (pc (threads p ! i)) (attach (shared p) (stream (threads p ! i))) = Some r"
  shows "\<exists>k. owner_dist io attach p k"
  using assms crit_rest_dist by (cases "owner p") (fastforce simp: owner_dist_def)+

lemma finishes:
  assumes def: "all_defined io new_stream detach realloc cs f0"
    and "good io new_stream attach detach realloc cs f0 p"
  shows "inevitably (pool_step io new_stream attach detach realloc)
    (\<lambda>p. good io new_stream attach detach realloc cs f0 p \<and> all_finished p) p"
proof (rule inevitably_weight [where w = pool_weight and d = "owner_dist io attach"])
  fix x y k
  assume g: "good io new_stream attach detach realloc cs f0 x"
  show "\<exists>k. owner_dist io attach x k" using owner_dist_exists owner_defined [OF g def] by blast
  show "\<exists>y. pool_step io new_stream attach detach realloc x y" if "\<not> all_finished x" using progress [OF g def that] .
  assume "pool_step io new_stream attach detach realloc x y"
  then obtain i where i: "i < length (threads x)" "thread_step io new_stream attach detach realloc i x = Some y"
    by (auto elim: pool_stepE)
  show "good io new_stream attach detach realloc cs f0 y" using thread_step_good [OF g i] .
  have "owner x = Some i" if "in_critical (pc (threads x ! i))"
    using g i(1) that by (auto simp: good_def pool_ok_def owner_ok_def)
  then show "pool_weight y < pool_weight x \<or> pool_weight y = pool_weight x \<and> (\<exists>k' < k. owner_dist io attach y k')"
    if "owner_dist io attach x k" using thread_step_decreases [OF i _ that] by blast
qed (rule assms(2))

lemma start_finishes:
  assumes "all_defined io new_stream detach realloc cs f0"
  shows "inevitably (pool_step io new_stream attach detach realloc) (\<lambda>p. good io new_stream attach detach realloc cs f0 p \<and> all_finished p)
    (pool_start f0 detach cs)"
  by (rule finishes [OF assms start_good])

end

section \<open>The plain file\<close>

definition plain_new :: "char list \<Rightarrow> plain_file" where
  "plain_new bs = \<lparr>bytes = bs, offset = 0, wbuf = []\<rparr>"

definition plain_attach :: "char list \<Rightarrow> plain_file \<Rightarrow> plain_file" where
  "plain_attach bs f = f\<lparr>bytes := bs\<rparr>"

interpretation ps: shared_file plain_stdio plain_new plain_attach bytes
  by unfold_locales (simp_all add: plain_new_def plain_attach_def)

lemma plain_reopen_new: "(\<lambda>f. plain_new (bytes f)) = plain_reopen"
  by (simp add: fun_eq_iff plain_new_def plain_reopen_def)

lemma has_message_received:
  assumes "\<forall>n. realloc n"
  shows "has_message realloc chunks \<longleftrightarrow> received chunks \<noteq> []"
    and "after_receive (recv_loop realloc chunks Null 0) \<noteq> None"
  using recv_loop_message [of chunks realloc] assms first_line_nonempty [of "received chunks"]
  by (auto simp: has_message_def)

section \<open>Properties\<close>

text \<open>A step of a thread that does not hold the mutex leaves the file, the owner and the other threads alone.\<close>

lemma outside_step:
  assumes "thread_step io new_stream attach detach realloc j p = Some p'" and "\<not> in_critical (pc (threads p ! j))"
    and "owner p = Some i" and "j \<noteq> i"
  shows "shared p' = shared p \<and> owner p' = Some i \<and> threads p' ! i = threads p ! i"
  using assms by (cases "pc (threads p ! j)") (auto simp: thread_step_def Let_def Option.bind_eq_Some_conv)

text \<open>
  C16. Mutual exclusion, in every state that the threads can reach on a plain file: while a thread is between
  \<open>pthread_mutex_lock\<close> and \<open>pthread_mutex_unlock\<close>, it owns the mutex, no other thread is there, and a step of
  another thread leaves the file, the owner and the state of this thread unchanged.
\<close>

theorem threads_exclusive:
  assumes reach: "(pool_step plain_stdio plain_new plain_attach bytes realloc)\<^sup>*\<^sup>* (pool_start f0 bytes cs) p"
    and i: "i < length cs" "in_critical (pc (threads p ! i))"
    and j: "j < length cs" "j \<noteq> i"
  shows "owner p = Some i \<and> \<not> in_critical (pc (threads p ! j)) \<and>
    (\<forall>p'. thread_step plain_stdio plain_new plain_attach bytes realloc j p = Some p' \<longrightarrow>
       shared p' = shared p \<and> owner p' = Some i \<and> threads p' ! i = threads p ! i)"
proof -
  note g = ps.reachable_good [OF reach]
  then have len: "length (threads p) = length cs" and own: "owner p = Some i"
    using i by (auto simp: good_def pool_ok_def owner_ok_def)
  then have "\<not> in_critical (pc (threads p ! j))" using ps.good_exclusive [OF g] i j by metis
  then show ?thesis using outside_step own j(2) by blast
qed

lemma distinct_singleton: "distinct xs \<Longrightarrow> set xs = {x} \<Longrightarrow> xs = [x]"
  by (cases xs) (auto dest: distinct_card simp: subset_singleton_iff)

definition demo_pair :: "(int \<times> char list list) list" where
  "demo_pair = [(4, [''a'' @ [newline]]), (5, [])]"

lemma demo_pair_messages:
  "received (snd (demo_pair ! 0)) = ''a'' @ [newline]" "received (snd (demo_pair ! 1)) = []"
  "first_line [CHR ''a'', newline] = [CHR ''a'', newline]" "plain_message (snd (demo_pair ! 0))"
  by (simp_all add: demo_pair_def received_def first_line_def plain_message_def cstring_def NUL_def ioctlString_def)

lemma demo_pair_speaker: "{i. i < length demo_pair \<and> received (snd (demo_pair ! i)) \<noteq> []} = {0}"
  using demo_pair_messages by (auto simp: demo_pair_def less_Suc_eq)

theorem threads_exclusive_witness:
  "\<exists>p. (pool_step plain_stdio plain_new plain_attach bytes (\<lambda>_. True))\<^sup>*\<^sup>*
      (pool_start (plain_new []) bytes demo_pair) p \<and>
    in_critical (pc (threads p ! 0)) \<and> owner p = Some 0 \<and> \<not> in_critical (pc (threads p ! 1))"
proof -
  let ?step = "pool_step plain_stdio plain_new plain_attach bytes (\<lambda>_. True)"
  let ?thr = "thread_step plain_stdio plain_new plain_attach bytes (\<lambda>_. True) 0"
  let ?p0 = "pool_start (plain_new []) bytes demo_pair"
  obtain p1 where p1: "?thr ?p0 = Some p1" "threads p1 = (threads ?p0)[0 := (threads ?p0 ! 0)\<lparr>pc := Receiving\<rparr>]"
      "owner p1 = None"
    by (simp add: thread_step_def pool_start_def demo_pair_def plain_new_def)
  obtain p2 where p2: "?thr p1 = Some p2" "owner p2 = None"
      "threads p2 = (threads p1)[0 := (threads p1 ! 0)\<lparr>pc := Locking (''a'' @ [newline, NUL]) 2\<rparr>]"
    using p1 by (simp add: thread_step_def pool_start_def demo_pair_def)
  obtain p3 where p3: "?thr p2 = Some p3" "pc (threads p3 ! 0) = Deciding (''a'' @ [newline, NUL]) 2"
    using p1 p2 by (simp add: thread_step_def pool_start_def demo_pair_def)
  have "length (threads p1) = 2" "length (threads p2) = 2" using p1 p2 by (simp_all add: pool_start_def demo_pair_def)
  then have "?step ?p0 p1" "?step p1 p2" "?step p2 p3"
    using p1(1) p2(1) p3(1) by (auto intro!: pool_step.step simp: pool_start_def demo_pair_def)
  then have "?step\<^sup>*\<^sup>* ?p0 p3" by (meson rtranclp.rtrancl_into_rtrancl rtranclp.rtrancl_refl)
  then show ?thesis using threads_exclusive [of "\<lambda>_. True" "plain_new []" demo_pair p3 0 1] p3(2)
    by (auto simp: demo_pair_def)
qed

lemma serve_plain:
  assumes "\<forall>c \<in> set cs. plain_message (snd c)" and "\<forall>n. realloc n" and "wbuf f = []"
  shows "\<exists>f'. serve plain_stdio plain_reopen realloc cs f =
      Some (map (\<lambda>n. bytes f @ concat (take (Suc n) (map (\<lambda>c. first_line (received (snd c))) cs))) [0..<length cs], f') \<and>
    bytes f' = bytes f @ concat (map (\<lambda>c. first_line (received (snd c))) cs)"
proof -
  have after: "contents_after (@) bs ms = map (\<lambda>n. bs @ concat (take (Suc n) ms)) [0..<length ms]"
    and fold: "fold (\<lambda>m c. c @ m) ms bs = bs @ concat ms" for bs :: "char list" and ms
    by (induction ms arbitrary: bs) (simp_all add: map_upt_Suc del: upt_Suc)
  have fits: "fits_all (@) (\<lambda>_ _. True) bs ms" for bs :: "char list" and ms
    by (induction ms arbitrary: bs) simp_all
  show ?thesis using pf.serve_ok [OF assms(3,1,2)] fits by (auto simp: after fold)
qed

text \<open>
  The server on a plain file with concurrent connections: under any scheduler all threads return, and the
  client that was \<open>n\<close>-th to take \<open>file_mutex\<close> has got the old contents of the file and all lines up to and including
  its own; the file then holds all lines in this order, none lost, none twice and none torn apart.
\<close>

lemma plain_threads_answer:
  assumes re: "\<forall>n. realloc n" and f0: "wbuf f0 = []"
    and cs: "\<forall>c \<in> set cs. received (snd c) = [] \<or> plain_message (snd c)"
  shows "inevitably (pool_step plain_stdio plain_new plain_attach bytes realloc)
    (\<lambda>p. all_finished p \<and> distinct (order p) \<and>
       set (order p) = {i. i < length cs \<and> received (snd (cs ! i)) \<noteq> []} \<and>
       (let ms = map (\<lambda>i. first_line (received (snd (cs ! i)))) (order p) in
          map (reply_of p) (order p) = map (\<lambda>n. bytes f0 @ concat (take (Suc n) ms)) [0..<length ms] \<and>
          shared p = bytes f0 @ concat ms))
    (pool_start f0 bytes cs)"
proof -
  have pick: "\<forall>c \<in> set (map ((!) cs) js). plain_message (snd c)"
    if "set js \<subseteq> {i. i < length cs \<and> received (snd (cs ! i)) \<noteq> []}" for js
  proof
    fix c
    assume "c \<in> set (map ((!) cs) js)"
    then obtain j where "j \<in> set js" "c = cs ! j" by auto
    then show "plain_message (snd c)" using that cs by (auto simp: subset_eq)
  qed
  have "all_defined plain_stdio plain_new bytes realloc cs f0"
    using serve_plain [OF pick re f0] has_message_received [OF re]
    by (fastforce simp: all_defined_def plain_reopen_new)
  then show ?thesis
  proof (rule inevitably_mono [OF ps.start_finishes])
    fix p
    assume "good plain_stdio plain_new plain_attach bytes realloc cs f0 p \<and> all_finished p"
    then have g: "good plain_stdio plain_new plain_attach bytes realloc cs f0 p" and fin: "all_finished p" by auto
    note fd = ps.good_finished [OF g fin, unfolded plain_reopen_new has_message_received(1) [OF re]]
    let ?ms = "map (\<lambda>i. first_line (received (snd (cs ! i)))) (order p)"
    obtain f where "serve plain_stdio plain_reopen realloc (map ((!) cs) (order p)) f0 = Some (map (reply_of p) (order p), f)"
        "bytes f = shared p" using fd(3) by blast
    then have "map (reply_of p) (order p) = map (\<lambda>n. bytes f0 @ concat (take (Suc n) ?ms)) [0..<length ?ms]"
        "shared p = bytes f0 @ concat ?ms"
      using serve_plain [OF pick [OF equalityD1 [OF fd(2)]] re f0] by (simp_all add: comp_def)
    then show "all_finished p \<and> distinct (order p) \<and>
       set (order p) = {i. i < length cs \<and> received (snd (cs ! i)) \<noteq> []} \<and>
       (let ms = map (\<lambda>i. first_line (received (snd (cs ! i)))) (order p) in
          map (reply_of p) (order p) = map (\<lambda>n. bytes f0 @ concat (take (Suc n) ms)) [0..<length ms] \<and>
          shared p = bytes f0 @ concat ms)"
      using fin fd(1,2) by (simp only: Let_def simp_thms)
  qed
qed

lemma plain_threads_answer_witness:
  "inevitably (pool_step plain_stdio plain_new plain_attach bytes (\<lambda>_. True))
     (\<lambda>p. all_finished p \<and> reply_of p 0 = ''xa'' @ [newline] \<and> shared p = ''xa'' @ [newline])
     (pool_start (plain_new ''x'') bytes demo_pair)"
proof (rule inevitably_mono [OF plain_threads_answer])
  show "\<forall>c \<in> set demo_pair. received (snd c) = [] \<or> plain_message (snd c)"
    using demo_pair_messages by (simp add: demo_pair_def)
  show "all_finished p \<and> reply_of p 0 = ''xa'' @ [newline] \<and> shared p = ''xa'' @ [newline]"
    if "all_finished p \<and> distinct (order p) \<and>
       set (order p) = {i. i < length demo_pair \<and> received (snd (demo_pair ! i)) \<noteq> []} \<and>
       (let ms = map (\<lambda>i. first_line (received (snd (demo_pair ! i)))) (order p) in
          map (reply_of p) (order p) = map (\<lambda>n. bytes (plain_new ''x'') @ concat (take (Suc n) ms)) [0..<length ms] \<and>
          shared p = bytes (plain_new ''x'') @ concat ms)" for p
  proof -
    have "order p = [0]" 
      by (rule distinct_singleton) (use that in \<open>simp_all only: demo_pair_speaker\<close>)
    then show ?thesis using that by (simp add: demo_pair_messages plain_new_def)
  qed
qed (simp_all add: plain_new_def)

end
