(* ===== verification/Server_Device.thy ===== *)
theory Server_Device
  imports Server_Progress
begin

text \<open>
  The server on top of the driver (\<open>USE_AESD_CHAR_DEVICE\<close> 1): a C library stream whose system calls are the
  handlers of \<open>main.c\<close>. It satisfies the contract \<open>data_file\<close> as long as the device holds less than one
  stream buffer of data, which gives the reply of the server in terms of the last ten lines it received.
\<close>

section \<open>A stream on the device\<close>

text \<open>
  \<open>rbuf\<close> holds bytes that were read ahead, \<open>obuf\<close> bytes not yet written. The stream reads ahead \<open>blk\<close> bytes
  at a time and collects all output until it is flushed, as a library with a large enough output buffer does; a library
  with a smaller one would pass on a longer message in several writes. The system calls use the user memory from address 0 on.
\<close>

record dev_stream =
  fsys :: sys
  fpos :: loff_t
  rbuf :: "char list"
  obuf :: "char list"

definition dev_flush :: "kernel \<Rightarrow> dev_stream \<Rightarrow> dev_stream option" where
  "dev_flush k f =
     (if obuf f = [] then Some f
      else do {
        (r, fp, s) \<leftarrow> aesd_write k ((fsys f)\<lparr>user := write_user (user (fsys f)) 0 (obuf f)\<rparr>) 0
                        (of_nat (length (obuf f))) (fpos f);
        Some (f\<lparr>fsys := s, fpos := fp, obuf := []\<rparr>)
      })"

definition dev_rewind :: "kernel \<Rightarrow> dev_stream \<Rightarrow> dev_stream option" where
  "dev_rewind k f = do {
     f \<leftarrow> dev_flush k f;
     (r, fp, s) \<leftarrow> aesd_llseek k (fsys f) (fpos f) 0 0;
     Some (f\<lparr>fsys := s, fpos := fp, rbuf := []\<rparr>)
   }"

partial_function (option) dev_fread ::
  "kernel \<Rightarrow> size_t \<Rightarrow> nat \<Rightarrow> dev_stream \<Rightarrow> char list \<Rightarrow> (char list \<times> dev_stream) option" where
  "dev_fread k blk n f acc =
     (let want = n - length acc;
          acc = acc @ take want (rbuf f);
          f = f\<lparr>rbuf := drop want (rbuf f)\<rparr>
      in if length acc = n then Some (acc, f)
         else do {
           (r, fp, s) \<leftarrow> aesd_read k (fsys f) 0 blk (fpos f);
           let f = f\<lparr>fsys := s, fpos := fp\<rparr>;
           (case r of
              Inl err \<Rightarrow> Some (acc, f)
            | Inr m \<Rightarrow>
                if m = 0 then Some (acc, f)
                else dev_fread k blk n (f\<lparr>rbuf := read_user (user s) 0 (unat m)\<rparr>) acc)
         })"

text \<open>\<open>struct aesd_seekto\<close> in memory: two little-endian numbers of four bytes.\<close>

definition u32_bytes :: "u32 \<Rightarrow> char list" where
  "u32_bytes w = map char_of [unat w, unat w div 256, unat w div 256 div 256, unat w div 256 div 256 div 256]"

definition seekto_bytes :: "aesd_seekto \<Rightarrow> char list" where
  "seekto_bytes st = u32_bytes (write_cmd st) @ u32_bytes (write_cmd_offset st)"

definition dev_ioctl :: "kernel \<Rightarrow> aesd_seekto \<Rightarrow> dev_stream \<Rightarrow> (bool \<times> dev_stream) option" where
  "dev_ioctl k st f = do {
     (r, fp, s) \<leftarrow> aesd_ioctl k ((fsys f)\<lparr>user := write_user (user (fsys f)) 0 (seekto_bytes st)\<rparr>) (fpos f)
                     (AESDCHAR_IOCSEEKTO k) 0;
     Some (\<not> isl r, f\<lparr>fsys := s, fpos := fp\<rparr>)
   }"

definition dev_stdio :: "kernel \<Rightarrow> size_t \<Rightarrow> dev_stream stdio" where
  "dev_stdio k blk =
     \<lparr>fwrite = (\<lambda>bs f. Some (f\<lparr>obuf := obuf f @ bs\<rparr>)),
      fflush = dev_flush k,
      rewind = dev_rewind k,
      fread = (\<lambda>n f. dev_fread k blk n f []),
      ioctl_seekto = dev_ioctl k\<rparr>"

definition dev_reopen :: "dev_stream \<Rightarrow> dev_stream" where
  "dev_reopen f = \<lparr>fsys = fsys f, fpos = 0, rbuf = [], obuf = []\<rparr>"

definition dev_open :: "sys \<Rightarrow> dev_stream" where
  "dev_open s = \<lparr>fsys = s, fpos = 0, rbuf = [], obuf = []\<rparr>"

definition dev_attach :: "sys \<Rightarrow> dev_stream \<Rightarrow> dev_stream" where
  "dev_attach s f = f\<lparr>fsys := s\<rparr>"

text \<open>The streams of several threads on one device.\<close>

interpretation ds: shared_file "dev_stdio k blk" dev_open dev_attach fsys for k blk
  by unfold_locales (simp_all add: dev_open_def dev_attach_def)

lemma dev_reopen_open: "(\<lambda>f. dev_open (fsys f)) = dev_reopen"
  by (simp add: fun_eq_iff dev_open_def dev_reopen_def)

section \<open>What the stream relies on\<close>

text \<open>
  The kernel does not interrupt the thread, the user copies succeed, small allocations succeed while the
  driver holds few blocks, and \<open>copy_from_user\<close> of the seek structure reads the eight bytes.
\<close>

definition alloc_succeeds :: "kernel \<Rightarrow> bool" where
  "alloc_succeeds k \<longleftrightarrow> (\<forall>h n q. finite (dom h) \<longrightarrow> card (dom h) \<le> 11 \<longrightarrow> unat n \<le> 2 ^ 22 \<longrightarrow>
     kmalloc k h n \<noteq> None \<and> (h q \<noteq> None \<longrightarrow> krealloc k h q n \<noteq> None))"

definition seekto_copy_ok :: "kernel \<Rightarrow> bool" where
  "seekto_copy_ok k \<longleftrightarrow>
     (\<forall>u a st. copy_seekto_from_user k (write_user u a (seekto_bytes st)) a = (0, st))"

definition smooth_kernel :: "kernel \<Rightarrow> bool" where
  "smooth_kernel k \<longleftrightarrow>
     kernel_ok k \<and> llseek_ok k \<and> copy_never_fails k \<and> \<not> mutex_interrupted k \<and> alloc_succeeds k \<and>
     seekto_copy_ok k \<and> (\<forall>u a n. fst (copy_from_user k u a n) = 0)"

abbreviation dev_text :: "sys \<Rightarrow> char list" where
  "dev_text s \<equiv> concat (dev_cmds s)"

text \<open>The size field of the device, on which seeking depends, is at most $2^{32}$ for each line, so not negative.\<close>

definition size_bounded :: "sys \<Rightarrow> bool" where
  "size_bounded s \<longleftrightarrow> unat (dev_size (device s)) \<le> length (dev_cmds s) * 2 ^ 32"

text \<open>
  A stream between two calls, on a device in good order: nothing is leaked, the stored lines are fewer bytes than a block,
  and what was read ahead stands before the file position.
\<close>

definition stream_ok :: "kernel \<Rightarrow> size_t \<Rightarrow> dev_stream \<Rightarrow> bool" where
  "stream_ok k blk f \<longleftrightarrow>
     smooth_kernel k \<and> dev_wf (fsys f) \<and> \<not> lock (device (fsys f)) \<and> no_leak (fsys f) \<and> obuf f = [] \<and>
     size_bounded (fsys f) \<and> length (dev_text (fsys f)) < unat blk \<and> unat blk \<le> 2 ^ 31 \<and>
     unat (fpos f) \<le> length (dev_text (fsys f)) \<and> length (rbuf f) \<le> unat (fpos f) \<and>
     rbuf f = drop (unat (fpos f) - length (rbuf f)) (take (unat (fpos f)) (dev_text (fsys f)))"

definition stream_content :: "dev_stream \<Rightarrow> char list list \<times> char list" where
  "stream_content f = (dev_cmds (fsys f), dev_pending (fsys f))"

definition stream_pos :: "dev_stream \<Rightarrow> nat" where
  "stream_pos f = unat (fpos f) - length (rbuf f)"

definition stream_fresh :: "dev_stream \<Rightarrow> bool" where
  "stream_fresh f \<longleftrightarrow> fpos f = 0 \<and> rbuf f = []"

text \<open>
  A message that can be delivered: small enough, and when it completes a line that was begun before, fewer than ten lines
  are stored. (A line written in pieces to a full device lowers the size field by the length of its earlier pieces.)
\<close>

definition stream_fits :: "size_t \<Rightarrow> char list list \<times> char list \<Rightarrow> char list \<Rightarrow> bool" where
  "stream_fits blk c bs \<longleftrightarrow>
     length (concat (fst (spec_write c bs))) < unat blk \<and> length (snd c) + length bs \<le> 2 ^ 22 \<and>
     (snd c \<noteq> [] \<and> last bs = newline \<longrightarrow> length (fst c) < 10)"

section \<open>The contract\<close>

lemma sys_user [simp]:
  "size_bounded (s\<lparr>user := u\<rparr>) = size_bounded s" "no_leak (s\<lparr>user := u\<rparr>) = no_leak s" "dev_pending (s\<lparr>user := u\<rparr>) = dev_pending s"
  by (simp_all add: size_bounded_def no_leak_def owned_def dev_pending_def split: option.split)

lemma stream_okD:
  assumes "stream_ok k blk f"
  shows "kernel_ok k" "copy_never_fails k" "\<not> mutex_interrupted k" "dev_wf (fsys f)"
    "\<not> lock (device (fsys f))" "length (dev_text (fsys f)) < unat blk" "unat blk \<le> 2 ^ 31"
    "unat (fpos f) \<le> length (dev_text (fsys f))" "length (rbuf f) \<le> unat (fpos f)"
    "rbuf f = drop (stream_pos f) (take (unat (fpos f)) (dev_text (fsys f)))"
    "copy_to_user_ok k" "llseek_ok k" "no_leak (fsys f)" "obuf f = []" "size_bounded (fsys f)"
  using assms by (auto simp: stream_ok_def smooth_kernel_def stream_pos_def kernel_ok_def)

lemma few_blocks:
  assumes "dev_wf s" and "no_leak s"
  shows "finite (dom (heap s))" and "card (dom (heap s)) \<le> 11"
proof -
  let ?A = "(\<lambda>e. the (buffptr e)) ` set (cb_list (circular_buffer (device s)))"
  let ?B = "(\<lambda>e. the (buffptr e)) ` set_option (dev_entry (device s))"
  have sub: "dom (heap s) \<subseteq> ?A \<union> ?B"
    using assms(2) by (auto simp: no_leak_def owned_def image_iff) (metis option.sel)+
  have fin: "finite ?A" "finite ?B" by simp_all
  have "cb_count (circular_buffer (device s)) \<le> 10"
    using assms(1) cb_count_le by (simp add: dev_wf_def commands_wf_def)
  then have A: "card ?A \<le> 10"
    using card_image_le [of "set (cb_list (circular_buffer (device s)))" "\<lambda>e. the (buffptr e)"]
      card_length [of "cb_list (circular_buffer (device s))"] by (simp add: le_trans)
  have B: "card ?B \<le> 1" by (cases "dev_entry (device s)") simp_all
  show "finite (dom (heap s))" using finite_subset [OF sub] fin by simp
  have "card (dom (heap s)) \<le> card (?A \<union> ?B)" using card_mono [OF _ sub] fin by simp
  also have "\<dots> \<le> card ?A + card ?B" by (rule card_Un_le)
  finally show "card (dom (heap s)) \<le> 11" using A B by simp
qed

lemma write_succeeds:
  assumes "stream_ok k blk f" and "fsys f = s" and "length (dev_pending s) + unat count \<le> 2 ^ 22"
  shows "write_result k (s\<lparr>user := u\<rparr>) 0 count = Inr count"
proof -
  have wf: "dev_wf s" "no_leak s" using stream_okD [OF assms(1)] assms(2) by auto
  obtain e where e: "dev_entry (device s) = Some e" "pending_ok (heap s) e"
    using wf by (auto simp: dev_wf_def split: option.splits)
  then have len: "length (dev_pending s) = unat (esize e)"
    using pending_bytes_length by (simp add: dev_pending_def)
  have "unat (esize e + count) \<le> 2 ^ 22" "unat count \<le> 2 ^ 22"
    using assms(3) len by (auto simp: unat_size_add)
  moreover have "heap s p \<noteq> None" if "buffptr e = Some p" for p
    using e(2) that by (auto simp: pending_ok_def elim: entry_okE)
  ultimately have "aesd_write_alloc k (heap s) e count \<noteq> None"
    using assms(1) few_blocks [OF wf]
    by (cases "buffptr e") (auto simp: stream_ok_def smooth_kernel_def alloc_succeeds_def aesd_write_alloc_def)
  then show ?thesis
    using assms(1) e by (auto simp: write_result_def stream_ok_def smooth_kernel_def)
qed

text \<open>A write that fits keeps the size field within its bound.\<close>

lemma size_after_bounded:
  assumes wf: "dev_wf s" and sz: "size_bounded s" and bs: "bs \<noteq> []" "stream_fits blk (dev_cmds s, dev_pending s) bs"
    and s': "(dev_cmds s', dev_pending s') = spec_write (dev_cmds s, dev_pending s) bs"
      "dev_size (device s') = size_after s (dev_pending s @ bs) (of_nat (length bs))"
  shows "size_bounded s'"
proof -
  let ?n = "of_nat (length bs) :: size_t"
  have len: "length (dev_cmds s) \<le> 10"
    using wf cb_count_le by (simp add: dev_cmds_def dev_wf_def commands_wf_def)
  have n: "length bs \<le> 2 ^ 22" "unat ?n = length bs" using bs by (auto simp: stream_fits_def intro!: unat_size_of_nat)
  show ?thesis
  proof (cases "last bs = newline")
    case False
    then show ?thesis using s' sz bs(1) by (simp add: size_bounded_def size_after_def spec_write_def)
  next
    case True
    then have cmds: "dev_cmds s' = drop (Suc (length (dev_cmds s)) - 10) (dev_cmds s @ [dev_pending s @ bs])"
      using s'(1) bs(1) by (simp add: spec_write_def)
    show ?thesis
    proof (cases "length (dev_cmds s) = 10")
      case full: True
      then have "dev_pending s = []" using bs True by (auto simp: stream_fits_def)
      then have "dev_size (device s') = dev_size (device s)"
        using s'(2) True full full_cmds [OF wf] by (simp add: size_after_def)
      then show ?thesis using sz full cmds by (simp add: size_bounded_def)
    next
      case False
      then have "dev_size (device s') = dev_size (device s) + ?n"
        using s'(2) True full_cmds [OF wf] bs(1) by (simp add: size_after_def)
      moreover have "length (dev_cmds s) < 10" using len False by simp
      moreover from this have "unat (dev_size (device s)) \<le> 10 * 2 ^ 32" using sz by (simp add: size_bounded_def)
      then have "unat (dev_size (device s) + ?n) = unat (dev_size (device s)) + length bs"
        using n by (simp add: unat_size_add)
      ultimately show ?thesis using sz n(1) cmds by (simp add: size_bounded_def)
    qed
  qed
qed

lemma dev_flush_ok:
  assumes ok: "stream_ok k blk f" and bs: "bs \<noteq> []" and fit: "stream_fits blk (stream_content f) bs"
  shows "\<exists>s fp. dev_flush k (f\<lparr>obuf := bs\<rparr>) = Some (f\<lparr>fsys := s, fpos := fp, obuf := []\<rparr>) \<and>
      dev_wf s \<and> \<not> lock (device s) \<and> no_leak s \<and> size_bounded s \<and>
      (dev_cmds s, dev_pending s) = spec_write (stream_content f) bs"
proof -
  let ?s = "(fsys f)\<lparr>user := write_user (user (fsys f)) 0 bs\<rparr>" and ?n = "of_nat (length bs) :: size_t"
  note okD = stream_okD [OF ok]
  have len: "length (dev_pending (fsys f)) + length bs \<le> 2 ^ 22"
    using fit by (simp add: stream_fits_def stream_content_def)
  then have n: "unat ?n = length bs" by (intro unat_size_of_nat) simp
  have r: "write_result k ?s 0 ?n = Inr ?n"
    by (rule write_succeeds [OF ok refl]) (use len n in simp)
  have rd: "read_user (user ?s) 0 (unat ?n) = bs"
    using n len by (simp add: read_write_user)
  have "\<exists>s'. aesd_write k ?s 0 ?n (fpos f) = Some (Inr ?n, fpos f + ?n, s') \<and> dev_wf s' \<and>
      \<not> lock (device s') \<and> user s' = user ?s \<and>
      (dev_cmds s', dev_pending s') = spec_write (dev_cmds ?s, dev_pending ?s) (read_user (user ?s) 0 (unat ?n)) \<and>
      dev_size (device s') = size_after ?s (dev_pending ?s @ read_user (user ?s) 0 (unat ?n)) ?n \<and>
      (no_leak ?s \<longrightarrow> no_leak s')"
    by (rule write_success [OF okD(1) _ _ _ _ r refl]) (use okD n len bs in simp_all)
  then obtain s' where w: "aesd_write k ?s 0 ?n (fpos f) = Some (Inr ?n, fpos f + ?n, s')"
    and s': "dev_wf s'" "\<not> lock (device s')" "no_leak s'"
      "(dev_cmds s', dev_pending s') = spec_write (dev_cmds ?s, dev_pending ?s) bs"
      "dev_size (device s') = size_after ?s (dev_pending ?s @ bs) ?n"
    using okD(13) rd by auto
  have "size_bounded s'"
    by (rule size_after_bounded [OF _ _ bs _ s'(4,5)]) (use okD fit in \<open>simp_all add: stream_content_def size_bounded_def\<close>)
  have "dev_flush k (f\<lparr>obuf := bs\<rparr>) = Some (f\<lparr>fsys := s', fpos := fpos f + ?n, obuf := []\<rparr>)"
    using w bs by (simp add: dev_flush_def)
  with s' \<open>size_bounded s'\<close> show ?thesis by (auto simp: stream_content_def)
qed

lemma stream_ok_start:
  assumes "stream_ok k blk f" and "dev_wf s" and "\<not> lock (device s)" and "no_leak s" and "size_bounded s"
    and "length (dev_text s) < unat blk" and "unat p \<le> length (dev_text s)"
  shows "stream_ok k blk \<lparr>fsys = s, fpos = p, rbuf = [], obuf = []\<rparr>"
  using assms by (simp add: stream_ok_def)

lemma dev_write_ok:
  assumes ok: "stream_ok k blk f" and fr: "stream_fresh f" and bs: "bs \<noteq> []"
    and fit: "stream_fits blk (stream_content f) bs"
  shows "\<exists>f2 f3. dev_flush k (f\<lparr>obuf := bs\<rparr>) = Some f2 \<and> dev_rewind k f2 = Some f3 \<and>
      stream_ok k blk f3 \<and> stream_content f3 = spec_write (stream_content f) bs \<and> stream_pos f3 = 0"
proof -
  obtain s fp where fl: "dev_flush k (f\<lparr>obuf := bs\<rparr>) = Some (f\<lparr>fsys := s, fpos := fp, obuf := []\<rparr>)"
    and s: "dev_wf s" "\<not> lock (device s)" "no_leak s" "size_bounded s"
      "(dev_cmds s, dev_pending s) = spec_write (stream_content f) bs"
    using dev_flush_ok [OF ok bs fit] by blast
  let ?f2 = "f\<lparr>fsys := s, fpos := fp, obuf := []\<rparr>" and ?f3 = "\<lparr>fsys = s, fpos = 0, rbuf = [], obuf = []\<rparr>"
  have "unat (dev_size (device s)) < 2 ^ 63"
    using s(1,4) cb_count_le by (fastforce simp: size_bounded_def dev_cmds_def dev_wf_def commands_wf_def)
  then have "aesd_llseek k s fp 0 0 = Some (Inr 0, 0, s)"
    using llseek_within(1) [OF stream_okD(12,3) [OF ok] s(2)] by simp
  then have "dev_rewind k ?f2 = Some ?f3"
    by (cases f) (simp add: dev_rewind_def dev_flush_def)
  moreover have "dev_cmds s = fst (spec_write (stream_content f) bs)" using s(5) by (metis fst_conv)
  then have "stream_ok k blk ?f3"
    using fit by (intro stream_ok_start [OF ok s(1-4)]) (simp_all add: stream_fits_def)
  ultimately show ?thesis using fl s(5) by (auto simp: stream_content_def stream_pos_def)
qed

lemma stream_rest:
  assumes "stream_ok k blk f"
  shows "drop (stream_pos f) (dev_text (fsys f)) = rbuf f @ drop (unat (fpos f)) (dev_text (fsys f))"
    and "stream_pos f + length (rbuf f) = unat (fpos f)"
proof -
  note okD = stream_okD [OF assms]
  show "stream_pos f + length (rbuf f) = unat (fpos f)" using okD(9) by (simp add: stream_pos_def)
  then have "drop (stream_pos f) (take (unat (fpos f)) (dev_text (fsys f)) @ drop (unat (fpos f)) (dev_text (fsys f))) =
      rbuf f @ drop (unat (fpos f)) (dev_text (fsys f))"
    using okD(8,10) unfolding drop_append by simp
  then show "drop (stream_pos f) (dev_text (fsys f)) = rbuf f @ drop (unat (fpos f)) (dev_text (fsys f))"
    by simp
qed

text \<open>One system call reads all that is left, because the device holds less than a buffer.\<close>

lemma stream_read:
  assumes ok: "stream_ok k blk f" and bs: "bs = drop (unat (fpos f)) (dev_text (fsys f))"
  shows "aesd_read k (fsys f) 0 blk (fpos f) =
    Some (Inr (of_nat (length bs)), of_nat (length (dev_text (fsys f))),
          (fsys f)\<lparr>user := write_user (user (fsys f)) 0 bs\<rparr>)"
proof -
  note okD = stream_okD [OF ok]
  let ?t = "length (dev_text (fsys f))" and ?p = "unat (fpos f)"
  have "unat (fpos f + of_nat (?t - ?p)) = ?t"
    using okD(6-8) by (simp add: unat_size_add unat_size_of_nat)
  then have "fpos f + of_nat (?t - ?p) = of_nat ?t" by (rule size_eq_of_nat)
  then have "read_final (dev_cmds (fsys f)) (fpos f) blk 0 = of_nat ?t"
    using okD(6) by (simp add: read_final_def)
  moreover have "bs = take (unat blk) (drop ?p (dev_text (fsys f)))" using okD(6) bs by simp
  ultimately show ?thesis using read_ok [OF okD(11,2,3,4,5), of bs blk "fpos f" 0] by simp
qed

lemma stream_ok_advance:
  assumes "stream_ok k blk f" and "m \<le> length (rbuf f)"
  shows "stream_ok k blk (f\<lparr>rbuf := drop m (rbuf f)\<rparr>)" and "stream_pos (f\<lparr>rbuf := drop m (rbuf f)\<rparr>) = stream_pos f + m"
proof -
  note okD = stream_okD [OF assms(1)]
  show p: "stream_pos (f\<lparr>rbuf := drop m (rbuf f)\<rparr>) = stream_pos f + m"
    using assms(2) okD(9) by (simp add: stream_pos_def)
  have "drop m (rbuf f) = drop (stream_pos f + m) (take (unat (fpos f)) (dev_text (fsys f)))"
    by (subst okD(10)) (simp add: add.commute)
  moreover have "length (rbuf f) - m \<le> unat (fpos f)" using okD(9) by simp
  ultimately show "stream_ok k blk (f\<lparr>rbuf := drop m (rbuf f)\<rparr>)"
    using assms(1) p by (simp add: stream_ok_def stream_pos_def)
qed

lemma stream_ok_refill:
  assumes "stream_ok k blk f" and "bs = drop (unat (fpos f)) (dev_text (fsys f))"
    and "f' = f\<lparr>fsys := (fsys f)\<lparr>user := u\<rparr>, fpos := of_nat (length (dev_text (fsys f))), rbuf := bs\<rparr>"
  shows "stream_ok k blk f'" and "stream_pos f' = unat (fpos f)" and "stream_content f' = stream_content f"
    and "unat (fpos f') = length (dev_text (fsys f'))" and "dev_text (fsys f') = dev_text (fsys f)"
proof -
  note okD = stream_okD [OF assms(1)]
  have t: "unat (of_nat (length (dev_text (fsys f))) :: size_t) = length (dev_text (fsys f))"
    using okD(6,7) by (intro unat_size_of_nat) simp
  show p: "stream_pos f' = unat (fpos f)" using okD(8) t assms by (simp add: stream_pos_def)
  then show "stream_ok k blk f'"
    using assms(1) t okD(8) by (simp add: stream_ok_def assms(2,3))
  show "stream_content f' = stream_content f" "unat (fpos f') = length (dev_text (fsys f'))"
    "dev_text (fsys f') = dev_text (fsys f)" using t by (simp_all add: stream_content_def assms(3))
qed

text \<open>Reading when the buffered bytes are enough, or the device has no more.\<close>

lemma fread_buffered:
  assumes ok: "stream_ok k blk f" and n: "length acc < n" and out: "out = take (n - length acc) (drop (stream_pos f) (dev_text (fsys f)))"
    and enough: "n - length acc \<le> length (rbuf f) \<or> unat (fpos f) = length (dev_text (fsys f))"
  shows "\<exists>f'. dev_fread k blk n f acc = Some (acc @ out, f') \<and>
      stream_ok k blk f' \<and> stream_content f' = stream_content f \<and> stream_pos f' = stream_pos f + length out"
proof (cases "n - length acc \<le> length (rbuf f)")
  case True
  let ?f = "f\<lparr>rbuf := drop (n - length acc) (rbuf f)\<rparr>"
  have "out = take (n - length acc) (rbuf f)" using True stream_rest(1) [OF ok] out by simp
  moreover from this have "length (acc @ out) = n" using True n by simp
  ultimately have "dev_fread k blk n f acc = Some (acc @ out, ?f)"
    by (subst dev_fread.simps) (simp add: Let_def)
  moreover have "length out = n - length acc" using \<open>length (acc @ out) = n\<close> by simp
  ultimately show ?thesis
    using stream_ok_advance [OF ok True] by (simp add: stream_content_def)
next
  case False
  then have e: "unat (fpos f) = length (dev_text (fsys f))" using enough by simp
  have lt: "length acc + length (rbuf f) < n" using False by simp
  let ?f = "f\<lparr>rbuf := drop (length (rbuf f)) (rbuf f)\<rparr>"
  have o: "out = rbuf f" using False stream_rest(1) [OF ok] out e by simp
  note f1 = stream_ok_advance [OF ok order_refl]
  have rd: "aesd_read k (fsys f) 0 blk (fpos f) =
      Some (Inr 0, of_nat (length (dev_text (fsys f))), (fsys f)\<lparr>user := write_user (user (fsys f)) 0 []\<rparr>)"
    using stream_read [OF ok refl] e by simp
  let ?f' = "?f\<lparr>fsys := (fsys ?f)\<lparr>user := write_user (user (fsys f)) 0 []\<rparr>,
      fpos := of_nat (length (dev_text (fsys ?f))), rbuf := []\<rparr>"
  note f2 = stream_ok_refill [OF f1(1) _ refl, of "[]" "write_user (user (fsys f)) 0 []"]
  have "dev_fread k blk n f acc = Some (acc @ out, ?f')"
    using rd o lt by (subst dev_fread.simps) (cases f, simp add: Let_def)
  then show ?thesis using f2 f1(2) e o stream_rest(2) [OF ok] by (simp add: stream_content_def)
qed

lemma dev_fread_ok:
  assumes ok: "stream_ok k blk f" and n: "0 < n" and out: "out = take n (drop (stream_pos f) (dev_text (fsys f)))"
  shows "\<exists>f'. dev_fread k blk n f [] = Some (out, f') \<and>
      stream_ok k blk f' \<and> stream_content f' = stream_content f \<and> stream_pos f' = stream_pos f + length out"
proof (cases "n \<le> length (rbuf f) \<or> unat (fpos f) = length (dev_text (fsys f))")
  case True
  then show ?thesis using fread_buffered [OF ok, of "[]" n out] n out by simp
next
  case False
  note okD = stream_okD [OF ok]
  define bs where "bs = drop (unat (fpos f)) (dev_text (fsys f))"
  define f1 where "f1 = f\<lparr>fsys := (fsys f)\<lparr>user := write_user (user (fsys f)) 0 bs\<rparr>,
      fpos := of_nat (length (dev_text (fsys f))), rbuf := bs\<rparr>"
  note f1 = stream_ok_refill [OF ok bs_def f1_def]
  have len: "bs \<noteq> []" "length bs \<le> 2 ^ 31" using False okD(6-8) by (auto simp: bs_def)
  have bs1: "unat (of_nat (length bs) :: size_t) = length bs" using len by (intro unat_size_of_nat) simp
  then have bs': "unat (of_nat (length bs) :: size_t) = length bs" "of_nat (length bs) \<noteq> (0 :: size_t)"
    using len(1) by (simp, metis bs1 length_0_conv unat_0)
  have "dev_fread k blk n f [] = dev_fread k blk n f1 (rbuf f)"
    using False stream_read [OF ok bs_def] bs' len
    by (subst dev_fread.simps) (simp add: Let_def f1_def read_write_user)
  moreover have "out = rbuf f @ take (n - length (rbuf f)) (drop (stream_pos f1) (dev_text (fsys f1)))"
    using out stream_rest(1) [OF ok] False by (simp add: f1(2,5))
  ultimately show ?thesis
    using fread_buffered [OF f1(1), of "rbuf f" n, OF _ refl] f1(2,3,4) False stream_rest(2) [OF ok]
    by (auto simp: add.assoc)
qed

lemma dev_ioctl_ok:
  assumes ok: "stream_ok k blk f" and fr: "stream_fresh f"
  shows "\<exists>b f'. dev_ioctl k st f = Some (b, f') \<and> stream_ok k blk f' \<and> stream_content f' = stream_content f \<and>
      stream_pos f' = (case spec_seek (fst (stream_content f)) (unat (write_cmd st)) (unat (write_cmd_offset st)) of
                         Some p \<Rightarrow> p | None \<Rightarrow> 0)"
proof -
  let ?s = "(fsys f)\<lparr>user := write_user (user (fsys f)) 0 (seekto_bytes st)\<rparr>"
  let ?p = "spec_seek (dev_cmds (fsys f)) (unat (write_cmd st)) (unat (write_cmd_offset st))"
  note okD = stream_okD [OF ok]
  have cp: "copy_seekto_from_user k (user ?s) 0 = (0, st)"
    using ok by (simp add: stream_ok_def smooth_kernel_def seekto_copy_ok_def)
  define fp where "fp = (case ?p of Some p \<Rightarrow> of_nat p | None \<Rightarrow> fpos f)"
  have le: "p < length (dev_text (fsys f))" if "?p = Some p" for p using spec_seek_drop(2) [OF that] .
  then have fp: "unat fp = (case ?p of Some p \<Rightarrow> p | None \<Rightarrow> 0)" "unat fp \<le> length (dev_text (fsys f))"
    using okD(6,7) fr by (auto simp: fp_def stream_fresh_def unat_size_of_nat split: option.split)
  have "\<exists>r. aesd_ioctl k ?s (fpos f) (AESDCHAR_IOCSEEKTO k) 0 = Some (r, fp, ?s)"
    using ioctl_ok [of ?s k "fpos f" "AESDCHAR_IOCSEEKTO k" 0] okD(3,4,5) cp
    by (simp add: fp_def split: option.split)
  then obtain b where io: "dev_ioctl k st f = Some (b, \<lparr>fsys = ?s, fpos = fp, rbuf = [], obuf = []\<rparr>)"
    using fr okD(14) by (cases f) (auto simp: dev_ioctl_def stream_fresh_def)
  have "stream_ok k blk \<lparr>fsys = ?s, fpos = fp, rbuf = [], obuf = []\<rparr>"
    using okD fp(2) by (intro stream_ok_start [OF ok]) simp_all
  then show ?thesis using io fp(1) by (simp add: stream_content_def stream_pos_def)
qed

interpretation dv: data_file "dev_stdio k blk" "stream_ok k blk" stream_content "\<lambda>c. concat (fst c)" spec_write
    "\<lambda>c. spec_seek (fst c)" stream_pos stream_fresh "stream_fits blk" dev_reopen
proof
  fix f
  assume ok: "stream_ok k blk f"
  note okD = stream_okD [OF ok]
  show "stream_ok k blk (dev_reopen f) \<and> stream_content (dev_reopen f) = stream_content f \<and>
      stream_fresh (dev_reopen f)"
    using stream_ok_start [OF ok okD(4,5,13,15,6), of 0]
    by (simp add: dev_reopen_def stream_content_def stream_fresh_def)
  show "\<exists>f1 f2 f3. fwrite (dev_stdio k blk) bs f = Some f1 \<and> fflush (dev_stdio k blk) f1 = Some f2 \<and>
      rewind (dev_stdio k blk) f2 = Some f3 \<and> stream_ok k blk f3 \<and>
      stream_content f3 = spec_write (stream_content f) bs \<and> stream_pos f3 = 0"
    if "stream_fresh f" "bs \<noteq> []" "stream_fits blk (stream_content f) bs" for bs
    using dev_write_ok [OF ok that] okD(14) by (simp add: dev_stdio_def)
  show "\<exists>bs f'. fread (dev_stdio k blk) n f = Some (bs, f') \<and>
      bs = take n (drop (stream_pos f) (concat (fst (stream_content f)))) \<and> stream_ok k blk f' \<and>
      stream_content f' = stream_content f \<and> stream_pos f' = stream_pos f + length bs"
    if "0 < n" for n
    using dev_fread_ok [OF ok that refl] by (simp add: dev_stdio_def stream_content_def)
  show "\<exists>b f'. ioctl_seekto (dev_stdio k blk) st f = Some (b, f') \<and> stream_ok k blk f' \<and>
      stream_content f' = stream_content f \<and>
      stream_pos f' = (case spec_seek (fst (stream_content f)) (unat (write_cmd st)) (unat (write_cmd_offset st)) of
                         Some p \<Rightarrow> p | None \<Rightarrow> 0)"
    if "stream_fresh f" for st
    using dev_ioctl_ok [OF ok that] by (simp add: dev_stdio_def)
qed

section \<open>A kernel that satisfies the assumptions\<close>

definition u32_of_bytes :: "char list \<Rightarrow> u32" where
  "u32_of_bytes bs =
     of_nat (of_char (bs ! 0) + 256 * (of_char (bs ! 1) + 256 * (of_char (bs ! 2) + 256 * of_char (bs ! 3))))"

definition smooth_demo :: kernel where
  "smooth_demo = demo_kernel\<lparr>copy_seekto_from_user := (\<lambda>u a.
     (0, \<lparr>write_cmd = u32_of_bytes (read_user u a 4),
          write_cmd_offset = u32_of_bytes (drop 4 (read_user u a 8))\<rparr>))\<rparr>"

lemma u32_roundtrip: "u32_of_bytes (u32_bytes w) = w"
proof -
  let ?n = "unat w"
  have "?n < 2 ^ 32" using unsigned_less [of w, where ?'a = nat] by simp
  then have "?n div 256 div 256 div 256 < 256" by (simp flip: div_mult2_eq)
  then have "?n mod 256 + 256 * (?n div 256 mod 256 + 256 * (?n div 256 div 256 mod 256 +
      256 * (?n div 256 div 256 div 256 mod 256))) = ?n"
    by (simp add: mod_less)
  then show ?thesis by (simp add: u32_of_bytes_def u32_bytes_def)
qed

lemma read_write_user_at:
  assumes "n \<le> length d" and "length d \<le> 2 ^ 31"
  shows "read_user (write_user u a d) a n = take n d"
  using assms by (intro nth_equalityI) (simp_all add: read_user_def write_user_def unat_size_of_nat)

lemma pool_has_room:
  assumes "finite (dom h)" and "card (dom h) \<le> 11"
  shows "\<exists>p ps. filter (\<lambda>p. h p = None) [0..<16] = p # ps"
proof (rule ccontr)
  assume "\<not> ?thesis"
  then have "filter (\<lambda>p. h p = None) [0..<16] = []" by (meson neq_Nil_conv)
  then have "\<forall>p \<in> set [0..<16]. h p \<noteq> None" unfolding filter_empty_conv by simp
  then have "{0..<16} \<subseteq> dom h" by auto
  then have "card {0..<16 :: nat} \<le> card (dom h)" using card_mono [OF assms(1)] by blast
  then show False using assms(2) by simp
qed

lemma smooth_demo_ok: "smooth_kernel smooth_demo"
proof -
  have "kernel_ok smooth_demo" "llseek_ok smooth_demo" "copy_never_fails smooth_demo"
    "\<not> mutex_interrupted smooth_demo" "\<forall>u a n. fst (copy_from_user smooth_demo u a n) = 0"
    using demo_kernel_ok demo_llseek_ok demo_never_fails
    by (simp_all add: smooth_demo_def kernel_ok_def kmalloc_ok_def krealloc_ok_def copy_from_user_ok_def
        copy_to_user_ok_def copy_never_fails_def llseek_ok_def) (simp add: demo_kernel_def)
  moreover have "alloc_succeeds smooth_demo"
    using pool_has_room
    by (fastforce simp: alloc_succeeds_def smooth_demo_def demo_kernel_def pool_malloc_def pool_realloc_def)
  moreover have "seekto_copy_ok smooth_demo"
  proof -
    have "length (seekto_bytes st) = 8" "take 4 (seekto_bytes st) = u32_bytes (write_cmd st)"
      "drop 4 (seekto_bytes st) = u32_bytes (write_cmd_offset st)" for st
      by (simp_all add: seekto_bytes_def u32_bytes_def)
    then show ?thesis
      by (simp add: seekto_copy_ok_def smooth_demo_def read_write_user_at u32_roundtrip)
  qed
  ultimately show ?thesis by (simp add: smooth_kernel_def)
qed

section \<open>Lines on the device\<close>

text \<open>What the device holds after lines have been delivered to an empty one.\<close>

lemma lines_after:
  assumes "\<forall>m \<in> set ms. m \<noteq> [] \<and> last m = newline"
  shows "contents_after spec_write (drop (length cs - 10) cs, []) ms =
    map (\<lambda>i. (drop (length cs + Suc i - 10) (cs @ take (Suc i) ms), [])) [0..<length ms]"
  using assms
proof (induction ms arbitrary: cs)
  case Nil
  then show ?case by simp
next
  case (Cons m ms)
  have "spec_write (drop (length cs - 10) cs, []) m = (drop (length (cs @ [m]) - 10) (cs @ [m]), [])"
    using Cons.prems drop_drop_last [of cs 10 m] by (simp add: spec_write_def)
  then show ?case
    using Cons.IH [of "cs @ [m]"] Cons.prems by (simp add: map_upt_Suc del: upt_Suc)
qed

lemma fits_all_contents:
  assumes "\<forall>c \<in> set (contents_after spec_write c0 ms). length (concat (fst c)) < unat blk \<and> snd c = []"
    and "snd c0 = []" and "\<forall>m \<in> set ms. length m \<le> 2 ^ 22"
  shows "fits_all spec_write (stream_fits blk) c0 ms"
  using assms
  by (induction ms arbitrary: c0) (auto simp: stream_fits_def)

end
