(* ===== verification/SList.thy ===== *)
theory SList
  imports Aesd_Prelude
begin

text \<open>
  The singly-linked list macros of \<open>server/queue.h\<close> over an explicit heap of link fields. \<open>links\<close> maps
  the address of an allocated element to its \<open>sle_next\<close> field; an access through \<open>NULL\<close> or to a freed
  element has no result. \<open>slist\<close> relates a first pointer to the list of element addresses; for each macro
  there is a lemma on this abstraction. The contract that a client of the list relies on is the locale
  \<open>linked_bag\<close>, interpreted on the macros at the end.
\<close>

section \<open>The macros\<close>

type_synonym links = "addr \<rightharpoonup> addr option"

record slist_head =
  slh_first :: "addr option"

definition SLIST_HEAD_INITIALIZER :: slist_head where
  "SLIST_HEAD_INITIALIZER = \<lparr>slh_first = None\<rparr>"

definition SLIST_FIRST :: "slist_head \<Rightarrow> addr option" where
  [simp]: "SLIST_FIRST head = slh_first head"

definition SLIST_EMPTY :: "slist_head \<Rightarrow> bool" where
  [simp]: "SLIST_EMPTY head \<longleftrightarrow> slh_first head = None"

definition SLIST_NEXT :: "links \<Rightarrow> addr option \<Rightarrow> addr option option" where
  "SLIST_NEXT h elm = do { a \<leftarrow> elm; h a }"

definition set_next :: "links \<Rightarrow> addr option \<Rightarrow> addr option \<Rightarrow> links option" where
  "set_next h elm v = do { a \<leftarrow> elm; ensure (h a \<noteq> None); Some (h(a \<mapsto> v)) }"

definition SLIST_INIT :: "slist_head \<Rightarrow> slist_head" where
  "SLIST_INIT head = head\<lparr>slh_first := None\<rparr>"

definition SLIST_INSERT_AFTER :: "links \<Rightarrow> addr option \<Rightarrow> addr option \<Rightarrow> links option" where
  "SLIST_INSERT_AFTER h slistelm elm = do {
     n \<leftarrow> SLIST_NEXT h slistelm;
     h \<leftarrow> set_next h elm n;
     set_next h slistelm elm
   }"

definition SLIST_INSERT_HEAD :: "links \<Rightarrow> slist_head \<Rightarrow> addr option \<Rightarrow> (links \<times> slist_head) option" where
  "SLIST_INSERT_HEAD h head elm = do {
     h \<leftarrow> set_next h elm (SLIST_FIRST head);
     Some (h, head\<lparr>slh_first := elm\<rparr>)
   }"

definition SLIST_REMOVE_AFTER :: "links \<Rightarrow> addr option \<Rightarrow> links option" where
  "SLIST_REMOVE_AFTER h elm = do {
     n \<leftarrow> SLIST_NEXT h elm;
     m \<leftarrow> SLIST_NEXT h n;
     set_next h elm m
   }"

definition SLIST_REMOVE_HEAD :: "links \<Rightarrow> slist_head \<Rightarrow> slist_head option" where
  "SLIST_REMOVE_HEAD h head = do {
     n \<leftarrow> SLIST_NEXT h (SLIST_FIRST head);
     Some (head\<lparr>slh_first := n\<rparr>)
   }"

text \<open>The search loop of \<open>SLIST_REMOVE\<close>: the element whose next element is \<open>elm\<close>.\<close>

partial_function (option) slist_remove_loop :: "links \<Rightarrow> addr option \<Rightarrow> addr option \<Rightarrow> addr option option" where
  "slist_remove_loop h curelm elm = do {
     n \<leftarrow> SLIST_NEXT h curelm;
     if n \<noteq> elm then slist_remove_loop h n elm else Some curelm
   }"

definition SLIST_REMOVE :: "links \<Rightarrow> slist_head \<Rightarrow> addr option \<Rightarrow> (links \<times> slist_head) option" where
  "SLIST_REMOVE h head elm =
     (if SLIST_FIRST head = elm then do {
        head \<leftarrow> SLIST_REMOVE_HEAD h head;
        Some (h, head)
      }
      else do {
        curelm \<leftarrow> slist_remove_loop h (SLIST_FIRST head) elm;
        h \<leftarrow> SLIST_REMOVE_AFTER h curelm;
        Some (h, head)
      })"

text \<open>The last element, as the loop of \<open>SLIST_CONCAT\<close> finds it.\<close>

partial_function (option) slist_last_loop :: "links \<Rightarrow> addr option \<Rightarrow> addr option option" where
  "slist_last_loop h curelm = do {
     n \<leftarrow> SLIST_NEXT h curelm;
     if n \<noteq> None then slist_last_loop h n else Some curelm
   }"

definition SLIST_CONCAT :: "links \<Rightarrow> slist_head \<Rightarrow> slist_head \<Rightarrow> (links \<times> slist_head \<times> slist_head) option" where
  "SLIST_CONCAT h head1 head2 = do {
     let curelm = SLIST_FIRST head1;
     if curelm = None then do {
       let head1 = head1\<lparr>slh_first := SLIST_FIRST head2\<rparr>;
       Some (h, head1, if SLIST_FIRST head1 \<noteq> None then SLIST_INIT head2 else head2)
     }
     else if SLIST_FIRST head2 \<noteq> None then do {
       curelm \<leftarrow> slist_last_loop h curelm;
       h \<leftarrow> set_next h curelm (SLIST_FIRST head2);
       Some (h, head1, SLIST_INIT head2)
     }
     else Some (h, head1, head2)
   }"

definition SLIST_SWAP :: "slist_head \<Rightarrow> slist_head \<Rightarrow> slist_head \<times> slist_head" where
  "SLIST_SWAP head1 head2 =
     (let swap_first = SLIST_FIRST head1 in
      (head1\<lparr>slh_first := SLIST_FIRST head2\<rparr>, head2\<lparr>slh_first := swap_first\<rparr>))"

text \<open>
  The iteration macros. The body is a step on a state \<open>'s\<close> that holds the links, read by \<open>get\<close>: the body
  may change them. \<open>SLIST_FOREACH\<close> reads the next pointer after the body, \<open>SLIST_FOREACH_SAFE\<close> before it.
\<close>

partial_function (option) slist_foreach_loop ::
  "('s \<Rightarrow> links) \<Rightarrow> (addr \<Rightarrow> 's \<Rightarrow> 's option) \<Rightarrow> addr option \<Rightarrow> 's \<Rightarrow> 's option" where
  "slist_foreach_loop get body var s =
     (case var of
        None \<Rightarrow> Some s
      | Some a \<Rightarrow> do {
          s \<leftarrow> body a s;
          n \<leftarrow> SLIST_NEXT (get s) var;
          slist_foreach_loop get body n s
        })"

definition SLIST_FOREACH :: "('s \<Rightarrow> links) \<Rightarrow> (addr \<Rightarrow> 's \<Rightarrow> 's option) \<Rightarrow> slist_head \<Rightarrow> 's \<Rightarrow> 's option" where
  "SLIST_FOREACH get body head s = slist_foreach_loop get body (SLIST_FIRST head) s"

definition SLIST_FOREACH_FROM ::
  "('s \<Rightarrow> links) \<Rightarrow> (addr \<Rightarrow> 's \<Rightarrow> 's option) \<Rightarrow> addr option \<Rightarrow> slist_head \<Rightarrow> 's \<Rightarrow> 's option" where
  "SLIST_FOREACH_FROM get body var head s =
     slist_foreach_loop get body (if var \<noteq> None then var else SLIST_FIRST head) s"

partial_function (option) slist_foreach_safe_loop ::
  "('s \<Rightarrow> links) \<Rightarrow> (addr \<Rightarrow> 's \<Rightarrow> 's option) \<Rightarrow> addr option \<Rightarrow> 's \<Rightarrow> 's option" where
  "slist_foreach_safe_loop get body var s =
     (case var of
        None \<Rightarrow> Some s
      | Some a \<Rightarrow> do {
          tvar \<leftarrow> SLIST_NEXT (get s) var;
          s \<leftarrow> body a s;
          slist_foreach_safe_loop get body tvar s
        })"

definition SLIST_FOREACH_SAFE :: "('s \<Rightarrow> links) \<Rightarrow> (addr \<Rightarrow> 's \<Rightarrow> 's option) \<Rightarrow> slist_head \<Rightarrow> 's \<Rightarrow> 's option" where
  "SLIST_FOREACH_SAFE get body head s = slist_foreach_safe_loop get body (SLIST_FIRST head) s"

definition SLIST_FOREACH_FROM_SAFE ::
  "('s \<Rightarrow> links) \<Rightarrow> (addr \<Rightarrow> 's \<Rightarrow> 's option) \<Rightarrow> addr option \<Rightarrow> slist_head \<Rightarrow> 's \<Rightarrow> 's option" where
  "SLIST_FOREACH_FROM_SAFE get body var head s =
     slist_foreach_safe_loop get body (if var \<noteq> None then var else SLIST_FIRST head) s"

section \<open>Abstraction\<close>

fun slist :: "links \<Rightarrow> addr option \<Rightarrow> addr list \<Rightarrow> bool" where
  "slist h p [] \<longleftrightarrow> p = None"
| "slist h p (x # xs) \<longleftrightarrow> p = Some x \<and> (case h x of None \<Rightarrow> False | Some n \<Rightarrow> slist h n xs)"

lemma slist_None [simp]: "slist h None xs \<longleftrightarrow> xs = []"
  by (cases xs) auto

lemma slist_Some: "slist h (Some x) xs \<longleftrightarrow> (\<exists>n ys. xs = x # ys \<and> h x = Some n \<and> slist h n ys)"
  by (cases xs) (auto split: option.splits)

lemma slist_Cons: "slist h p (x # xs) \<longleftrightarrow> p = Some x \<and> (\<exists>n. h x = Some n \<and> slist h n xs)"
  by (auto split: option.splits)

lemma slist_nonempty: "slist h p xs \<Longrightarrow> xs \<noteq> [] \<Longrightarrow> \<exists>x. p = Some x"
  by (cases xs) auto

lemma slist_unique: "slist h p xs \<Longrightarrow> slist h p ys \<Longrightarrow> xs = ys"
  by (induction xs arbitrary: p ys) (auto simp: slist_Some split: option.splits)

lemma slist_allocated: "slist h p xs \<Longrightarrow> x \<in> set xs \<Longrightarrow> h x \<noteq> None"
  by (induction xs arbitrary: p) (auto split: option.splits)

lemma slist_frame: "slist h p xs \<Longrightarrow> (\<And>x. x \<in> set xs \<Longrightarrow> h' x = h x) \<Longrightarrow> slist h' p xs"
  by (induction xs arbitrary: p) (auto split: option.splits)

lemma slist_update [simp]: "x \<notin> set xs \<Longrightarrow> slist (h(x := v)) p xs = slist h p xs"
  by (auto intro: slist_frame)


text \<open>A list reached through link fields has no element twice.\<close>

lemma slist_suffix: "slist h p (xs @ ys) \<Longrightarrow> \<exists>q. slist h q ys"
  by (induction xs arbitrary: p) (auto split: option.splits)

lemma slist_not_in_tail: "slist h (Some x) (x # xs) \<Longrightarrow> x \<notin> set xs"
proof
  assume s: "slist h (Some x) (x # xs)" and "x \<in> set xs"
  then obtain ys zs where xs: "xs = ys @ x # zs" by (meson split_list)
  then obtain q where "slist h q (x # zs)" using s slist_suffix [of h "Some x" "x # ys" "x # zs"] by auto
  then have "slist h (Some x) (x # zs)" by auto
  then show False using slist_unique [OF s] xs by (metis append_Cons length_append length_Cons
      lessI less_add_Suc2 list.inject nat_less_le not_add_less2)
qed

lemma slist_distinct: "slist h p xs \<Longrightarrow> distinct xs"
proof (induction xs arbitrary: p)
  case (Cons x xs)
  then show ?case using slist_not_in_tail [of h x xs] by (auto split: option.splits)
qed simp

section \<open>The macros on the abstraction\<close>

lemma SLIST_NEXT_simps [simp]: "SLIST_NEXT h None = None" "SLIST_NEXT h (Some a) = h a"
  by (simp_all add: SLIST_NEXT_def)

lemma set_next_simps [simp]:
  "set_next h None v = None" "h a \<noteq> None \<Longrightarrow> set_next h (Some a) v = Some (h(a \<mapsto> v))"
  by (simp_all add: set_next_def)

lemma slist_insert_head:
  assumes "slist h (slh_first head) xs" and "h a \<noteq> None" and "a \<notin> set xs"
  shows "SLIST_INSERT_HEAD h head (Some a) = Some (h(a \<mapsto> slh_first head), head\<lparr>slh_first := Some a\<rparr>)"
    and "slist (h(a \<mapsto> slh_first head)) (Some a) (a # xs)"
  using assms by (simp_all add: SLIST_INSERT_HEAD_def)

lemma slist_insert_after:
  assumes "slist h p (xs @ x # ys)" and "h a \<noteq> None" and "a \<notin> set (xs @ x # ys)"
  shows "\<exists>h'. SLIST_INSERT_AFTER h (Some x) (Some a) = Some h' \<and> slist h' p (xs @ x # a # ys) \<and>
           (\<forall>y. y \<notin> {x, a} \<longrightarrow> h' y = h y)"
proof -
  have "h x \<noteq> None" using slist_allocated [OF assms(1)] by simp
  then obtain n where n: "h x = Some n" by auto
  have d: "distinct (xs @ x # ys)" by (rule slist_distinct [OF assms(1)])
  have "slist (h(a \<mapsto> n, x \<mapsto> Some a)) p (xs @ x # a # ys)"
    using assms(1,3) d n
    by (induction xs arbitrary: p) (auto split: option.splits)
  then show ?thesis using n assms(2,3) by (auto simp: SLIST_INSERT_AFTER_def)
qed

lemma remove_loop_finds:
  assumes "slist h (Some c) (c # xs @ [y] @ ys)"
  shows "slist_remove_loop h (Some c) (Some y) = Some (Some (last (c # xs)))"
  using assms
proof (induction xs arbitrary: c)
  case Nil
  then show ?case by (subst slist_remove_loop.simps) (auto split: option.splits)
next
  case (Cons x xs)
  have "distinct (c # (x # xs) @ [y] @ ys)" by (rule slist_distinct [OF Cons.prems])
  moreover have "h c = Some (Some x)" "slist h (Some x) (x # xs @ [y] @ ys)"
    using Cons.prems by (auto split: option.splits)
  ultimately show ?case
    using Cons.IH [of x] by (subst slist_remove_loop.simps) auto
qed

lemma remove_loop_absent: "slist h p xs \<Longrightarrow> a \<notin> set xs \<Longrightarrow> slist_remove_loop h p (Some a) = None"
proof (induction xs arbitrary: p)
  case Nil
  then show ?case by (subst slist_remove_loop.simps) simp
next
  case (Cons x xs)
  then obtain n where n: "p = Some x" "h x = Some n" "slist h n xs" by (auto split: option.splits)
  then have "n \<noteq> Some a" using Cons.prems(2) by (cases xs) auto
  then show ?case using Cons.IH [OF n(3)] Cons.prems(2) n by (subst slist_remove_loop.simps) simp
qed

lemma slist_unlink:
  assumes "slist h p (xs @ c # y # ys)" and "h y = Some n"
  shows "slist (h(c \<mapsto> n)) p (xs @ c # ys)" and "h c = Some (Some y)"
proof -
  have d: "distinct (xs @ c # y # ys)" by (rule slist_distinct [OF assms(1)])
  then show "slist (h(c \<mapsto> n)) p (xs @ c # ys)"
    using assms by (induction xs arbitrary: p) (auto split: option.splits)
  obtain q where "slist h q (c # y # ys)" using slist_suffix [OF assms(1)] by blast
  then show "h c = Some (Some y)" by (auto split: option.splits)
qed

lemma slist_remove:
  assumes "slist h (slh_first head) xs" and "a \<in> set xs"
  shows "\<exists>h' head'. SLIST_REMOVE h head (Some a) = Some (h', head') \<and>
           slist h' (slh_first head') (remove1 a xs) \<and> dom h' = dom h \<and> h' a = h a \<and>
           (\<forall>y. y \<notin> set xs \<longrightarrow> h' y = h y)"
proof -
  obtain us vs where xs: "xs = us @ a # vs" "a \<notin> set us" using split_list_first [OF assms(2)] by blast
  obtain n where n: "h a = Some n" using slist_allocated [OF assms] by auto
  show ?thesis
  proof (cases us rule: rev_cases)
    case Nil
    then show ?thesis using xs n assms(1) by (auto simp: SLIST_REMOVE_def SLIST_REMOVE_HEAD_def)
  next
    case (snoc ws c)
    then have "us \<noteq> []" by simp
    then obtain b zs where us: "us = b # zs" by (meson neq_Nil_conv)
    have first: "slh_first head = Some b" "b \<noteq> a" using assms(1) xs us by auto
    have loop: "slist_remove_loop h (Some b) (Some a) = Some (Some c)"
      using remove_loop_finds [of h b zs a vs] assms(1) xs us first snoc by (metis append_Cons append_Nil last_snoc)
    have "slist h (slh_first head) (ws @ c # a # vs)" using assms(1) xs snoc by simp
    note u = slist_unlink [OF this n]
    have "c \<noteq> a" using slist_distinct [OF assms(1)] xs snoc by auto
    moreover have "remove1 a xs = ws @ c # vs" using xs snoc by (simp add: remove1_append)
    ultimately show ?thesis
      using first loop u n xs snoc by (auto simp: SLIST_REMOVE_def SLIST_REMOVE_AFTER_def)
  qed
qed

lemma slist_remove_absent:
  assumes "slist h (slh_first head) xs" and "a \<notin> set xs"
  shows "SLIST_REMOVE h head (Some a) = None"
proof -
  have "slh_first head \<noteq> Some a" using assms by (cases xs) auto
  then show ?thesis using remove_loop_absent [OF assms] by (simp add: SLIST_REMOVE_def)
qed

lemma last_loop: "slist h (Some c) (c # xs) \<Longrightarrow> slist_last_loop h (Some c) = Some (Some (last (c # xs)))"
proof (induction xs arbitrary: c)
  case Nil
  then show ?case by (subst slist_last_loop.simps) (auto split: option.splits)
next
  case (Cons x xs)
  then have "h c = Some (Some x)" "slist h (Some x) (x # xs)" by (auto split: option.splits)
  then show ?case using Cons.IH [of x] by (subst slist_last_loop.simps) simp
qed

lemma slist_link_last:
  assumes "slist h p (xs @ [c])" and "slist h q ys" and "c \<notin> set ys"
  shows "slist (h(c \<mapsto> q)) p (xs @ c # ys)"
  using assms slist_distinct [OF assms(1)]
  by (induction xs arbitrary: p) (auto split: option.splits)

lemma slist_concat:
  assumes "slist h (slh_first head1) xs" and "slist h (slh_first head2) ys" and "set xs \<inter> set ys = {}"
  shows "\<exists>h' head1' head2'. SLIST_CONCAT h head1 head2 = Some (h', head1', head2') \<and>
           slist h' (slh_first head1') (xs @ ys) \<and> slh_first head2' = None \<and> dom h' = dom h \<and>
           (\<forall>y. y \<notin> set xs \<longrightarrow> h' y = h y)"
proof (cases xs rule: rev_cases)
  case Nil
  then show ?thesis using assms by (cases ys) (auto simp: SLIST_CONCAT_def SLIST_INIT_def Let_def)
next
  case (snoc ws c)
  then have "xs \<noteq> []" by simp
  then obtain b zs where xs: "xs = b # zs" by (meson neq_Nil_conv)
  have b: "slh_first head1 = Some b" using assms(1) xs by auto
  have lp: "slist_last_loop h (Some b) = Some (Some c)"
    using last_loop [of h b zs] assms(1) xs b snoc by (metis last_snoc)
  have "h c \<noteq> None" using slist_allocated [OF assms(1)] snoc by simp
  then show ?thesis
    using slist_link_last [of h "Some b" ws c "slh_first head2" ys] assms b lp snoc
    by (cases ys) (auto simp: SLIST_CONCAT_def SLIST_INIT_def Let_def)
qed

section \<open>Iteration\<close>

text \<open>The reference for the loops: the body run on the elements of a list in order.\<close>

fun visit :: "('a \<Rightarrow> 's \<Rightarrow> 's option) \<Rightarrow> 'a list \<Rightarrow> 's \<Rightarrow> 's option" where
  "visit body [] s = Some s"
| "visit body (x # xs) s = do { s \<leftarrow> body x s; visit body xs s }"

lemma foreach_visit:
  assumes "slist (get s) p xs" and "\<And>x s s'. x \<in> set xs \<Longrightarrow> body x s = Some s' \<Longrightarrow> get s' = get s"
  shows "slist_foreach_loop get body p s = visit body xs s"
  using assms
proof (induction xs arbitrary: p s)
  case Nil
  then show ?case by (subst slist_foreach_loop.simps) simp
next
  case (Cons x xs)
  then obtain n where n: "p = Some x" "get s x = Some n" "slist (get s) n xs" by (auto split: option.splits)
  show ?case
  proof (cases "body x s")
    case None
    then show ?thesis using n by (subst slist_foreach_loop.simps) simp
  next
    case (Some s')
    then have "get s' = get s" using Cons.prems(2) [of x s s'] by simp
    then have "slist (get s') n xs" using n(3) by simp
    then have "slist_foreach_loop get body n s' = visit body xs s'"
      by (rule Cons.IH) (rule Cons.prems(2), simp_all)
    then show ?thesis
      using n Some \<open>get s' = get s\<close> by (subst slist_foreach_loop.simps) simp
  qed
qed

text \<open>
  The safe loop allows a body that frees the element it is run on: \<open>P ys s\<close> says that the elements \<open>ys\<close>
  still to be visited are linked in the state \<open>s\<close>, and the body has to keep it for the rest.
\<close>

lemma foreach_safe_visit:
  assumes "P xs s" and "slist (get s) p xs"
    and link: "\<And>ys s. P ys s \<Longrightarrow> \<exists>q. slist (get s) q ys"
    and step: "\<And>x ys s s'. P (x # ys) s \<Longrightarrow> body x s = Some s' \<Longrightarrow> P ys s'"
  shows "slist_foreach_safe_loop get body p s = visit body xs s"
  using assms(1,2)
proof (induction xs arbitrary: p s)
  case Nil
  then show ?case by (subst slist_foreach_safe_loop.simps) simp
next
  case (Cons x xs)
  then obtain n where n: "p = Some x" "get s x = Some n" "slist (get s) n xs" by (auto split: option.splits)
  show ?case
  proof (cases "body x s")
    case None
    then show ?thesis using n by (subst slist_foreach_safe_loop.simps) simp
  next
    case (Some s')
    then have P: "P xs s'" using step Cons.prems(1) by blast
    then obtain q where "slist (get s') q xs" using link by blast
    then have "slist (get s') n xs" using n(3) by (cases xs) auto
    then show ?thesis
      using Cons.IH [OF P] n Some by (subst slist_foreach_safe_loop.simps) simp
  qed
qed

section \<open>The contract of the list\<close>

text \<open>
  What a client relies on when it keeps heap elements in a list: inserting, removing, and releasing the
  memory of an element that is not in the list.
\<close>

locale linked_bag =
  fixes rep :: "'l \<Rightarrow> 'a list \<Rightarrow> bool"
    and allocated :: "'l \<Rightarrow> 'a \<Rightarrow> bool"
    and insert_elem :: "'l \<Rightarrow> 'a \<Rightarrow> 'l option"
    and remove_elem :: "'l \<Rightarrow> 'a \<Rightarrow> 'l option"
    and release :: "'l \<Rightarrow> 'a \<Rightarrow> 'l"
  assumes rep_distinct: "rep l xs \<Longrightarrow> distinct xs"
    and insert_ok: "rep l xs \<Longrightarrow> allocated l a \<Longrightarrow> a \<notin> set xs \<Longrightarrow>
      \<exists>l'. insert_elem l a = Some l' \<and> rep l' (a # xs)"
    and remove_ok: "rep l xs \<Longrightarrow> a \<in> set xs \<Longrightarrow> \<exists>l'. remove_elem l a = Some l' \<and> rep l' (remove1 a xs)"
    and release_ok: "rep l xs \<Longrightarrow> a \<notin> set xs \<Longrightarrow> rep (release l a) xs"
begin

definition discard :: "'l \<Rightarrow> 'a \<Rightarrow> 'l option" where
  "discard l a = map_option (\<lambda>l'. release l' a) (remove_elem l a)"

fun discard_all :: "'l \<Rightarrow> 'a list \<Rightarrow> 'l option" where
  "discard_all l [] = Some l"
| "discard_all l (a # as) = Option.bind (discard l a) (\<lambda>l'. discard_all l' as)"

lemma discard_ok:
  assumes "rep l xs" and "a \<in> set xs"
  shows "\<exists>l'. discard l a = Some l' \<and> rep l' (remove1 a xs)"
proof -
  have "a \<notin> set (remove1 a xs)" using rep_distinct [OF assms(1)] by simp
  then show ?thesis using remove_ok [OF assms] release_ok by (auto simp: discard_def)
qed

lemma insert_discard:
  assumes "rep l xs" and "allocated l a" and "a \<notin> set xs" and "insert_elem l a = Some l'"
  shows "\<exists>l''. discard l' a = Some l'' \<and> rep l'' xs"
proof -
  have "rep l' (a # xs)" using insert_ok [OF assms(1-3)] assms(4) by auto
  then show ?thesis using discard_ok [of l' "a # xs" a] by simp
qed

lemma discard_all_ok:
  assumes "rep l xs" and "set ys \<subseteq> set xs" and "distinct ys"
  shows "\<exists>l'. discard_all l ys = Some l' \<and> rep l' (filter (\<lambda>x. x \<notin> set ys) xs)"
  using assms
proof (induction ys arbitrary: l xs)
  case Nil
  then show ?case by simp
next
  case (Cons y ys)
  obtain l1 where l1: "discard l y = Some l1" "rep l1 (remove1 y xs)"
    using discard_ok [OF Cons.prems(1), of y] Cons.prems(2) by auto
  have xs: "remove1 y xs = filter (\<lambda>x. y \<noteq> x) xs"
    using rep_distinct [OF Cons.prems(1)] by (simp add: distinct_remove1_removeAll removeAll_filter_not_eq)
  have "set ys \<subseteq> set (remove1 y xs)" using Cons.prems(2,3) by (auto simp: xs)
  then obtain l2 where "discard_all l1 ys = Some l2" "rep l2 (filter (\<lambda>x. x \<notin> set ys) (remove1 y xs))"
    using Cons.IH [OF l1(2)] Cons.prems(3) by auto
  moreover have "filter (\<lambda>x. x \<notin> set ys) (remove1 y xs) = filter (\<lambda>x. x \<notin> set (y # ys)) xs"
    unfolding xs filter_filter by (rule filter_cong) auto
  ultimately show ?case using l1(1) by auto
qed

end

text \<open>The list as a value: the link fields and the head.\<close>

type_synonym slist_state = "links \<times> slist_head"

definition slist_rep :: "slist_state \<Rightarrow> addr list \<Rightarrow> bool" where
  "slist_rep l xs \<longleftrightarrow> slist (fst l) (slh_first (snd l)) xs"

interpretation sl: linked_bag slist_rep "\<lambda>l a. fst l a \<noteq> None"
    "\<lambda>l a. SLIST_INSERT_HEAD (fst l) (snd l) (Some a)" "\<lambda>l a. SLIST_REMOVE (fst l) (snd l) (Some a)"
    "\<lambda>l a. ((fst l)(a := None), snd l)"
proof
  fix l xs a
  assume l: "slist_rep l xs"
  show "distinct xs" using l slist_distinct by (auto simp: slist_rep_def)
  show "\<exists>l'. SLIST_INSERT_HEAD (fst l) (snd l) (Some a) = Some l' \<and> slist_rep l' (a # xs)"
    if "fst l a \<noteq> None" "a \<notin> set xs"
    using slist_insert_head [of "fst l" "snd l" xs a] l that by (simp add: slist_rep_def)
  show "\<exists>l'. SLIST_REMOVE (fst l) (snd l) (Some a) = Some l' \<and> slist_rep l' (remove1 a xs)" if "a \<in> set xs"
    using slist_remove [of "fst l" "snd l" xs a] l that by (auto simp: slist_rep_def)
  show "slist_rep ((fst l)(a := None), snd l) xs" if "a \<notin> set xs"
    using l that by (simp add: slist_rep_def)
qed

section \<open>Properties\<close>

definition demo_links :: links where
  "demo_links = [1 \<mapsto> Some 2, 2 \<mapsto> Some 3, 3 \<mapsto> None, 8 \<mapsto> Some 9, 9 \<mapsto> None]"

text \<open>Removing an element of a singly-linked list; for one that is not in the list the search runs off its end.\<close>

lemma slist_remove_correct:
  assumes "slist h (slh_first head) xs"
  shows "if a \<in> set xs then
      \<exists>h' head'. SLIST_REMOVE h head (Some a) = Some (h', head') \<and> slist h' (slh_first head') (remove1 a xs) \<and>
        dom h' = dom h \<and> (\<forall>y. y \<notin> set xs \<longrightarrow> h' y = h y)
    else SLIST_REMOVE h head (Some a) = None"
proof (cases "a \<in> set xs")
  case True
  then show ?thesis using slist_remove [OF assms True] by auto
next
  case False
  then show ?thesis using slist_remove_absent [OF assms False] by simp
qed

lemma slist_remove_correct_witness:
  "\<exists>h' head'. SLIST_REMOVE demo_links \<lparr>slh_first = Some 1\<rparr> (Some 2) = Some (h', head') \<and>
     slist h' (slh_first head') [1, 3]"
proof -
  have "slist demo_links (slh_first \<lparr>slh_first = Some 1\<rparr>) [1, 2, 3]" by (simp add: demo_links_def)
  from slist_remove_correct [OF this, of 2] show ?thesis by auto
qed

end
