(* ===== verification/Server_List.thy ===== *)
theory Server_List
  imports Connector SList
begin

text \<open>
  The list of connection threads that the main thread of \<open>server/aesdsocket.c\<close> keeps: adding and removing elements,
  the accept loop, \<open>cleanup\<close> and the signal handler, with the invariant of the list. What the operating system
  answers is an argument: the results of \<open>accept\<close>, \<open>malloc\<close> and \<open>pthread_create\<close>, the signals that arrive and the
  threads that finish between two steps of the main thread. Log output is left out.
\<close>

section \<open>The list of threads\<close>

record slist_data_s =
  thread_arg :: addr
  thread_id :: nat

text \<open>
  The memory of the main thread. A list element at address \<open>a\<close> consists of its data \<open>nodes a\<close> and its link
  field \<open>links a\<close>. \<open>live\<close> are the threads created and not yet joined, \<open>fds\<close> the open sockets; \<open>file_present\<close> tells whether
  there is a file at \<open>FILE_PATH\<close>, which every thread creates when it opens it.
\<close>

record server =
  head :: slist_head
  links :: links
  nodes :: "addr \<rightharpoonup> slist_data_s"
  args :: "addr \<rightharpoonup> thread_arg_t"
  live :: "nat set"
  fds :: "int set"
  exit_requested :: bool
  sockfd :: int
  timestamp_thread_id :: nat
  file_present :: bool

text \<open>\<open>malloc\<close> is given by its result: \<^const>\<open>None\<close>, or the address of a new element.\<close>

definition add_node :: "addr option \<Rightarrow> addr \<Rightarrow> nat \<Rightarrow> server \<Rightarrow> server option" where
  "add_node new_node ta tid s =
     (case new_node of
        None \<Rightarrow> Some s
      | Some a \<Rightarrow> do {
          let s = s\<lparr>nodes := (nodes s)(a \<mapsto> \<lparr>thread_arg = ta, thread_id = tid\<rparr>), links := (links s)(a \<mapsto> None)\<rparr>;
          (l, h) \<leftarrow> SLIST_INSERT_HEAD (links s) (head s) (Some a);
          Some (s\<lparr>links := l, head := h\<rparr>)
        })"

definition remove_node :: "addr \<Rightarrow> server \<Rightarrow> server option" where
  "remove_node node s = do {
     (l, h) \<leftarrow> SLIST_REMOVE (links s) (head s) (Some node);
     let s = s\<lparr>links := l, head := h\<rparr>;
     d \<leftarrow> nodes s node;
     ensure (args s (thread_arg d) \<noteq> None);
     let s = s\<lparr>args := (args s)(thread_arg d := None)\<rparr>;
     Some (s\<lparr>nodes := (nodes s)(node := None), links := (links s)(node := None)\<rparr>)
   }"

text \<open>
  \<open>pthread_join\<close> waits until the thread has returned; joining a thread that does not exist, or twice, or joining
  oneself is undefined. \<open>self\<close> is the calling thread, \<^const>\<open>None\<close> for the main thread. \<open>closed\<close> are the descriptors the thread closes before it returns. A connection thread closes
  the socket of its argument, after it has set \<open>finished\<close> there: \<open>still_open\<close> is what it has yet to close.
\<close>

definition still_open :: "thread_arg_t \<Rightarrow> int set" where
  "still_open ta = (if finished ta then {} else {client_sock ta})"

definition pthread_join :: "nat option \<Rightarrow> nat \<Rightarrow> int set \<Rightarrow> server \<Rightarrow> server option" where
  "pthread_join self tid closed s = do {
     ensure (self \<noteq> Some tid);
     ensure (tid \<in> live s);
     Some (s\<lparr>live := live s - {tid}, fds := fds s - closed\<rparr>)
   }"

text \<open>The body of the loop in \<open>cleanup\<close>, and that of the loop in \<open>main\<close> that looks for finished threads.\<close>

definition cleanup_body :: "nat option \<Rightarrow> addr \<Rightarrow> server \<Rightarrow> server option" where
  "cleanup_body self node s = do {
     d \<leftarrow> nodes s node;
     ta \<leftarrow> args s (thread_arg d);
     s \<leftarrow> pthread_join self (thread_id d) (still_open ta) s;
     remove_node node s
   }"

definition reap_body :: "addr \<Rightarrow> server \<Rightarrow> server option" where
  "reap_body node s = do {
     d \<leftarrow> nodes s node;
     ta \<leftarrow> args s (thread_arg d);
     if finished ta then do {
       s \<leftarrow> pthread_join None (thread_id d) (still_open ta) s;
       remove_node node s
     }
     else Some s
   }"

text \<open>\<open>use_char_device\<close> is the compile-time option \<open>USE_AESD_CHAR_DEVICE\<close>; without it the data file is removed.\<close>

definition cleanup :: "nat option \<Rightarrow> bool \<Rightarrow> server \<Rightarrow> server option" where
  "cleanup self use_char_device s = do {
     s \<leftarrow> SLIST_FOREACH_SAFE links (cleanup_body self) (head s) s;
     s \<leftarrow> (if timestamp_thread_id s \<noteq> 0 then pthread_join self (timestamp_thread_id s) {} s else Some s);
     let s = (if sockfd s \<noteq> -1 then s\<lparr>fds := fds s - {sockfd s}\<rparr> else s);
     Some (if use_char_device then s else s\<lparr>file_present := False\<rparr>)
   }"

section \<open>The accept loop\<close>

text \<open>
  One round of the loop sees: whether a signal is handled while \<open>accept\<close> waits, the socket \<open>accept\<close> returns,
  the results of the two \<open>malloc\<close> calls, the thread \<open>pthread_create\<close> starts, and the arguments whose
  threads have set \<open>finished\<close> by the time of the search.
\<close>

record accept_event =
  ev_signal :: bool
  ev_sock :: int
  ev_arg :: "addr option"
  ev_thread :: "nat option"
  ev_node :: "addr option"
  ev_done :: "addr set"

definition SIGINT :: int where "SIGINT = 2"

definition SIGTERM :: int where "SIGTERM = 15"

definition signal_handler :: "int \<Rightarrow> server \<Rightarrow> server" where
  "signal_handler signo s = (if signo = SIGINT \<or> signo = SIGTERM then s\<lparr>exit_requested := True\<rparr> else s)"

text \<open>The threads with the arguments \<open>D\<close> set \<open>finished\<close> and close their sockets.\<close>

definition mark_finished :: "addr set \<Rightarrow> server \<Rightarrow> server" where
  "mark_finished D s =
     s\<lparr>args := (\<lambda>a. map_option (\<lambda>t. if a \<in> D then t\<lparr>finished := True\<rparr> else t) (args s a)),
       fds := fds s - (\<Union>a \<in> D. \<Union> (still_open ` set_option (args s a)))\<rparr>"

definition accept_round :: "accept_event \<Rightarrow> server \<Rightarrow> server option" where
  "accept_round ev s =
     (let s = (if ev_signal ev then signal_handler SIGTERM s else s) in
      if ev_sock ev = -1 then Some s
      else
        let s = s\<lparr>fds := insert (ev_sock ev) (fds s)\<rparr> in
        (case ev_arg ev of
           None \<Rightarrow> Some (s\<lparr>fds := fds s - {ev_sock ev}\<rparr>)
         | Some a \<Rightarrow>
             let s = s\<lparr>args := (args s)(a \<mapsto> \<lparr>client_sock = ev_sock ev, finished = False\<rparr>)\<rparr> in
             (case ev_thread ev of
                None \<Rightarrow> Some (s\<lparr>args := (args s)(a := None), fds := fds s - {ev_sock ev}\<rparr>)
              | Some tid \<Rightarrow> do {
                  let s = s\<lparr>live := insert tid (live s), file_present := True\<rparr>;
                  s \<leftarrow> add_node (ev_node ev) a tid s;
                  let s = mark_finished (ev_done ev) s;
                  SLIST_FOREACH_SAFE links reap_body (head s) s
                })))"

text \<open>With no further event the loop waits in \<open>accept\<close> and has no result.\<close>

fun accept_loop :: "accept_event list \<Rightarrow> server \<Rightarrow> server option" where
  "accept_loop evs s =
     (if exit_requested s then Some s
      else (case evs of
              [] \<Rightarrow> None
            | ev # evs \<Rightarrow> do { s \<leftarrow> accept_round ev s; accept_loop evs s }))"

declare accept_loop.simps [simp del]

section \<open>The invariant of the thread list\<close>

abbreviation node_arg :: "server \<Rightarrow> addr \<Rightarrow> addr" where
  "node_arg s a \<equiv> thread_arg (the (nodes s a))"

abbreviation node_tid :: "server \<Rightarrow> addr \<Rightarrow> nat" where
  "node_tid s a \<equiv> thread_id (the (nodes s a))"

abbreviation node_done :: "server \<Rightarrow> addr \<Rightarrow> bool" where
  "node_done s a \<equiv> finished (the (args s (node_arg s a)))"

abbreviation node_open :: "server \<Rightarrow> addr \<Rightarrow> int set" where
  "node_open s a \<equiv> still_open (the (args s (node_arg s a)))"

text \<open>
  The elements \<open>xs\<close> are linked in this order and are the only ones allocated; each has an argument and a
  thread of its own that is still to be joined.
\<close>

definition server_ok :: "server \<Rightarrow> addr list \<Rightarrow> bool" where
  "server_ok s xs \<longleftrightarrow>
     slist_rep (links s, head s) xs \<and> dom (links s) = set xs \<and> dom (nodes s) = set xs \<and>
     inj_on (node_arg s) (set xs) \<and> inj_on (node_tid s) (set xs) \<and>
     (\<forall>a \<in> set xs. args s (node_arg s a) \<noteq> None \<and> node_tid s a \<in> live s)"

text \<open>
  Moreover there is no argument and no thread without a list element, and the open descriptors are those of
  the unfinished connections and of the server.
\<close>

definition ts_thread :: "server \<Rightarrow> nat set" where
  "ts_thread s = (if timestamp_thread_id s = 0 then {} else {timestamp_thread_id s})"

definition listening :: "server \<Rightarrow> int set" where
  "listening s = (if sockfd s = -1 then {} else {sockfd s})"

definition server_tight :: "server \<Rightarrow> addr list \<Rightarrow> bool" where
  "server_tight s xs \<longleftrightarrow>
     server_ok s xs \<and> dom (args s) = node_arg s ` set xs \<and>
     live s = node_tid s ` set xs \<union> ts_thread s \<and> node_tid s ` set xs \<inter> ts_thread s = {} \<and>
     fds s = \<Union> (node_open s ` set xs) \<union> listening s \<and> \<Union> (node_open s ` set xs) \<inter> listening s = {} \<and>
     (\<forall>a \<in> set xs. \<forall>b \<in> set xs. a \<noteq> b \<longrightarrow> node_open s a \<inter> node_open s b = {})"

lemma server_ok_distinct: "server_ok s xs \<Longrightarrow> distinct xs"
  using sl.rep_distinct by (auto simp: server_ok_def)

text \<open>What remains after the elements \<open>F\<close> have been joined and removed.\<close>

definition without_nodes :: "addr set \<Rightarrow> server \<Rightarrow> server \<Rightarrow> bool" where
  "without_nodes F s s' \<longleftrightarrow>
     nodes s' = nodes s |` (- F) \<and> args s' = args s |` (- (node_arg s ` F)) \<and> live s' = live s - node_tid s ` F \<and>
     exit_requested s' = exit_requested s \<and> sockfd s' = sockfd s \<and>
     timestamp_thread_id s' = timestamp_thread_id s \<and>
     fds s' = fds s - \<Union> (node_open s ` F)"

lemma remove_node_link:
  assumes "server_ok s xs" and "a \<in> set xs"
  obtains l h where "SLIST_REMOVE (links s) (head s) (Some a) = Some (l, h)"
    and "slist_rep (l(a := None), h) (remove1 a xs)" and "dom (l(a := None)) = set (remove1 a xs)"
proof -
  have rep: "slist_rep (links s, head s) xs" using assms(1) by (simp add: server_ok_def)
  obtain h' head' where r: "SLIST_REMOVE (links s) (head s) (Some a) = Some (h', head')" "dom h' = dom (links s)"
    using slist_remove [of "links s" "head s" xs a] rep assms(2) by (auto simp: slist_rep_def)
  have "slist_rep (h'(a := None), head') (remove1 a xs)"
    using sl.discard_ok [OF rep assms(2)] r(1) by (simp add: sl.discard_def)
  moreover have "dom (h'(a := None)) = set (remove1 a xs)"
    using assms(1) r(2) sl.rep_distinct [OF rep] by (auto simp: server_ok_def)
  ultimately show ?thesis using that r(1) by blast
qed

lemma cleanup_body_ok:
  assumes ok: "server_ok s xs" and a: "a \<in> set xs"
  shows "\<exists>s'. cleanup_body None a s = Some s' \<and> server_ok s' (remove1 a xs) \<and> without_nodes {a} s s'"
proof -
  obtain l h where lh: "SLIST_REMOVE (links s) (head s) (Some a) = Some (l, h)"
      "slist_rep (l(a := None), h) (remove1 a xs)" "dom (l(a := None)) = set (remove1 a xs)"
    by (rule remove_node_link [OF ok a])
  have "a \<in> dom (nodes s)" using ok a by (simp add: server_ok_def)
  then obtain d where d: "nodes s a = Some d" by auto
  then obtain ta where ta: "args s (thread_arg d) = Some ta" and tid: "thread_id d \<in> live s"
    using ok a by (auto simp: server_ok_def)
  let ?s = "s\<lparr>links := l(a := None), head := h, nodes := (nodes s)(a := None), args := (args s)(thread_arg d := None),
      live := live s - {thread_id d}, fds := fds s - still_open ta\<rparr>"
  have "cleanup_body None a s = Some ?s"
    using d ta tid lh(1) by (simp add: cleanup_body_def pthread_join_def remove_node_def Let_def)
  moreover have rest: "set (remove1 a xs) = set xs - {a}" using server_ok_distinct [OF ok] by simp
  have inj: "node_arg s b \<noteq> thread_arg d" "node_tid s b \<noteq> thread_id d" if "b \<in> set xs - {a}" for b
    using ok a that d unfolding server_ok_def inj_on_def by (metis DiffE insertI1 option.sel)+
  have "server_ok ?s (remove1 a xs)"
    using ok lh(2,3) inj unfolding server_ok_def rest by (auto simp: inj_on_def)
  moreover have "without_nodes {a} s ?s"
    using d ta by (auto simp: without_nodes_def restrict_map_def)
  ultimately show ?thesis by blast
qed

lemma reap_body_ok:
  assumes ok: "server_ok s xs" and a: "a \<in> set xs"
  shows "reap_body a s = (if node_done s a then cleanup_body None a s else Some s)"
proof -
  have "a \<in> dom (nodes s)" using ok a by (simp add: server_ok_def)
  then obtain d where d: "nodes s a = Some d" by auto
  then obtain ta where "args s (thread_arg d) = Some ta" using ok a by (auto simp: server_ok_def)
  then show ?thesis using d by (simp add: reap_body_def cleanup_body_def)
qed

text \<open>Both loops remove the elements of a set; \<open>reap_body\<close> is \<open>cleanup_body\<close> on the finished ones.\<close>

definition discard_body :: "(addr \<Rightarrow> bool) \<Rightarrow> addr \<Rightarrow> server \<Rightarrow> server option" where
  "discard_body F a s = (if F a then cleanup_body None a s else Some s)"

lemma diff_diff_union: "L - A - B = L - (A \<union> B)"
  by auto

lemma without_nodes_keep:
  assumes "server_ok s xs" and "F \<subseteq> set xs" and "without_nodes F s s'" and "b \<in> set xs - F"
  shows "nodes s' b = nodes s b" and "args s' (node_arg s b) = args s (node_arg s b)"
proof -
  have "node_arg s b \<notin> node_arg s ` F"
    using assms inj_on_image_mem_iff [of "node_arg s" "set xs" b F] by (auto simp: server_ok_def)
  then show "nodes s' b = nodes s b" "args s' (node_arg s b) = args s (node_arg s b)"
    using assms(3,4) by (auto simp: without_nodes_def restrict_map_def)
qed

lemma without_nodes_trans:
  assumes "without_nodes F s s1" and "without_nodes G s1 s2" and "server_ok s xs" and "F \<subseteq> set xs"
    and "G \<subseteq> set xs - F"
  shows "without_nodes (F \<union> G) s s2"
proof -
  note keep = without_nodes_keep [OF assms(3,4,1)]
  have k: "nodes s1 b = nodes s b" "args s1 (node_arg s b) = args s (node_arg s b)" if "b \<in> G" for b
    using keep [of b] that assms(5) by blast+
  have n: "node_arg s1 ` G = node_arg s ` G" "node_tid s1 ` G = node_tid s ` G"
    "node_open s1 ` G = node_open s ` G"
    by (intro image_cong refl, simp add: k)+
  have "- F \<inter> - G = - (F \<union> G)" "- (node_arg s ` F) \<inter> - (node_arg s ` G) = - (node_arg s ` (F \<union> G))" by auto
  then show ?thesis
    using assms(1,2) unfolding without_nodes_def n by (simp add: image_Un diff_diff_union)
qed

lemma visit_discard:
  assumes "server_ok s (us @ ys)"
  shows "\<exists>s'. visit (discard_body F) ys s = Some s' \<and> server_ok s' (us @ filter (\<lambda>a. \<not> F a) ys) \<and>
           without_nodes {a \<in> set ys. F a} s s'"
  using assms
proof (induction ys arbitrary: us s)
  case Nil
  then show ?case by (simp add: without_nodes_def restrict_map_def)
next
  case (Cons y ys)
  have d: "distinct (us @ y # ys)" by (rule server_ok_distinct [OF Cons.prems])
  show ?case
  proof (cases "F y")
    case True
    have "remove1 y (us @ y # ys) = us @ ys" using d by (simp add: remove1_append)
    then obtain s1 where s1: "cleanup_body None y s = Some s1" "server_ok s1 (us @ ys)" "without_nodes {y} s s1"
      using cleanup_body_ok [OF Cons.prems, of y] by auto
    obtain s2 where s2: "visit (discard_body F) ys s1 = Some s2" "server_ok s2 (us @ filter (\<lambda>a. \<not> F a) ys)"
        "without_nodes {a \<in> set ys. F a} s1 s2"
      using Cons.IH [OF s1(2)] by blast
    have "without_nodes ({y} \<union> {a \<in> set ys. F a}) s s2"
      by (rule without_nodes_trans [OF s1(3) s2(3) Cons.prems]) (use d in auto)
    moreover have "{y} \<union> {a \<in> set ys. F a} = {a \<in> set (y # ys). F a}" using True by auto
    moreover have "discard_body F y s = Some s1" using s1(1) True by (simp add: discard_body_def)
    ultimately show ?thesis using s2 True by auto
  next
    case False
    then have b: "discard_body F y s = Some s" by (simp add: discard_body_def)
    have "{a \<in> set (y # ys). F a} = {a \<in> set ys. F a}" using False by auto
    then show ?thesis using Cons.IH [of s "us @ [y]"] Cons.prems False b by simp
  qed
qed

lemma visit_reap:
  assumes "server_ok s (us @ ys)" and "\<forall>a \<in> set ys. F a = node_done s a"
  shows "visit reap_body ys s = visit (discard_body F) ys s"
  using assms
proof (induction ys arbitrary: us s)
  case Nil
  then show ?case by simp
next
  case (Cons y ys)
  have d: "distinct (us @ y # ys)" by (rule server_ok_distinct [OF Cons.prems(1)])
  have body: "reap_body y s = discard_body F y s"
    using reap_body_ok [OF Cons.prems(1), of y] Cons.prems(2) by (simp add: discard_body_def)
  show ?case
  proof (cases "F y")
    case True
    have "remove1 y (us @ y # ys) = us @ ys" using d by (simp add: remove1_append)
    then obtain s1 where s1: "cleanup_body None y s = Some s1" "server_ok s1 (us @ ys)" "without_nodes {y} s s1"
      using cleanup_body_ok [OF Cons.prems(1), of y] by auto
    have "node_done s1 a = node_done s a" if "a \<in> set ys" for a
    proof -
      have "a \<noteq> y" using that d by auto
      then show ?thesis using without_nodes_keep [OF Cons.prems(1) _ s1(3), of a] that by simp
    qed
    then have "visit reap_body ys s1 = visit (discard_body F) ys s1"
      using Cons.IH [OF s1(2)] Cons.prems(2) by simp
    moreover have "discard_body F y s = Some s1" using s1(1) True by (simp add: discard_body_def)
    ultimately show ?thesis using body by simp
  next
    case False
    then have "discard_body F y s = Some s" by (simp add: discard_body_def)
    then show ?thesis using body Cons.IH [of s "us @ [y]"] Cons.prems by simp
  qed
qed

lemma pending_links:
  assumes "server_ok s (us @ x # ys)" and "discard_body F x s = Some s'"
  shows "\<exists>us'. server_ok s' (us' @ ys)"
proof -
  have "remove1 x (us @ x # ys) = us @ ys" using server_ok_distinct [OF assms(1)] by (simp add: remove1_append)
  then show ?thesis
    using cleanup_body_ok [OF assms(1), of x] assms
    by (cases "F x") (auto simp: discard_body_def intro: exI [of _ "us @ [x]"])
qed

lemma foreach_safe_server:
  assumes ok: "server_ok s xs"
    and body: "\<And>us x ys s s'. server_ok s (us @ x # ys) \<Longrightarrow> body x s = Some s' \<Longrightarrow> \<exists>F. discard_body F x s = Some s'"
  shows "SLIST_FOREACH_SAFE links body (head s) s = visit body xs s"
  unfolding SLIST_FOREACH_SAFE_def SLIST_FIRST_def
proof (rule foreach_safe_visit [where P = "\<lambda>ys s. \<exists>us. server_ok s (us @ ys)"])
  show "\<exists>us. server_ok s (us @ xs)" using ok by (intro exI [of _ "[]"]) simp
  show "slist (links s) (slh_first (head s)) xs" using ok by (simp add: server_ok_def slist_rep_def)
  show "\<exists>q. slist (links s) q ys" if "\<exists>us. server_ok s (us @ ys)" for ys s
    using that slist_suffix by (auto simp: server_ok_def slist_rep_def)
  show "\<exists>us. server_ok s' (us @ ys)" if "\<exists>us. server_ok s (us @ x # ys)" and "body x s = Some s'" for x ys s s'
    using that body pending_links by metis
qed

lemma foreach_discard:
  assumes "server_ok s xs"
  shows "\<exists>s'. SLIST_FOREACH_SAFE links (discard_body F) (head s) s = Some s' \<and>
           server_ok s' (filter (\<lambda>a. \<not> F a) xs) \<and> without_nodes {a \<in> set xs. F a} s s'"
proof -
  have "SLIST_FOREACH_SAFE links (discard_body F) (head s) s = visit (discard_body F) xs s"
    by (rule foreach_safe_server [OF assms]) blast
  then show ?thesis using visit_discard [of s "[]" xs F] assms by simp
qed

lemma foreach_reap:
  assumes "server_ok s xs"
  shows "\<exists>s'. SLIST_FOREACH_SAFE links reap_body (head s) s = Some s' \<and>
           server_ok s' (filter (\<lambda>a. \<not> node_done s a) xs) \<and> without_nodes {a \<in> set xs. node_done s a} s s'"
proof -
  have "\<exists>F. discard_body F x s = Some s'" if "server_ok s (us @ x # ys)" "reap_body x s = Some s'" for us x ys s s'
    using reap_body_ok [OF that(1), of x] that(2) by (intro exI [of _ "node_done s"]) (simp add: discard_body_def)
  then have "SLIST_FOREACH_SAFE links reap_body (head s) s = visit reap_body xs s"
    by (rule foreach_safe_server [OF assms])
  then show ?thesis
    using visit_reap [of s "[]" xs "node_done s"] visit_discard [of s "[]" xs "node_done s"] assms by simp
qed

lemma foreach_cleanup:
  assumes "server_ok s xs"
  shows "\<exists>s'. SLIST_FOREACH_SAFE links (cleanup_body None) (head s) s = Some s' \<and> server_ok s' [] \<and>
           without_nodes (set xs) s s'"
proof -
  have "discard_body (\<lambda>_. True) = cleanup_body None" by (simp add: fun_eq_iff discard_body_def)
  then show ?thesis using foreach_discard [OF assms, of "\<lambda>_. True"] by simp
qed

text \<open>A thread other than the main thread that runs the loop of \<open>cleanup\<close>.\<close>

lemma cleanup_body_self:
  assumes "server_ok s xs" and "a \<in> set xs"
  shows "cleanup_body (Some tid) a s = (if node_tid s a = tid then None else cleanup_body None a s)"
proof -
  have "a \<in> dom (nodes s)" using assms by (simp add: server_ok_def)
  then obtain d where "nodes s a = Some d" by auto
  moreover from this obtain ta where "args s (thread_arg d) = Some ta" using assms by (auto simp: server_ok_def)
  ultimately show ?thesis by (simp add: cleanup_body_def pthread_join_def)
qed

lemma visit_self:
  assumes "server_ok s (us @ ys)" and "visit (cleanup_body (Some tid)) ys s = Some s'"
  shows "tid \<notin> node_tid s ` set ys \<and> timestamp_thread_id s' = timestamp_thread_id s"
  using assms
proof (induction ys arbitrary: us s)
  case Nil
  then show ?case by simp
next
  case (Cons y ys)
  have d: "distinct (us @ y # ys)" by (rule server_ok_distinct [OF Cons.prems(1)])
  have tid: "node_tid s y \<noteq> tid" and y: "cleanup_body None y s \<bind> visit (cleanup_body (Some tid)) ys = Some s'"
    using Cons.prems(2) cleanup_body_self [OF Cons.prems(1), of y tid] by (auto split: if_splits)
  have "remove1 y (us @ y # ys) = us @ ys" using d by (simp add: remove1_append)
  then obtain s1 where s1: "cleanup_body None y s = Some s1" "server_ok s1 (us @ ys)" "without_nodes {y} s s1"
    using cleanup_body_ok [OF Cons.prems(1), of y] by auto
  have "node_tid s1 a = node_tid s a" if "a \<in> set ys" for a
  proof -
    have "a \<noteq> y" using that d by auto
    then show ?thesis using without_nodes_keep(1) [OF Cons.prems(1) _ s1(3), of a] that by simp
  qed
  then have "node_tid s1 ` set ys = node_tid s ` set ys" by (auto simp: image_iff)
  then show ?case
    using Cons.IH [OF s1(2)] y s1(1,3) tid by (auto simp: without_nodes_def)
qed

lemma foreach_self:
  assumes "server_ok s xs" and "SLIST_FOREACH_SAFE links (cleanup_body (Some tid)) (head s) s = Some s'"
  shows "tid \<notin> node_tid s ` set xs" and "timestamp_thread_id s' = timestamp_thread_id s"
proof -
  have "\<exists>F. discard_body F x s = Some s'" if "server_ok s (us @ x # ys)" "cleanup_body (Some tid) x s = Some s'"
    for us x ys s s'
    using that cleanup_body_self [OF that(1), of x tid]
    by (intro exI [of _ "\<lambda>_. True"]) (auto simp: discard_body_def split: if_splits)
  then have "SLIST_FOREACH_SAFE links (cleanup_body (Some tid)) (head s) s = visit (cleanup_body (Some tid)) xs s"
    by (rule foreach_safe_server [OF assms(1)])
  then show "tid \<notin> node_tid s ` set xs" "timestamp_thread_id s' = timestamp_thread_id s"
    using visit_self [of s "[]" xs tid s'] assms by simp_all
qed

section \<open>No leak\<close>

lemma image_diff_inj: "inj_on f A \<Longrightarrow> F \<subseteq> A \<Longrightarrow> f ` A - f ` F = f ` (A - F)"
  by (auto simp: inj_on_def)

lemma union_diff_disjoint:
  assumes "\<forall>a \<in> A. \<forall>b \<in> A. a \<noteq> b \<longrightarrow> f a \<inter> f b = {}" and "F \<subseteq> A" and "\<Union> (f ` A) \<inter> L = {}"
  shows "\<Union> (f ` A) \<union> L - \<Union> (f ` F) = \<Union> (f ` (A - F)) \<union> L" and "\<Union> (f ` (A - F)) \<inter> L = {}"
proof -
  have "x \<notin> f b" if "a \<in> A - F" "b \<in> F" "x \<in> f a" for a b x
  proof -
    have "a \<in> A" "b \<in> A" "a \<noteq> b" using that(1,2) assms(2) by auto
    then have "f a \<inter> f b = {}" using assms(1) by simp
    then show ?thesis using that(3) by auto
  qed
  moreover have "L \<inter> \<Union> (f ` F) = {}" using assms(2,3) by auto
  ultimately show "\<Union> (f ` A) \<union> L - \<Union> (f ` F) = \<Union> (f ` (A - F)) \<union> L" by auto
  show "\<Union> (f ` (A - F)) \<inter> L = {}" using assms(3) by auto
qed

lemma tight_without:
  assumes t: "server_tight s xs" and F: "F \<subseteq> set xs" and w: "without_nodes F s s'"
    and ok: "server_ok s' (filter (\<lambda>a. a \<notin> F) xs)"
  shows "server_tight s' (filter (\<lambda>a. a \<notin> F) xs)"
proof -
  have s: "server_ok s xs" using t by (simp add: server_tight_def)
  have set: "set (filter (\<lambda>a. a \<notin> F) xs) = set xs - F" by auto
  have k: "nodes s' b = nodes s b" "args s' (node_arg s b) = args s (node_arg s b)" if "b \<in> set xs - F" for b
    using without_nodes_keep [OF s F w that] .
  have same: "node_arg s' ` (set xs - F) = node_arg s ` (set xs - F)"
    "node_tid s' ` (set xs - F) = node_tid s ` (set xs - F)" "node_open s' ` (set xs - F) = node_open s ` (set xs - F)"
    by (intro image_cong refl, simp add: k)+
  have "dom (args s') = node_arg s ` (set xs - F)"
    using t w s F image_diff_inj [of "node_arg s" "set xs" F]
    by (auto simp: server_tight_def without_nodes_def server_ok_def)
  moreover have "live s' = node_tid s ` (set xs - F) \<union> ts_thread s" "node_tid s ` (set xs - F) \<inter> ts_thread s = {}"
  proof -
    have "node_tid s ` set xs \<inter> ts_thread s = {}" using t by (simp add: server_tight_def)
    then have d: "node_tid s ` F \<inter> ts_thread s = {}" "node_tid s ` (set xs - F) \<inter> ts_thread s = {}"
      using F by blast+
    then show "node_tid s ` (set xs - F) \<inter> ts_thread s = {}" by simp
    have "live s' = (node_tid s ` set xs \<union> ts_thread s) - node_tid s ` F"
      using t w by (simp add: server_tight_def without_nodes_def)
    also have "\<dots> = (node_tid s ` set xs - node_tid s ` F) \<union> ts_thread s" using d(1) by blast
    also have "node_tid s ` set xs - node_tid s ` F = node_tid s ` (set xs - F)"
      using image_diff_inj [of "node_tid s", OF _ F] s by (simp add: server_ok_def)
    finally show "live s' = node_tid s ` (set xs - F) \<union> ts_thread s" .
  qed
  moreover have "ts_thread s' = ts_thread s" "listening s' = listening s"
    using w by (simp_all add: without_nodes_def ts_thread_def listening_def)
  moreover have "fds s' = \<Union> (node_open s ` (set xs - F)) \<union> listening s"
    "\<Union> (node_open s ` (set xs - F)) \<inter> listening s = {}"
    using union_diff_disjoint [OF _ F, of "node_open s" "listening s"] t w
    by (simp_all add: server_tight_def without_nodes_def)
  moreover have "\<forall>a \<in> set xs - F. \<forall>b \<in> set xs - F. a \<noteq> b \<longrightarrow> node_open s' a \<inter> node_open s' b = {}"
    using t k unfolding server_tight_def by simp
  ultimately show ?thesis using ok unfolding server_tight_def set same by simp
qed

lemma mark_finished_nodes [simp]: "nodes (mark_finished D s) = nodes s" "links (mark_finished D s) = links s"
    "head (mark_finished D s) = head s" "live (mark_finished D s) = live s"
    "sockfd (mark_finished D s) = sockfd s" "timestamp_thread_id (mark_finished D s) = timestamp_thread_id s"
    "exit_requested (mark_finished D s) = exit_requested s" "dom (args (mark_finished D s)) = dom (args s)"
  by (auto simp: mark_finished_def)

lemma tight_mark:
  assumes t: "server_tight s xs"
  shows "server_tight (mark_finished D s) xs"
proof -
  let ?m = "mark_finished D s"
  have s: "server_ok s xs" using t by (simp add: server_tight_def)
  have a: "args s (node_arg s b) \<noteq> None" if "b \<in> set xs" for b using s that by (auto simp: server_ok_def)
  have op: "node_open ?m b = (if node_arg s b \<in> D then {} else node_open s b)" if "b \<in> set xs" for b
    using a [OF that] by (auto simp: mark_finished_def still_open_def)
  have ok: "server_ok ?m xs" using s by (auto simp: server_ok_def mark_finished_def)
  have "fds ?m = \<Union> (node_open ?m ` set xs) \<union> listening s"
  proof -
    have "(\<Union>a \<in> D. \<Union> (still_open ` set_option (args s a))) = \<Union> (node_open s ` {b \<in> set xs. node_arg s b \<in> D})"
    proof (rule set_eqI)
      fix x
      have d: "(\<exists>ta. args s c = Some ta) \<longleftrightarrow> (\<exists>b \<in> set xs. c = node_arg s b)" for c
      proof -
        have "c \<in> dom (args s) \<longleftrightarrow> c \<in> node_arg s ` set xs" using t by (simp add: server_tight_def)
        then show ?thesis by (simp add: dom_def image_iff)
      qed
      have "x \<in> (\<Union>a \<in> D. \<Union> (still_open ` set_option (args s a))) \<longleftrightarrow>
          (\<exists>c ta. c \<in> D \<and> args s c = Some ta \<and> x \<in> still_open ta)" by auto
      also have "\<dots> \<longleftrightarrow> (\<exists>b \<in> set xs. node_arg s b \<in> D \<and> x \<in> node_open s b)"
        using d by (metis option.sel)
      finally show "x \<in> (\<Union>a \<in> D. \<Union> (still_open ` set_option (args s a))) \<longleftrightarrow>
          x \<in> \<Union> (node_open s ` {b \<in> set xs. node_arg s b \<in> D})" by blast
    qed
    then have "fds ?m = fds s - \<Union> (node_open s ` {b \<in> set xs. node_arg s b \<in> D})"
      by (simp add: mark_finished_def)
    also have "\<dots> = \<Union> (node_open s ` (set xs - {b \<in> set xs. node_arg s b \<in> D})) \<union> listening s"
      using union_diff_disjoint(1) [of "set xs" "node_open s" "{b \<in> set xs. node_arg s b \<in> D}" "listening s"] t
      by (simp add: server_tight_def)
    also have "set xs - {b \<in> set xs. node_arg s b \<in> D} = {b \<in> set xs. node_arg s b \<notin> D}" by auto
    also have "\<Union> (node_open s ` {b \<in> set xs. node_arg s b \<notin> D}) = \<Union> (node_open ?m ` set xs)"
      using op by auto
    finally show ?thesis .
  qed
  then show ?thesis
    using t ok op by (auto simp: server_tight_def ts_thread_def listening_def split: if_splits)
qed

text \<open>What the operating system guarantees: new descriptors, blocks and threads differ from those in use.\<close>

definition event_ok :: "accept_event \<Rightarrow> server \<Rightarrow> bool" where
  "event_ok ev s \<longleftrightarrow>
     (ev_sock ev \<noteq> -1 \<longrightarrow> ev_sock ev \<notin> fds s) \<and>
     (case ev_arg ev of None \<Rightarrow> True | Some a \<Rightarrow> args s a = None) \<and>
     (case ev_thread ev of None \<Rightarrow> True | Some tid \<Rightarrow> tid \<notin> live s) \<and>
     (case ev_node ev of None \<Rightarrow> True | Some n \<Rightarrow> nodes s n = None)"

text \<open>The state in which the new connection has been entered in the list.\<close>

definition enlist :: "int \<Rightarrow> addr \<Rightarrow> nat \<Rightarrow> addr \<Rightarrow> server \<Rightarrow> server" where
  "enlist sock a tid n s =
     s\<lparr>fds := insert sock (fds s), args := (args s)(a \<mapsto> \<lparr>client_sock = sock, finished = False\<rparr>),
       live := insert tid (live s), file_present := True, nodes := (nodes s)(n \<mapsto> \<lparr>thread_arg = a, thread_id = tid\<rparr>),
       links := (links s)(n \<mapsto> slh_first (head s)), head := (head s)\<lparr>slh_first := Some n\<rparr>\<rparr>"

lemma add_node_enlist:
  "add_node (Some n) a tid
     (s\<lparr>fds := insert sock (fds s), args := (args s)(a \<mapsto> \<lparr>client_sock = sock, finished = False\<rparr>),
        live := insert tid (live s), file_present := True\<rparr>) = Some (enlist sock a tid n s)"
  by (simp add: add_node_def SLIST_INSERT_HEAD_def enlist_def Let_def)

lemma enlist_nodes:
  assumes "server_ok s xs" and "args s a = None" "tid \<notin> live s" "nodes s n = None"
  shows "n \<notin> set xs"
    and "node_arg (enlist sock a tid n s) n = a" "node_tid (enlist sock a tid n s) n = tid"
      "node_open (enlist sock a tid n s) n = {sock}"
    and "b \<in> set xs \<Longrightarrow> nodes (enlist sock a tid n s) b = nodes s b"
      "b \<in> set xs \<Longrightarrow> args (enlist sock a tid n s) (node_arg s b) = args s (node_arg s b)"
      "b \<in> set xs \<Longrightarrow> node_arg s b \<noteq> a" "b \<in> set xs \<Longrightarrow> node_tid s b \<noteq> tid"
proof -
  show n: "n \<notin> set xs" using assms by (auto simp: server_ok_def)
  show "node_arg (enlist sock a tid n s) n = a" "node_tid (enlist sock a tid n s) n = tid"
    "node_open (enlist sock a tid n s) n = {sock}" by (simp_all add: enlist_def still_open_def)
  assume b: "b \<in> set xs"
  then show "nodes (enlist sock a tid n s) b = nodes s b"
    "args (enlist sock a tid n s) (node_arg s b) = args s (node_arg s b)" "node_arg s b \<noteq> a" "node_tid s b \<noteq> tid"
    using assms n by (auto simp: enlist_def server_ok_def)
qed

lemma ok_enlist:
  assumes s: "server_ok s xs" and new: "args s a = None" "tid \<notin> live s" "nodes s n = None"
  shows "server_ok (enlist sock a tid n s) (n # xs)"
proof -
  let ?s = "enlist sock a tid n s"
  note nd = enlist_nodes [OF s new]
  have "\<forall>b \<in> set xs. node_arg s b \<noteq> a \<and> node_tid s b \<noteq> tid" using nd(7,8) by blast
  then have inj: "inj_on (node_arg ?s) (set (n # xs))" "inj_on (node_tid ?s) (set (n # xs))"
    using s nd(1) by (auto simp: server_ok_def inj_on_def nd(2,3,5))
  have "slist_rep (links ?s, head ?s) (n # xs)"
    using s nd(1) by (simp add: server_ok_def slist_rep_def enlist_def)
  moreover have "dom (links ?s) = set (n # xs)" "dom (nodes ?s) = set (n # xs)"
    using s by (auto simp: server_ok_def enlist_def)
  moreover have "args ?s (node_arg ?s b) \<noteq> None \<and> node_tid ?s b \<in> live ?s" if "b \<in> set (n # xs)" for b
    using that s nd by (cases "b = n") (auto simp: server_ok_def, auto simp: enlist_def)
  ultimately show ?thesis using inj unfolding server_ok_def by blast
qed

lemma tight_enlist:
  assumes t: "server_tight s xs" and new: "sock \<notin> fds s" "args s a = None" "tid \<notin> live s" "nodes s n = None"
  shows "server_tight (enlist sock a tid n s) (n # xs)"
proof -
  let ?s = "enlist sock a tid n s"
  have s: "server_ok s xs" using t by (simp add: server_tight_def)
  note nd = enlist_nodes [OF s new(2-4)]
  have op: "node_open ?s b = node_open s b" if "b \<in> set xs" for b using nd(5,6) that by simp
  have same: "node_arg ?s ` set xs = node_arg s ` set xs" "node_tid ?s ` set xs = node_tid s ` set xs"
    "node_open ?s ` set xs = node_open s ` set xs"
    by (intro image_cong refl, simp add: nd(5,6))+
  have da: "dom (args ?s) = node_arg ?s ` set (n # xs)"
    using t by (simp add: nd(2) same server_tight_def) (simp add: enlist_def)
  have ts: "ts_thread ?s = ts_thread s" "listening ?s = listening s"
    by (simp_all add: ts_thread_def listening_def enlist_def)
  have sub: "\<Union> (node_open s ` set xs) \<subseteq> fds s" "listening s \<subseteq> fds s" "ts_thread s \<subseteq> live s"
    using t by (auto simp: server_tight_def)
  have ins: "node_tid ?s ` set (n # xs) = insert tid (node_tid s ` set xs)"
    "\<Union> (node_open ?s ` set (n # xs)) = insert sock (\<Union> (node_open s ` set xs))"
    by (simp_all only: list.set image_insert Union_insert same nd(3,4)) simp
  have upd: "live ?s = insert tid (live s)" "fds ?s = insert sock (fds s)" by (simp_all add: enlist_def)
  have lv: "live ?s = node_tid ?s ` set (n # xs) \<union> ts_thread s" "node_tid ?s ` set (n # xs) \<inter> ts_thread s = {}"
    using t new(3) sub(3) unfolding ins upd by (auto simp: server_tight_def)
  have fd: "fds ?s = \<Union> (node_open ?s ` set (n # xs)) \<union> listening s"
    "\<Union> (node_open ?s ` set (n # xs)) \<inter> listening s = {}"
    using t new(1) sub(2) unfolding ins upd by (auto simp: server_tight_def)
  have "sock \<notin> node_open s d" if "d \<in> set xs" for d using sub(1) new(1) that by auto
  moreover have "node_open s b \<inter> node_open s c = {}" if "b \<in> set xs" "c \<in> set xs" "b \<noteq> c" for b c
    using t that by (simp add: server_tight_def)
  ultimately have pw: "node_open ?s b \<inter> node_open ?s c = {}" if "b \<in> set (n # xs)" "c \<in> set (n # xs)" "b \<noteq> c" for b c
    using that op nd(4) by (cases "b = n"; cases "c = n") simp_all
  show ?thesis
    unfolding server_tight_def ts
    by (intro conjI ballI impI ok_enlist [OF s new(2-4)] da lv fd; rule pw)
qed

lemma tight_signal [simp]: "server_tight (signal_handler signo s) xs = server_tight s xs"
  by (simp add: signal_handler_def server_tight_def server_ok_def ts_thread_def listening_def)

lemma signal_simps [simp]:
  "fds (signal_handler signo s) = fds s" "args (signal_handler signo s) = args s"
  "live (signal_handler signo s) = live s" "nodes (signal_handler signo s) = nodes s"
  by (simp_all add: signal_handler_def)

lemma event_ok_signal [simp]: "event_ok ev (signal_handler signo s) = event_ok ev s"
  unfolding event_ok_def signal_simps by (rule refl)

lemma tight_reap:
  assumes "server_tight s xs"
  shows "\<exists>s' ys. SLIST_FOREACH_SAFE links reap_body (head s) s = Some s' \<and> server_tight s' ys \<and>
           ys = filter (\<lambda>a. \<not> node_done s a) xs \<and> (\<forall>a \<in> set ys. \<not> node_done s' a)"
proof -
  let ?F = "{a \<in> set xs. node_done s a}"
  have ok: "server_ok s xs" using assms by (simp add: server_tight_def)
  then obtain s' where s': "SLIST_FOREACH_SAFE links reap_body (head s) s = Some s'"
      "server_ok s' (filter (\<lambda>a. \<not> node_done s a) xs)" "without_nodes ?F s s'"
    using foreach_reap by blast
  have ys: "filter (\<lambda>a. \<not> node_done s a) xs = filter (\<lambda>a. a \<notin> ?F) xs" by (rule filter_cong) auto
  then have "server_tight s' (filter (\<lambda>a. \<not> node_done s a) xs)"
    using tight_without [OF assms _ s'(3)] s'(2) by simp
  moreover have "\<not> node_done s' a" if "a \<in> set (filter (\<lambda>a. \<not> node_done s a) xs)" for a
    using without_nodes_keep [OF ok _ s'(3), of a] that by auto
  ultimately show ?thesis using s'(1) by blast
qed

text \<open>
  A round keeps the invariant. When the round creates a thread, the list afterwards holds unfinished
  connections only.
\<close>

lemma accept_round_ok:
  assumes t: "server_tight s xs" and ev: "event_ok ev s" and node: "ev_node ev \<noteq> None"
  shows "\<exists>s' ys. accept_round ev s = Some s' \<and> server_tight s' ys"
proof -
  define s0 where "s0 = (if ev_signal ev then signal_handler SIGTERM s else s)"
  have t0: "server_tight s0 xs" and e0: "event_ok ev s0" using t ev by (simp_all add: s0_def)
  note sk = accept_round_def [of ev s, folded s0_def]
  show ?thesis
  proof (cases "ev_sock ev = -1")
    case True
    then show ?thesis using t0 by (auto simp: sk Let_def)
  next
    case sock: False
    then have new: "ev_sock ev \<notin> fds s0" using e0 by (simp add: event_ok_def)
    have undo: "s0\<lparr>fds := insert (ev_sock ev) (fds s0) - {ev_sock ev}\<rparr> = s0" using new by simp
    show ?thesis
    proof (cases "ev_arg ev")
      case None
      then show ?thesis using t0 sock new by (auto simp: sk Let_def)
    next
      case (Some a)
      then have a: "args s0 a = None" using e0 by (simp add: event_ok_def)
      then have "(args s0)(a := None) = args s0" by auto
      obtain n where n: "ev_node ev = Some n" using node by auto
      show ?thesis
      proof (cases "ev_thread ev")
        case None
        have "accept_round ev s = Some s0"
          using None Some sock new \<open>(args s0)(a := None) = args s0\<close> by (simp add: sk Let_def)
        then show ?thesis using t0 by blast
      next
        case (Some tid)
        have "server_tight (mark_finished (ev_done ev) (enlist (ev_sock ev) a tid n s0)) (n # xs)"
          using tight_enlist [OF t0 new a, of tid n] e0 Some n by (intro tight_mark) (simp add: event_ok_def)
        note reap = tight_reap [OF this]
        show ?thesis
          using reap add_node_enlist [of n a tid s0 "ev_sock ev"] \<open>ev_arg ev = Some a\<close> Some sock n
          by (auto simp: sk Let_def)
      qed
    qed
  qed
qed

section \<open>The states the accept loop can reach\<close>

text \<open>The state before the first round, in the build with the driver, which has no timestamp thread.\<close>

definition server_start :: "int \<Rightarrow> server" where
  "server_start sock =
     \<lparr>head = SLIST_INIT SLIST_HEAD_INITIALIZER, links = Map.empty, nodes = Map.empty, args = Map.empty, live = {},
      fds = {sock}, exit_requested = False, sockfd = sock, timestamp_thread_id = 0, file_present = False\<rparr>"

text \<open>
  The steps of the process: a round of the loop, connection threads that finish, and signals, in any order.
  Allocations may fail except that of the list element.
\<close>

inductive server_step :: "server \<Rightarrow> server \<Rightarrow> bool" where
  round: "\<not> exit_requested s \<Longrightarrow> event_ok ev s \<Longrightarrow> ev_node ev \<noteq> None \<Longrightarrow> accept_round ev s = Some s' \<Longrightarrow>
     server_step s s'"
| threads_finish: "server_step s (mark_finished D s)"
| signal: "server_step s (signal_handler signo s)"

lemma start_tight: "sock \<noteq> -1 \<Longrightarrow> server_tight (server_start sock) []"
  by (simp add: server_tight_def server_ok_def server_start_def slist_rep_def SLIST_INIT_def ts_thread_def
      listening_def SLIST_HEAD_INITIALIZER_def)

lemma step_tight:
  assumes "server_step s s'" and "server_tight s xs"
  shows "\<exists>ys. server_tight s' ys"
  using assms(1)
proof (cases rule: server_step.cases)
  case (round ev)
  then show ?thesis using accept_round_ok [OF assms(2), of ev] by simp
qed (use tight_mark [OF assms(2)] assms(2) in auto)

lemma reachable_tight:
  assumes "server_step\<^sup>*\<^sup>* (server_start sock) s" and "sock \<noteq> -1"
  shows "\<exists>xs. server_tight s xs"
  using assms
proof (induction rule: rtranclp_induct)
  case base
  then show ?case using start_tight by blast
next
  case (step s s')
  then show ?case using step_tight by blast
qed

lemma cleanup_ok:
  assumes "server_tight s xs"
  shows "\<exists>s'. cleanup None use_char_device s = Some s' \<and> (use_char_device \<or> \<not> file_present s') \<and> nodes s' = Map.empty \<and> links s' = Map.empty \<and> slh_first (head s') = None \<and>
           args s' = Map.empty \<and> live s' = {} \<and> fds s' = {}"
proof -
  have ok: "server_ok s xs" using assms by (simp add: server_tight_def)
  then obtain s1 where s1: "SLIST_FOREACH_SAFE links (cleanup_body None) (head s) s = Some s1" "server_ok s1 []"
      "without_nodes (set xs) s s1"
    using foreach_cleanup by blast
  have "server_tight s1 []"
    using tight_without [OF assms order_refl s1(3)] s1(2) by simp
  then show ?thesis
    using s1(1)
    by (auto simp: cleanup_def server_tight_def server_ok_def ts_thread_def listening_def slist_rep_def pthread_join_def)
qed

end
