(* ===== verification/Server_Main.thy ===== *)
theory Server_Main
  imports Server_List
begin

text \<open>
  Start-up and termination of \<open>server/aesdsocket.c\<close>: signal handlers, daemonising, binding the socket, the timestamp
  thread, \<open>main\<close> and the failure paths, and the properties of the main thread. What the operating system answers is
  an argument (\<open>os_env\<close>).
\<close>

section \<open>Start-up and termination\<close>

text \<open>\<open>exit\<close> and the normal return of \<open>main\<close> end the process with a status; \<open>Go\<close> continues.\<close>

datatype 'a flow = Exit int | Go 'a

definition EXIT_SUCCESS :: int where "EXIT_SUCCESS = 0"

definition EXIT_FAILURE :: int where "EXIT_FAILURE = 1"

text \<open>What the operating system answers during start-up; \<open>bind i\<close> is the result of attempt number \<open>i\<close>.\<close>

record os_env =
  sigaction_int :: int
  sigaction_term :: int
  fork1 :: int
  setsid :: int
  fork2 :: int
  chdir :: int
  socket :: int
  setsockopt :: int
  bind_result :: "nat \<Rightarrow> int"
  listen :: int
  create_timestamp :: "nat option"

definition setup_signal_handlers :: "os_env \<Rightarrow> unit flow" where
  "setup_signal_handlers os =
     (if sigaction_int os \<noteq> 0 \<or> sigaction_term os \<noteq> 0 then Exit EXIT_FAILURE else Go ())"

definition daemonize :: "os_env \<Rightarrow> unit flow" where
  "daemonize os =
     (if fork1 os < 0 then Exit EXIT_FAILURE
      else if fork1 os > 0 then Exit EXIT_SUCCESS
      else if setsid os = -1 then Exit EXIT_FAILURE
      else if fork2 os < 0 then Exit EXIT_FAILURE
      else if fork2 os > 0 then Exit EXIT_SUCCESS
      else if chdir os < 0 then Exit EXIT_FAILURE
      else Go ())"

text \<open>
  The loop around \<open>bind\<close>, entered with the value of \<open>bind_attempts\<close>: whether the socket is bound when it is left, and the
  calls of \<open>bind\<close> and \<open>sleep\<close> that were made, in order.
\<close>

datatype bind_call = Bind | Sleep_seconds nat

function bind_loop :: "(nat \<Rightarrow> int) \<Rightarrow> nat \<Rightarrow> bool \<times> bind_call list" where
  "bind_loop results bind_attempts =
     (if results bind_attempts \<noteq> 0 then
        (if bind_attempts \<ge> 5 then (False, [Bind])
         else
           let (bound, calls) = bind_loop results (bind_attempts + 1)
           in (bound, Bind # Sleep_seconds 10 # calls))
      else (True, [Bind]))"
  by auto

termination by (relation "measure (\<lambda>(results, n). 5 - n)") auto

declare bind_loop.simps [simp del]

definition start_timestamp_thread :: "os_env \<Rightarrow> server \<Rightarrow> server flow" where
  "start_timestamp_thread os s =
     (case create_timestamp os of
        None \<Rightarrow> Exit EXIT_FAILURE
      | Some tid \<Rightarrow> Go (s\<lparr>timestamp_thread_id := tid, live := insert tid (live s), file_present := True\<rparr>))"

text \<open>
  The failure path of \<open>main\<close>, and of a thread that cannot open the data file: \<open>cleanup\<close> and \<open>exit\<close>. The status
  of the process and its last state.
\<close>

definition fail :: "nat option \<Rightarrow> bool \<Rightarrow> server \<Rightarrow> (int \<times> server) option" where
  "fail self use_char_device s = do { s \<leftarrow> cleanup self use_char_device s; Some (EXIT_FAILURE, s) }"

text \<open>\<open>evs\<close> are the rounds of the accept loop.\<close>

definition main ::
  "bool \<Rightarrow> os_env \<Rightarrow> accept_event list \<Rightarrow> string list \<Rightarrow> server \<Rightarrow> (int \<times> server) option" where
  "main use_char_device os evs argv s = do {
     let s = s\<lparr>head := SLIST_INIT (head s)\<rparr>;
     let is_daemon = (length argv = 2 \<and> argv ! 1 = ''-d'');
     (case setup_signal_handlers os of
        Exit st \<Rightarrow> Some (st, s)
      | Go _ \<Rightarrow>
          (case (if is_daemon then daemonize os else Go ()) of
             Exit st \<Rightarrow> Some (st, s)
           | Go _ \<Rightarrow> do {
               let s = s\<lparr>sockfd := socket os\<rparr>;
               if sockfd s = -1 then fail None use_char_device s
               else do {
                 let s = s\<lparr>fds := insert (sockfd s) (fds s)\<rparr>;
                 if setsockopt os \<noteq> 0 then fail None use_char_device s
                 else if \<not> fst (bind_loop (bind_result os) 0) then fail None use_char_device s
                 else if listen os \<noteq> 0 then fail None use_char_device s
                 else
                   (case (if use_char_device then Go s else start_timestamp_thread os s) of
                      Exit st \<Rightarrow> Some (st, s)
                    | Go s \<Rightarrow> do {
                        s \<leftarrow> accept_loop evs s;
                        s \<leftarrow> cleanup None use_char_device s;
                        Some (EXIT_SUCCESS, s)
                      })
               }
             }))
   }"

text \<open>The state of the process before \<open>main\<close>.\<close>

definition process_start :: server where
  "process_start =
     \<lparr>head = SLIST_HEAD_INITIALIZER, links = Map.empty, nodes = Map.empty, args = Map.empty, live = {}, fds = {},
      exit_requested = False, sockfd = -1, timestamp_thread_id = 0, file_present = False\<rparr>"

text \<open>
  The events of a run that ends: each is possible in the state in which it happens, and a signal has asked for
  the exit when they are used up.
\<close>

fun events_ok :: "accept_event list \<Rightarrow> server \<Rightarrow> bool" where
  "events_ok [] s \<longleftrightarrow> exit_requested s"
| "events_ok (ev # evs) s \<longleftrightarrow> exit_requested s \<or>
     event_ok ev s \<and> ev_node ev \<noteq> None \<and> (case accept_round ev s of None \<Rightarrow> True | Some s' \<Rightarrow> events_ok evs s')"

lemma accept_loop_ok:
  assumes "server_tight s xs" and "events_ok evs s"
  shows "\<exists>s' ys. accept_loop evs s = Some s' \<and> server_tight s' ys \<and> exit_requested s'"
  using assms
proof (induction evs arbitrary: s xs)
  case Nil
  then show ?case by (subst accept_loop.simps) auto
next
  case (Cons ev evs)
  show ?case
  proof (cases "exit_requested s")
    case True
    then show ?thesis using Cons.prems(1) by (subst accept_loop.simps) auto
  next
    case False
    then obtain s1 ys where s1: "accept_round ev s = Some s1" "server_tight s1 ys"
      using accept_round_ok [OF Cons.prems(1), of ev] Cons.prems(2) by auto
    then show ?thesis using Cons.IH [OF s1(2)] Cons.prems(2) False by (subst accept_loop.simps) simp
  qed
qed

definition released :: "bool \<Rightarrow> server \<Rightarrow> bool" where
  "released use_char_device s \<longleftrightarrow> (use_char_device \<or> \<not> file_present s) \<and> nodes s = Map.empty \<and> links s = Map.empty \<and> args s = Map.empty \<and> live s = {} \<and> fds s = {}"

lemma fail_ok: "server_tight s xs \<Longrightarrow> \<exists>s'. fail None use_char_device s = Some (EXIT_FAILURE, s') \<and> released use_char_device s'"
  using cleanup_ok [of s xs use_char_device] by (auto simp: fail_def released_def)

lemma process_start_tight:
  "server_tight (process_start\<lparr>head := SLIST_INIT (head process_start), sockfd := -1\<rparr>) []"
  by (simp add: server_tight_def server_ok_def process_start_def slist_rep_def SLIST_INIT_def ts_thread_def
      listening_def)

text \<open>The state when the accept loop begins.\<close>

definition loop_start :: "bool \<Rightarrow> os_env \<Rightarrow> server" where
  "loop_start use_char_device os =
     (let s = process_start\<lparr>head := SLIST_INIT (head process_start), sockfd := socket os, fds := {socket os}\<rparr> in
      if use_char_device then s
      else s\<lparr>timestamp_thread_id := the (create_timestamp os), live := {the (create_timestamp os)}, file_present := True\<rparr>)"

lemma loop_start_tight:
  assumes "socket os \<noteq> -1" and "use_char_device \<or> the (create_timestamp os) \<noteq> 0"
  shows "server_tight (loop_start use_char_device os) []"
  using assms
  by (auto simp: server_tight_def server_ok_def process_start_def slist_rep_def SLIST_INIT_def ts_thread_def
      listening_def loop_start_def Let_def)

lemma socket_tight:
  assumes "socket os \<noteq> -1"
  shows "server_tight (process_start\<lparr>head := SLIST_INIT (head process_start), sockfd := socket os, fds := {socket os}\<rparr>) []"
  using assms
  by (simp add: server_tight_def server_ok_def process_start_def slist_rep_def SLIST_INIT_def ts_thread_def
      listening_def)

lemma main_loop_ok:
  assumes "server_tight s xs" and "events_ok evs s"
  shows "\<exists>s'. Option.bind (accept_loop evs s) (\<lambda>s. Option.bind (cleanup None use_char_device s) (\<lambda>s. Some (EXIT_SUCCESS, s))) =
           Some (EXIT_SUCCESS, s') \<and> released use_char_device s'"
proof -
  obtain s1 ys where s1: "accept_loop evs s = Some s1" "server_tight s1 ys" using accept_loop_ok [OF assms] by blast
  then show ?thesis using cleanup_ok [OF s1(2), of use_char_device] by (auto simp: released_def)
qed

lemma main_ok:
  assumes ts: "use_char_device \<or> (\<exists>tid. create_timestamp os = Some tid \<and> tid \<noteq> 0)"
    and evs: "events_ok evs (loop_start use_char_device os)"
  shows "\<exists>st s'. main use_char_device os evs argv process_start = Some (st, s') \<and> released use_char_device s'"
proof -
  let ?P = "process_start\<lparr>head := SLIST_INIT (head process_start)\<rparr>"
  let ?S = "?P\<lparr>sockfd := socket os, fds := {socket os}\<rparr>"
  have P: "released use_char_device ?P" by (simp add: released_def process_start_def)
  have f0: "\<exists>s'. fail None use_char_device (?P\<lparr>sockfd := -1\<rparr>) = Some (EXIT_FAILURE, s') \<and> released use_char_device s'"
    by (rule fail_ok [OF process_start_tight])
  have f1: "\<exists>s'. fail None use_char_device ?S = Some (EXIT_FAILURE, s') \<and> released use_char_device s'" if "socket os \<noteq> -1"
    by (rule fail_ok [OF socket_tight [OF that]])
  have tight: "server_tight (loop_start use_char_device os) []" if "socket os \<noteq> -1"
    using ts that by (intro loop_start_tight) auto
  have loop: "\<exists>s'. Option.bind (accept_loop evs (loop_start use_char_device os))
      (\<lambda>s. Option.bind (cleanup None use_char_device s) (\<lambda>s. Some (EXIT_SUCCESS, s))) = Some (EXIT_SUCCESS, s') \<and> released use_char_device s'"
    if "socket os \<noteq> -1" by (rule main_loop_ok [OF tight [OF that] evs])
  have go: "(if use_char_device then Go ?S else start_timestamp_thread os ?S) = Go (loop_start use_char_device os)"
    using ts by (auto simp: loop_start_def start_timestamp_thread_def process_start_def)
  have empty: "fds process_start = {}" by (simp add: process_start_def)
  show ?thesis
    using P f0 f1 loop
    by (auto simp: main_def Let_def go empty split: flow.split)
qed

section \<open>Properties of the main thread\<close>

text \<open>
  C12. In every state that the server process can reach from the start of the accept loop, by rounds of the loop,
  connection threads that finish, and signals in any order, the thread list is intact: each element has one thread
  and one argument of its own, every thread and every argument belongs to an element, and exactly the sockets of
  unfinished connections and the listening socket are open. In such a state every further round is free of undefined
  behaviour and keeps the invariant. (The allocation of a list element is assumed to succeed; see
  \<open>add_node_failure_leaks\<close>.)
\<close>

theorem server_reachable_safe:
  assumes "server_step\<^sup>*\<^sup>* (server_start sock) s" and "sock \<noteq> -1"
  shows "\<exists>xs. server_tight s xs \<and>
    (\<forall>ev. event_ok ev s \<and> ev_node ev \<noteq> None \<longrightarrow> (\<exists>s' ys. accept_round ev s = Some s' \<and> server_tight s' ys))"
  using reachable_tight [OF assms] accept_round_ok by blast

definition demo_event :: accept_event where
  "demo_event = \<lparr>ev_signal = False, ev_sock = 7, ev_arg = Some 0, ev_thread = Some 1, ev_node = Some 0, ev_done = {}\<rparr>"

definition demo_busy :: server where
  "demo_busy = mark_finished {} (enlist 7 0 1 0 (server_start 3))"

lemma demo_busy_tight: "server_tight demo_busy [0]"
  unfolding demo_busy_def by (intro tight_mark tight_enlist start_tight) (simp_all add: server_start_def)

lemma demo_round: "accept_round demo_event (server_start 3) = Some demo_busy"
proof -
  have ok: "server_ok demo_busy [0]" using demo_busy_tight by (simp add: server_tight_def)
  have "\<not> node_done demo_busy 0" by (simp add: demo_busy_def mark_finished_def enlist_def)
  then have "SLIST_FOREACH_SAFE links reap_body (head demo_busy) demo_busy = Some demo_busy"
    using reap_body_ok [OF ok, of 0] ok
    by (simp add: SLIST_FOREACH_SAFE_def server_ok_def slist_rep_def slist_foreach_safe_loop.simps split: option.splits)
  then show ?thesis
    using add_node_enlist [of 0 0 1 "server_start 3" 7]
    by (simp add: accept_round_def demo_event_def Let_def demo_busy_def)
qed

theorem server_reachable_safe_witness:
  "server_step\<^sup>*\<^sup>* (server_start 3) demo_busy \<and> (\<exists>xs. server_tight demo_busy xs)"
proof -
  have "server_step (server_start 3) demo_busy"
    using demo_round by (intro server_step.round [of _ demo_event])
      (simp_all add: event_ok_def demo_event_def server_start_def)
  then have r: "server_step\<^sup>*\<^sup>* (server_start 3) demo_busy" by blast
  then show ?thesis using server_reachable_safe [OF r] by auto
qed

text \<open>
  C18. The search loop of \<open>main\<close> over the thread list joins and removes exactly the elements whose connection has
  finished, frees their arguments, and keeps the others in their order, although it unlinks and frees the element it
  stands on.
\<close>

theorem reap_removes_exactly_finished:
  assumes "server_ok s xs"
  shows "\<exists>s'. SLIST_FOREACH_SAFE links reap_body (head s) s = Some s' \<and>
    server_ok s' (filter (\<lambda>a. \<not> node_done s a) xs) \<and>
    live s' = live s - {node_tid s a |a. a \<in> set xs \<and> node_done s a} \<and>
    dom (args s') = dom (args s) - {node_arg s a |a. a \<in> set xs \<and> node_done s a}"
proof -
  obtain s' where s': "SLIST_FOREACH_SAFE links reap_body (head s) s = Some s'"
      "server_ok s' (filter (\<lambda>a. \<not> node_done s a) xs)" "without_nodes {a \<in> set xs. node_done s a} s s'"
    using foreach_reap [OF assms] by blast
  then have "live s' = live s - {node_tid s a |a. a \<in> set xs \<and> node_done s a}"
      "dom (args s') = dom (args s) - {node_arg s a |a. a \<in> set xs \<and> node_done s a}"
    by (auto simp: without_nodes_def)
  with s'(1,2) show ?thesis by blast
qed

theorem reap_removes_exactly_finished_witness:
  "\<exists>s'. SLIST_FOREACH_SAFE links reap_body (head (mark_finished {0} demo_busy)) (mark_finished {0} demo_busy) = Some s' \<and>
     server_ok s' [] \<and> live s' = {}"
proof -
  let ?s = "mark_finished {0} demo_busy"
  have "server_tight ?s [0]"
    unfolding demo_busy_def by (intro tight_mark tight_enlist start_tight) (simp_all add: server_start_def)
  then have ok: "server_ok ?s [0]" by (simp add: server_tight_def)
  have d: "node_done ?s 0" "live ?s = {1}" "node_tid ?s 0 = 1"
    by (simp_all add: demo_busy_def mark_finished_def enlist_def server_start_def)
  then have "{node_tid ?s a |a. a \<in> set [0] \<and> node_done ?s a} = {1}" by auto
  then show ?thesis using reap_removes_exactly_finished [OF ok] d by auto
qed

text \<open>
  C13. On every path through \<open>main\<close> (each failure during start-up, the exits of the daemonising parent processes, and
  the end of the accept loop after a signal) the process ends with a defined status and has released everything:
  all threads joined, all list elements and thread arguments freed, all sockets closed, and the data file that the
  threads created removed in the build without the driver. Three things are assumed: the timestamp thread can be
  created (in the build without the driver), every allocation of a list element in \<open>add_node\<close> succeeds (without it
  the thread and its argument are lost, see \<open>add_node_failure_leaks\<close>), and a signal requests the exit in the end.
  The other calls of the accept loop may fail, and what the system hands out (addresses, descriptors, thread
  numbers) is not in use. The threads can open the data file (see \<open>thread_fopen_failure_undefined\<close>).
\<close>

theorem main_releases_everything:
  assumes "use_char_device \<or> (\<exists>tid. create_timestamp os = Some tid \<and> tid \<noteq> 0)"
    and "events_ok evs (loop_start use_char_device os)"
  shows "\<exists>st s'. main use_char_device os evs argv process_start = Some (st, s') \<and> released use_char_device s'"
  by (rule main_ok [OF assms])

definition demo_os :: os_env where
  "demo_os =
     \<lparr>sigaction_int = 0, sigaction_term = 0, fork1 = 0, setsid = 5, fork2 = 0, chdir = 0, socket = 3, setsockopt = 0,
      bind_result = (\<lambda>i. if i < 2 then -1 else 0), listen = 0, create_timestamp = None\<rparr>"

definition demo_exit :: accept_event where
  "demo_exit = \<lparr>ev_signal = True, ev_sock = -1, ev_arg = None, ev_thread = None, ev_node = Some 1, ev_done = {}\<rparr>"

theorem main_releases_everything_witness:
  "\<exists>st s'. main True demo_os [demo_event, demo_exit] [''aesdsocket'', ''-d''] process_start = Some (st, s') \<and> released True s'"
proof -
  have s: "loop_start True demo_os = server_start 3"
    by (simp add: loop_start_def demo_os_def server_start_def process_start_def SLIST_HEAD_INITIALIZER_def)
  have n: "nodes demo_busy (Suc 0) = None"
    by (simp add: demo_busy_def mark_finished_def enlist_def server_start_def)
  have "accept_round demo_exit demo_busy = Some (signal_handler SIGTERM demo_busy)"
    by (simp add: accept_round_def demo_exit_def)
  moreover have "event_ok demo_event (server_start 3)" "ev_node demo_event \<noteq> None"
    by (simp_all add: event_ok_def demo_event_def server_start_def)
  moreover have "event_ok demo_exit demo_busy" "ev_node demo_exit \<noteq> None"
    by (simp_all add: event_ok_def demo_exit_def n)
  ultimately have "events_ok [demo_event, demo_exit] (loop_start True demo_os)"
    by (simp add: s demo_round) (simp add: signal_handler_def)
  then show ?thesis by (intro main_releases_everything) auto
qed

text \<open>\<open>n\<close> failed attempts, each followed by a pause, and a last attempt.\<close>

definition bind_calls :: "nat \<Rightarrow> bind_call list" where
  "bind_calls n = concat (replicate n [Bind, Sleep_seconds 10]) @ [Bind]"

lemma bind_loop_from:
  assumes "n + d \<le> 5" and "\<forall>i \<in> {n..<n + d}. results i \<noteq> 0" and "results (n + d) = 0 \<or> n + d = 5"
  shows "bind_loop results n = (results (n + d) = 0, bind_calls d)"
  using assms
proof (induction d arbitrary: n)
  case 0
  then show ?case by (subst bind_loop.simps) (auto simp: bind_calls_def)
next
  case (Suc d)
  have "bind_loop results (n + 1) = (results (n + 1 + d) = 0, bind_calls d)"
    using Suc.prems by (intro Suc.IH) auto
  moreover have "results n \<noteq> 0" "n < 5" using Suc.prems by auto
  ultimately show ?case by (subst bind_loop.simps) (simp add: bind_calls_def)
qed

text \<open>
  C32. The calls of the loop around \<open>bind\<close>, for all answers of \<open>bind\<close>. When attempt \<open>n\<close> (counted from 0, at most 5) is the
  first to succeed, the loop reports success after exactly \<open>n\<close> failed attempts, each followed by a pause of ten seconds,
  and the successful one. When the first six attempts fail, it reports failure after six attempts with five pauses of ten
  seconds between them. So it always ends, after at most six attempts.
\<close>

theorem bind_loop_retries:
  "(\<forall>n \<le> 5. results n = 0 \<and> (\<forall>i < n. results i \<noteq> 0) \<longrightarrow>
      bind_loop results 0 = (True, concat (replicate n [Bind, Sleep_seconds 10]) @ [Bind])) \<and>
   ((\<forall>i \<le> 5. results i \<noteq> 0) \<longrightarrow>
      bind_loop results 0 = (False, concat (replicate 5 [Bind, Sleep_seconds 10]) @ [Bind]))"
  using bind_loop_from [of 0 _ results] by (auto simp: bind_calls_def)

theorem bind_loop_retries_witness:
  "bind_loop (bind_result demo_os) 0 = (True, [Bind, Sleep_seconds 10, Bind, Sleep_seconds 10, Bind]) \<and>
   bind_loop (\<lambda>_. -1) 0 =
     (False, [Bind, Sleep_seconds 10, Bind, Sleep_seconds 10, Bind, Sleep_seconds 10, Bind, Sleep_seconds 10,
              Bind, Sleep_seconds 10, Bind])"
proof
  have "bind_result demo_os 2 = 0 \<and> (\<forall>i < 2. bind_result demo_os i \<noteq> 0)" by (auto simp: demo_os_def)
  then have "bind_loop (bind_result demo_os) 0 = (True, concat (replicate 2 [Bind, Sleep_seconds 10]) @ [Bind])"
    by (intro bind_loop_retries [THEN conjunct1, rule_format]) simp_all
  then show "bind_loop (bind_result demo_os) 0 = (True, [Bind, Sleep_seconds 10, Bind, Sleep_seconds 10, Bind])"
    by (simp add: numeral_eq_Suc)
  show "bind_loop (\<lambda>_. -1) 0 =
     (False, [Bind, Sleep_seconds 10, Bind, Sleep_seconds 10, Bind, Sleep_seconds 10, Bind, Sleep_seconds 10,
              Bind, Sleep_seconds 10, Bind])"
    using bind_loop_retries [of "\<lambda>_. -1"] by (simp add: numeral_eq_Suc)
qed

lemma add_node_failure_round:
  assumes t: "server_tight s xs" and ev: "event_ok ev s" and sock: "ev_sock ev \<noteq> -1"
    and new: "ev_arg ev = Some a" "ev_thread ev = Some tid" "ev_node ev = None"
  shows "\<exists>s1 ys. accept_round ev s = Some s1 \<and> server_ok s1 ys \<and> set ys \<subseteq> set xs \<and>
    tid \<in> live s1 \<and> args s1 a \<noteq> None \<and> a \<notin> node_arg s1 ` set ys \<and> tid \<notin> node_tid s1 ` set ys \<and>
    (\<forall>b \<in> set ys. nodes s1 b = nodes s b) \<and> timestamp_thread_id s1 = timestamp_thread_id s \<and>
    ts_thread s \<subseteq> live s1"
proof -
  define s0 where "s0 = (if ev_signal ev then signal_handler SIGTERM s else s)"
  have t0: "server_tight s0 xs" and e0: "event_ok ev s0" using t ev by (simp_all add: s0_def)
  have ts0: "ts_thread s0 = ts_thread s" by (simp add: s0_def ts_thread_def signal_handler_def)
  have fresh: "args s0 a = None" "tid \<notin> live s0" using e0 new by (simp_all add: event_ok_def)
  define s3 where "s3 = mark_finished (ev_done ev)
    (s0\<lparr>fds := insert (ev_sock ev) (fds s0), args := (args s0)(a \<mapsto> \<lparr>client_sock = ev_sock ev, finished = False\<rparr>),
        live := insert tid (live s0), file_present := True\<rparr>)"
  have ok0: "server_ok s0 xs" using t0 by (simp add: server_tight_def)
  have keep: "nodes s3 = nodes s" "live s3 = insert tid (live s0)" "args s3 a \<noteq> None"
    "timestamp_thread_id s3 = timestamp_thread_id s" "nodes s0 = nodes s"
    by (simp_all add: s3_def s0_def signal_handler_def) (simp add: mark_finished_def)
  have other: "node_arg s3 b \<noteq> a" "node_tid s3 b \<noteq> tid" if "b \<in> set xs" for b
    using ok0 that fresh by (auto simp: keep server_ok_def)
  have ok3: "server_ok s3 xs"
    using ok0 other unfolding keep(1) keep(5) [symmetric] by (auto simp: server_ok_def s3_def mark_finished_def)
  let ?ys = "filter (\<lambda>a. \<not> node_done s3 a) xs"
  obtain s1 where s1: "SLIST_FOREACH_SAFE links reap_body (head s3) s3 = Some s1"
      "server_ok s1 ?ys" "without_nodes {a \<in> set xs. node_done s3 a} s3 s1"
    using foreach_reap [OF ok3] by blast
  have round: "accept_round ev s = Some s1"
    using s1(1) sock new unfolding accept_round_def s0_def [symmetric]
    by (simp add: add_node_def Let_def s3_def)
  have same: "nodes s1 b = nodes s3 b" if "b \<in> set ?ys" for b
    using without_nodes_keep(1) [OF ok3 _ s1(3), of b] that by auto
  have "ts_thread s \<subseteq> live s0" "\<forall>b \<in> set xs. node_tid s3 b \<notin> ts_thread s"
    using t0 ts0 keep by (auto simp: server_tight_def)
  then have "ts_thread s \<subseteq> live s1" using s1(3) keep(2) by (auto simp: without_nodes_def)
  moreover have "tid \<in> live s1" "args s1 a \<noteq> None" "timestamp_thread_id s1 = timestamp_thread_id s"
    using s1(3) other keep by (auto simp: without_nodes_def restrict_map_def)
  moreover have "a \<notin> node_arg s1 ` set ?ys" "tid \<notin> node_tid s1 ` set ?ys" using same other by force+
  ultimately show ?thesis using round s1(2) same keep(1) by (intro exI [of _ s1] exI [of _ ?ys]) auto
qed

text \<open>
  C38. If the allocation of a list element fails, the thread that has just been started is not recorded: even after
  \<open>cleanup\<close> it has not been joined and its argument is still allocated.
\<close>

theorem add_node_failure_leaks:
  assumes t: "server_tight s xs" and ev: "event_ok ev s" and sock: "ev_sock ev \<noteq> -1"
    and new: "ev_arg ev = Some a" "ev_thread ev = Some tid" "ev_node ev = None"
  shows "\<exists>s1 s2. accept_round ev s = Some s1 \<and> cleanup None use_char_device s1 = Some s2 \<and> tid \<in> live s2 \<and> args s2 a \<noteq> None"
proof -
  obtain s1 ys where round: "accept_round ev s = Some s1" and s1: "server_ok s1 ys" "set ys \<subseteq> set xs"
      "tid \<in> live s1" "args s1 a \<noteq> None" "a \<notin> node_arg s1 ` set ys" "tid \<notin> node_tid s1 ` set ys"
      "\<forall>b \<in> set ys. nodes s1 b = nodes s b" "timestamp_thread_id s1 = timestamp_thread_id s" "ts_thread s \<subseteq> live s1"
    using add_node_failure_round [OF assms] by blast
  obtain s2 where s2: "SLIST_FOREACH_SAFE links (cleanup_body None) (head s1) s1 = Some s2" "without_nodes (set ys) s1 s2"
    using foreach_cleanup [OF s1(1)] by blast
  have left2: "tid \<in> live s2" "args s2 a \<noteq> None" "timestamp_thread_id s2 = timestamp_thread_id s"
    using s2(2) s1 by (auto simp: without_nodes_def restrict_map_def)
  have "node_tid s b \<notin> ts_thread s" "tid \<notin> ts_thread s" if "b \<in> set xs" for b
    using t ev new that by (auto simp: server_tight_def event_ok_def)
  then have "ts_thread s \<subseteq> live s2" using s2(2) s1 by (auto simp: without_nodes_def)
  moreover have "tid \<notin> ts_thread s" using t ev new by (auto simp: server_tight_def event_ok_def)
  ultimately show ?thesis
    using round s2(1) left2
    by (cases "timestamp_thread_id s = 0") (auto simp: cleanup_def pthread_join_def Let_def ts_thread_def)
qed

theorem add_node_failure_leaks_witness:
  "\<exists>s1 s2. accept_round (demo_event\<lparr>ev_node := None\<rparr>) (server_start 3) = Some s1 \<and> cleanup None True s1 = Some s2 \<and>
     1 \<in> live s2 \<and> args s2 0 \<noteq> None"
  by (rule add_node_failure_leaks [OF start_tight])
    (simp_all add: event_ok_def demo_event_def server_start_def)

text \<open>
  C39. A connection thread or the timestamp thread that cannot open the data file runs \<open>cleanup\<close> and \<open>exit\<close>. In every
  consistent state of the thread list this has no defined result, because \<open>cleanup\<close> joins the calling thread
  itself.
\<close>

theorem thread_fopen_failure_undefined:
  assumes "server_tight s xs" and "tid \<in> live s"
  shows "fail (Some tid) use_char_device s = None"
proof (rule ccontr)
  assume "fail (Some tid) use_char_device s \<noteq> None"
  then obtain s1 where s1: "SLIST_FOREACH_SAFE links (cleanup_body (Some tid)) (head s) s = Some s1"
      and ts: "timestamp_thread_id s1 \<noteq> 0 \<longrightarrow> pthread_join (Some tid) (timestamp_thread_id s1) {} s1 \<noteq> None"
    by (auto simp: fail_def cleanup_def Option.bind_eq_Some_conv split: if_splits)
  have "server_ok s xs" using assms(1) by (simp add: server_tight_def)
  note self = foreach_self [OF this s1]
  have "tid \<noteq> 0 \<and> timestamp_thread_id s = tid"
    using assms self(1) by (auto simp: server_tight_def ts_thread_def split: if_splits)
  then show False using ts self(2) by (auto simp: pthread_join_def)
qed

theorem thread_fopen_failure_undefined_witness: "fail (Some 1) True demo_busy = None"
  by (rule thread_fopen_failure_undefined [OF demo_busy_tight])
    (simp add: demo_busy_def mark_finished_def enlist_def server_start_def)

end
