(* ===== verification/Timestamp.thy ===== *)
theory Timestamp
  imports Connector
begin

text \<open>
  The timestamp thread of \<open>server/aesdsocket.c\<close>, which appends a line to the data file every ten seconds
  until the exit is requested, over the same \<open>stdio\<close> interface as the connection threads.
\<close>

section \<open>The line\<close>

text \<open>The broken-down time of \<open>localtime\<close>, with the full year and the month from 1 to 12.\<close>

record tm =
  tm_year :: nat
  tm_mon :: nat
  tm_mday :: nat
  tm_hour :: nat
  tm_min :: nat
  tm_sec :: nat

definition pad2 :: "nat \<Rightarrow> char list" where
  "pad2 n = (if n < 10 then ''0'' else []) @ show_nat n"

text \<open>
  \<open>strftime\<close> with the format of the thread and a buffer of 128 bytes: the text is stored when it fits with its
  terminator; otherwise the contents of the buffer are unspecified.
\<close>

definition timestamp_text :: "tm \<Rightarrow> char list" where
  "timestamp_text t =
     ''timestamp: '' @ show_nat (tm_year t) @ ''-'' @ pad2 (tm_mon t) @ ''-'' @ pad2 (tm_mday t) @ '' '' @
     pad2 (tm_hour t) @ '':'' @ pad2 (tm_min t) @ '':'' @ pad2 (tm_sec t) @ [newline]"

definition strftime :: "nat \<Rightarrow> tm \<Rightarrow> char list option" where
  "strftime bufsize t = (if length (timestamp_text t) < bufsize then Some (timestamp_text t) else None)"

section \<open>The thread\<close>

text \<open>
  One round of the loop sees \<open>exit_requested\<close> at the head of the loop and after the sleep, and the time.
\<close>

record tick =
  exit_at_head :: bool
  exit_after_sleep :: bool
  now :: tm

text \<open>What a round writes, under \<open>file_mutex\<close>.\<close>

definition timestamp_round :: "'f stdio \<Rightarrow> tm \<Rightarrow> 'f \<Rightarrow> 'f option" where
  "timestamp_round io tm_info f = do {
     timestamp \<leftarrow> strftime 128 tm_info;
     f \<leftarrow> fwrite io (cstring timestamp) f;
     fflush io f
   }"

text \<open>\<open>tv_sec\<close> is the absolute time of the next wake-up. With no further tick the thread sleeps.\<close>

fun timestamp_loop :: "'f stdio \<Rightarrow> tick list \<Rightarrow> int \<Rightarrow> 'f \<Rightarrow> (int \<times> 'f) option" where
  "timestamp_loop io [] tv_sec f = None"
| "timestamp_loop io (t # ticks) tv_sec f =
     (if exit_at_head t then Some (tv_sec, f)
      else
        let tv_sec = tv_sec + 10 in
        if exit_after_sleep t then Some (tv_sec, f)
        else do {
          f \<leftarrow> timestamp_round io (now t) f;
          timestamp_loop io ticks tv_sec f
        })"

definition timestamp_thread :: "'f stdio \<Rightarrow> 'f option \<Rightarrow> tick list \<Rightarrow> int \<Rightarrow> (unit + 'f) option" where
  "timestamp_thread io fopen ticks start =
     (case fopen of
        None \<Rightarrow> Some (Inl ())
      | Some f \<Rightarrow> do {
          (tv_sec, f) \<leftarrow> timestamp_loop io ticks start f;
          Some (Inr f)
        })"

section \<open>Properties\<close>

lemma length_show_nat: "n < 10 ^ Suc k \<Longrightarrow> length (show_nat n) \<le> Suc k"
proof (induction k arbitrary: n)
  case 0
  then show ?case by (simp add: show_nat.simps [of n])
next
  case (Suc k)
  show ?case
  proof (cases "n < 10")
    case False
    have "n div 10 < 10 ^ Suc k" using Suc.prems by auto
    then have "length (show_nat (n div 10)) \<le> Suc k" by (rule Suc.IH)
    then show ?thesis using False by (simp add: show_nat.simps [of n])
  qed (simp add: show_nat.simps [of n])
qed

text \<open>A time as \<open>localtime\<close> returns it, before the year 10000.\<close>

definition valid_tm :: "tm \<Rightarrow> bool" where
  "valid_tm t \<longleftrightarrow> tm_year t < 10000 \<and> 1 \<le> tm_mon t \<and> tm_mon t \<le> 12 \<and> 1 \<le> tm_mday t \<and> tm_mday t \<le> 31 \<and>
     tm_hour t \<le> 23 \<and> tm_min t \<le> 59 \<and> tm_sec t \<le> 60"

lemma length_pad2:
  assumes "n < 100"
  shows "length (pad2 n) = 2"
proof -
  have "n div 10 < 10" using assms by auto
  then show ?thesis by (simp add: pad2_def show_nat.simps [of n] show_nat.simps [of "n div 10"])
qed

lemma timestamp_fits: "valid_tm t \<Longrightarrow> strftime 128 t = Some (timestamp_text t)"
  using length_show_nat [of "tm_year t" 3]
  by (simp add: valid_tm_def strftime_def timestamp_text_def length_pad2)

lemma timestamp_no_NUL: "cstring (timestamp_text t) = timestamp_text t"
proof -
  have "c \<noteq> NUL" if "c \<in> set (show_nat n)" for c n
    using show_nat_digits [of n] that by auto
  then have "\<forall>c \<in> set (timestamp_text t). c \<noteq> NUL"
    by (auto simp: timestamp_text_def pad2_def NUL_def split: if_splits)
  then show ?thesis unfolding cstring_def by (simp add: takeWhile_eq_all_conv)
qed

lemma timestamp_round_plain:
  assumes "valid_tm t" and "wbuf f = []"
  shows "timestamp_round plain_stdio t f =
    Some (f\<lparr>bytes := bytes f @ timestamp_text t, offset := length (bytes f @ timestamp_text t), wbuf := []\<rparr>)"
proof -
  have "timestamp_text t \<noteq> []" by (simp add: timestamp_text_def)
  then show ?thesis
    using assms
    by (simp add: timestamp_round_def timestamp_fits timestamp_no_NUL plain_stdio_def plain_flush_def)
qed

lemma timestamp_loop_plain:
  assumes "wbuf f = []" and "\<forall>t \<in> set ts. valid_tm (now t) \<and> \<not> exit_at_head t \<and> \<not> exit_after_sleep t"
    and "exit_at_head e \<or> exit_after_sleep e"
  shows "\<exists>tv f'. timestamp_loop plain_stdio (ts @ e # rest) tv0 f = Some (tv, f') \<and>
    bytes f' = bytes f @ concat (map (\<lambda>t. timestamp_text (now t)) ts) \<and>
    tv = tv0 + 10 * int (length ts) + (if exit_at_head e then 0 else 10)"
  using assms
proof (induction ts arbitrary: f tv0)
  case Nil
  then show ?case by auto
next
  case (Cons t ts)
  define f1 where "f1 = f\<lparr>bytes := bytes f @ timestamp_text (now t),
      offset := length (bytes f @ timestamp_text (now t)), wbuf := []\<rparr>"
  have "timestamp_loop plain_stdio ((t # ts) @ e # rest) tv0 f =
      timestamp_loop plain_stdio (ts @ e # rest) (tv0 + 10) f1"
    using Cons.prems(1,2) by (simp add: Let_def timestamp_round_plain f1_def)
  moreover have ts: "\<forall>t \<in> set ts. valid_tm (now t) \<and> \<not> exit_at_head t \<and> \<not> exit_after_sleep t"
    using Cons.prems(2) by simp
  moreover have f1: "wbuf f1 = []" "bytes f1 = bytes f @ timestamp_text (now t)" by (simp_all add: f1_def)
  moreover note Cons.IH [OF f1(1) ts Cons.prems(3), of "tv0 + 10"]
  ultimately show ?case by (auto simp: algebra_simps)
qed

text \<open>
  C31. The timestamp thread on the plain data file: until the exit is requested it appends, for every wake-up and in
  order, one line \<open>timestamp: YYYY-MM-DD hh:mm:ss\<close> and nothing else, which always fits into its buffer; it returns
  when the exit flag is seen at either of its two tests.
\<close>

theorem timestamp_thread_appends_lines:
  assumes "wbuf f = []" and "\<forall>t \<in> set ts. valid_tm (now t) \<and> \<not> exit_at_head t \<and> \<not> exit_after_sleep t"
    and "exit_at_head e \<or> exit_after_sleep e"
  shows "\<exists>f'. timestamp_thread plain_stdio (Some f) (ts @ e # rest) start = Some (Inr f') \<and>
    bytes f' = bytes f @ concat (map (\<lambda>t. timestamp_text (now t)) ts)"
  using timestamp_loop_plain [OF assms, of rest start] by (auto simp: timestamp_thread_def)

definition demo_tm :: tm where
  "demo_tm = \<lparr>tm_year = 2024, tm_mon = 2, tm_mday = 29, tm_hour = 23, tm_min = 59, tm_sec = 5\<rparr>"

theorem timestamp_thread_appends_lines_witness:
  "\<exists>f'. timestamp_thread plain_stdio (Some \<lparr>bytes = ''x'', offset = 0, wbuf = []\<rparr>)
       [\<lparr>exit_at_head = False, exit_after_sleep = False, now = demo_tm\<rparr>,
        \<lparr>exit_at_head = False, exit_after_sleep = True, now = demo_tm\<rparr>] 100 = Some (Inr f') \<and>
     bytes f' = ''xtimestamp: 2024-02-29 23:59:05'' @ [newline]"
proof -
  have n: "show_nat 2024 = ''2024''" "show_nat 2 = ''2''" "show_nat 29 = ''29''" "show_nat 23 = ''23''"
    "show_nat 59 = ''59''" "show_nat 5 = ''5''"
    by (simp_all add: show_nat.simps digit_char_def char_of_def bit_0)
  have "timestamp_text demo_tm = ''timestamp: 2024-02-29 23:59:05'' @ [newline]"
    by (simp add: timestamp_text_def demo_tm_def pad2_def n)
  moreover have "valid_tm demo_tm" by (simp add: valid_tm_def demo_tm_def)
  ultimately show ?thesis
    using timestamp_thread_appends_lines [of "\<lparr>bytes = ''x'', offset = 0, wbuf = []\<rparr>"
        "[\<lparr>exit_at_head = False, exit_after_sleep = False, now = demo_tm\<rparr>]"
        "\<lparr>exit_at_head = False, exit_after_sleep = True, now = demo_tm\<rparr>" "[]" 100]
    by simp
qed

section \<open>Connections and time stamps on one file\<close>

text \<open>
  The threads of the server in the build without the driver, each with a stream of its own on the data file, in
  the order in which they take \<open>file_mutex\<close>.
\<close>

datatype file_event = Connection int "char list list" | Stamp tm

fun serve_events ::
  "'f stdio \<Rightarrow> ('f \<Rightarrow> 'f) \<Rightarrow> (nat \<Rightarrow> bool) \<Rightarrow> file_event list \<Rightarrow> 'f \<Rightarrow> (char list list \<times> 'f) option" where
  "serve_events io reopen realloc [] f = Some ([], f)"
| "serve_events io reopen realloc (Stamp t # evs) f = do {
     f \<leftarrow> timestamp_round io t (reopen f);
     serve_events io reopen realloc evs f
   }"
| "serve_events io reopen realloc (Connection sock chunks # evs) f = do {
     r \<leftarrow> connector io (Some (reopen f)) realloc chunks False \<lparr>client_sock = sock, finished = False\<rparr>;
     (case r of
        Inl _ \<Rightarrow> None
      | Inr e \<Rightarrow> do {
          (rs, f) \<leftarrow> serve_events io reopen realloc evs (data e);
          Some (concat (sent e) # rs, f)
        })
   }"

text \<open>A well-formed seek command; the plain file does not support it.\<close>

definition seek_command :: "char list list \<Rightarrow> bool" where
  "seek_command chunks \<longleftrightarrow>
     received chunks \<noteq> [] \<and>
     (case strstr (cstring (first_line (received chunks) @ [NUL])) ioctlString of
        None \<Rightarrow> False | Some c \<Rightarrow> parse_seekto c \<noteq> None)"

fun event_valid :: "file_event \<Rightarrow> bool" where
  "event_valid (Connection sock chunks) \<longleftrightarrow> plain_message chunks \<or> seek_command chunks"
| "event_valid (Stamp t) \<longleftrightarrow> valid_tm t"

text \<open>What an event adds to the file.\<close>

fun event_text :: "file_event \<Rightarrow> char list" where
  "event_text (Connection sock chunks) = (if seek_command chunks then [] else first_line (received chunks))"
| "event_text (Stamp t) = timestamp_text t"

fun is_connection :: "file_event \<Rightarrow> bool" where
  "is_connection (Connection sock chunks) \<longleftrightarrow> True"
| "is_connection (Stamp t) \<longleftrightarrow> False"

fun replies :: "char list \<Rightarrow> file_event list \<Rightarrow> char list list" where
  "replies c [] = []"
| "replies c (ev # evs) =
     (if is_connection ev then [c @ event_text ev] else []) @ replies (c @ event_text ev) evs"

lemma replies_eq:
  "replies c evs = map (\<lambda>i. c @ concat (map event_text (take (Suc i) evs)))
     (filter (\<lambda>i. is_connection (evs ! i)) [0..<length evs])"
proof (induction evs arbitrary: c)
  case (Cons ev evs)
  have "[0..<length (ev # evs)] = 0 # map Suc [0..<length evs]" by (simp add: upt_conv_Cons map_Suc_upt del: upt_Suc)
  then show ?case by (simp add: Cons.IH filter_map comp_def del: upt_Suc)
qed simp

lemma connection_plain:
  assumes "event_valid (Connection sock chunks)" and "wbuf f = []" and "\<forall>n. realloc n"
  shows "\<exists>e. connector plain_stdio (Some (plain_reopen f)) realloc chunks False a = Some (Inr e) \<and>
    concat (sent e) = bytes f @ event_text (Connection sock chunks) \<and> wbuf (data e) = [] \<and>
    bytes (data e) = bytes f @ event_text (Connection sock chunks)"
proof (cases "seek_command chunks")
  case True
  then obtain c st where c: "received chunks \<noteq> []" "parse_seekto c = Some st"
      "strstr (cstring (first_line (received chunks) @ [NUL])) ioctlString = Some c"
    by (auto simp: seek_command_def split: option.splits)
  then show ?thesis
    using pf.connector_seeks [of "plain_reopen f" chunks realloc c st a] assms(3) True
    by (auto simp: plain_reopen_def)
next
  case False
  then show ?thesis
    using pf.connector_writes [of "plain_reopen f" chunks realloc _ a] assms by (auto simp: plain_reopen_def)
qed

lemma serve_events_plain:
  assumes "wbuf f = []" and "\<forall>ev \<in> set evs. event_valid ev" and "\<forall>n. realloc n"
  shows "\<exists>f'. serve_events plain_stdio plain_reopen realloc evs f = Some (replies (bytes f) evs, f') \<and>
    bytes f' = bytes f @ concat (map event_text evs)"
  using assms
proof (induction evs arbitrary: f)
  case (Cons ev evs)
  show ?case
  proof (cases ev)
    case (Connection sock chunks)
    then obtain e where e: "connector plain_stdio (Some (plain_reopen f)) realloc chunks False
          \<lparr>client_sock = sock, finished = False\<rparr> = Some (Inr e)"
        "concat (sent e) = bytes f @ event_text ev" "wbuf (data e) = []" "bytes (data e) = bytes f @ event_text ev"
      using connection_plain [of sock chunks f realloc "\<lparr>client_sock = sock, finished = False\<rparr>"] Cons.prems by force
    moreover obtain f' where "serve_events plain_stdio plain_reopen realloc evs (data e) =
          Some (replies (bytes (data e)) evs, f')" "bytes f' = bytes (data e) @ concat (map event_text evs)"
      using Cons.IH [OF e(3) _ Cons.prems(3)] Cons.prems(2) by auto
    ultimately show ?thesis using Connection by (simp del: event_text.simps)
  next
    case (Stamp t)
    then show ?thesis
      using Cons.IH [of "(plain_reopen f)\<lparr>bytes := bytes f @ timestamp_text t, offset := length (bytes f @ timestamp_text t), wbuf := []\<rparr>"]
        Cons.prems by (simp add: timestamp_round_plain plain_reopen_def)
  qed
qed simp

text \<open>
  C17. The server with a plain data file, its connection threads and its timestamp thread interleaved in any order of their
  critical sections: each client whose message is a line without a seek command gets everything that was in the file
  before, all messages and time stamps since, and its own message; a well-formed seek command, which the plain file
  does not support, adds nothing and is answered with the whole file. At the end the file holds exactly the messages
  and time stamps in this order.
\<close>

theorem server_interleaved_with_timestamps:
  assumes "wbuf f = []" and "\<forall>ev \<in> set evs. event_valid ev" and "\<forall>n. realloc n"
  shows "\<exists>f'. serve_events plain_stdio plain_reopen realloc evs f =
      Some (map (\<lambda>i. bytes f @ concat (map event_text (take (Suc i) evs)))
              (filter (\<lambda>i. is_connection (evs ! i)) [0..<length evs]), f') \<and>
    bytes f' = bytes f @ concat (map event_text evs)"
  using serve_events_plain [OF assms] by (simp add: replies_eq)

theorem server_interleaved_with_timestamps_witness:
  "\<exists>f'. serve_events plain_stdio plain_reopen (\<lambda>_. True)
       [Connection 4 [''a'', ''b'' @ [newline]], Stamp demo_tm, Connection 5 [''c'' @ [newline]]]
       \<lparr>bytes = [], offset = 0, wbuf = []\<rparr> =
     Some ([''ab'' @ [newline], ''ab'' @ [newline] @ timestamp_text demo_tm @ ''c'' @ [newline]], f')"
proof -
  let ?evs = "[Connection 4 [''a'', ''b'' @ [newline]], Stamp demo_tm, Connection 5 [''c'' @ [newline]]]"
  have t: "event_text (Connection 4 [''a'', [CHR ''b'', newline]]) = ''ab'' @ [newline]"
    "event_text (Connection 5 [[CHR ''c'', newline]]) = ''c'' @ [newline]"
    "event_text (Stamp demo_tm) = timestamp_text demo_tm"
    by (simp_all add: received_def first_line_def seek_command_def cstring_def NUL_def ioctlString_def)
  have v: "\<forall>ev \<in> set ?evs. event_valid ev"
    by (simp add: plain_message_def received_def first_line_def cstring_def NUL_def ioctlString_def valid_tm_def demo_tm_def)
  show ?thesis
    using server_interleaved_with_timestamps [of "\<lparr>bytes = [], offset = 0, wbuf = []\<rparr>", OF _ v, of "\<lambda>_. True"]
    by (auto simp: upt_rec t simp del: event_text.simps serve_events.simps)
qed

end
