(* ===== verification/Server_Clock.thy ===== *)
theory Server_Clock
  imports Server_Progress Timestamp
begin

text \<open>
  The server of the build without the driver, all its threads at the same time: the connection threads of
  \<open>Server_Threads\<close> and the timestamp thread, interleaved statement by statement on one plain file and one mutex.
  The main result is that under every scheduler all threads return, and that the file and the replies are those of the
  critical sections one after the other.
\<close>

section \<open>The timestamp thread as a state machine\<close>

text \<open>
  Where the thread stands: at \<open>fopen\<close>, at the head of its loop, waiting for \<open>file_mutex\<close> with the time stamp in its buffer,
  at the statements between \<open>pthread_mutex_lock\<close> and \<open>pthread_mutex_unlock\<close>, or returned.
\<close>

datatype stamp_pc =
    Opening
  | Waiting
  | StampLocking "char list"
  | StampWriting "char list"
  | StampFlushing
  | StampUnlocking
  | Stopped

text \<open>
  \<open>ts_sec\<close> is the absolute time of the next wake-up, and \<open>sticks\<close> what the following rounds of the loop see of the exit
  flag and of the time.
\<close>

record 'f stamp_thread =
  spc :: stamp_pc
  sstream :: 'f
  ts_sec :: int
  sticks :: "tick list"

text \<open>
  The process. \<open>log\<close> is the order in which \<open>file_mutex\<close> has been taken: the index of a connection, or the text of a
  time stamp. The timestamp thread owns the mutex under the index after the last connection.
\<close>

record ('f, 's) clocked =
  conns :: "('f, 's) pool"
  clock :: "'f stamp_thread"
  log :: "(nat + char list) list"

text \<open>
  A step of the timestamp thread. Sleeping, both tests of the exit flag, \<open>localtime\<close> and \<open>strftime\<close> touch nothing that
  the threads share and are one step; when the flag is seen, closing the stream, which has nothing left to write, belongs
  to it. Without a further tick the thread sleeps. \<open>fopen\<close> succeeds; what the thread does otherwise is in \<open>Server_Main\<close>.
\<close>

definition stamp_step ::
  "'f stdio \<Rightarrow> ('s \<Rightarrow> 'f) \<Rightarrow> ('s \<Rightarrow> 'f \<Rightarrow> 'f) \<Rightarrow> ('f \<Rightarrow> 's) \<Rightarrow> ('f, 's) clocked \<Rightarrow> ('f, 's) clocked option" where
  "stamp_step io new_stream attach detach x =
     (let p = conns x; c = clock x in
      case spc c of
        Opening \<Rightarrow> Some (x\<lparr>clock := c\<lparr>spc := Waiting, sstream := new_stream (shared p)\<rparr>\<rparr>)
      | Waiting \<Rightarrow>
          (case sticks c of
             [] \<Rightarrow> None
           | t # ticks \<Rightarrow>
               if exit_at_head t then Some (x\<lparr>clock := c\<lparr>spc := Stopped, sticks := ticks\<rparr>\<rparr>)
               else
                 let c = c\<lparr>sticks := ticks, ts_sec := ts_sec c + 10\<rparr> in
                 if exit_after_sleep t then Some (x\<lparr>clock := c\<lparr>spc := Stopped\<rparr>\<rparr>)
                 else do {
                   timestamp \<leftarrow> strftime 128 (now t);
                   Some (x\<lparr>clock := c\<lparr>spc := StampLocking (cstring timestamp)\<rparr>\<rparr>)
                 })
      | StampLocking timestamp \<Rightarrow> do {
          ensure (owner p = None);
          Some (x\<lparr>conns := p\<lparr>owner := Some (length (threads p))\<rparr>, clock := c\<lparr>spc := StampWriting timestamp\<rparr>,
                  log := log x @ [Inr timestamp]\<rparr>)
        }
      | StampWriting timestamp \<Rightarrow> do {
          f \<leftarrow> fwrite io timestamp (attach (shared p) (sstream c));
          Some (x\<lparr>conns := p\<lparr>shared := detach f\<rparr>, clock := c\<lparr>spc := StampFlushing, sstream := f\<rparr>\<rparr>)
        }
      | StampFlushing \<Rightarrow> do {
          f \<leftarrow> fflush io (attach (shared p) (sstream c));
          Some (x\<lparr>conns := p\<lparr>shared := detach f\<rparr>, clock := c\<lparr>spc := StampUnlocking, sstream := f\<rparr>\<rparr>)
        }
      | StampUnlocking \<Rightarrow> Some (x\<lparr>conns := p\<lparr>owner := None\<rparr>, clock := c\<lparr>spc := Waiting\<rparr>\<rparr>)
      | Stopped \<Rightarrow> None)"

text \<open>A step of the process is a step of a connection thread or of the timestamp thread.\<close>

inductive clocked_step ::
  "'f stdio \<Rightarrow> ('s \<Rightarrow> 'f) \<Rightarrow> ('s \<Rightarrow> 'f \<Rightarrow> 'f) \<Rightarrow> ('f \<Rightarrow> 's) \<Rightarrow> (nat \<Rightarrow> bool) \<Rightarrow>
     ('f, 's) clocked \<Rightarrow> ('f, 's) clocked \<Rightarrow> bool"
  for io new_stream attach detach realloc where
  conn: "i < length (threads (conns x)) \<Longrightarrow>
     thread_step io new_stream attach detach realloc i (conns x) = Some p \<Longrightarrow>
     clocked_step io new_stream attach detach realloc x
       (x\<lparr>conns := p, log := log x @ map Inl (drop (length (order (conns x))) (order p))\<rparr>)"
| stamp: "stamp_step io new_stream attach detach x = Some y \<Longrightarrow> clocked_step io new_stream attach detach realloc x y"

inductive_cases clocked_stepE: "clocked_step io new_stream attach detach realloc x y"

definition clocked_start ::
  "'f \<Rightarrow> ('f \<Rightarrow> 's) \<Rightarrow> (int \<times> char list list) list \<Rightarrow> int \<Rightarrow> tick list \<Rightarrow> ('f, 's) clocked" where
  "clocked_start f detach cs start ticks =
     \<lparr>conns = pool_start f detach cs, clock = \<lparr>spc = Opening, sstream = f, ts_sec = start, sticks = ticks\<rparr>, log = []\<rparr>"

section \<open>The history of the file\<close>

text \<open>What an entry of the history adds to the file.\<close>

fun entry_text :: "(int \<times> char list list) list \<Rightarrow> nat + char list \<Rightarrow> char list" where
  "entry_text cs (Inl i) = event_text (Connection (fst (cs ! i)) (snd (cs ! i)))"
| "entry_text cs (Inr timestamp) = timestamp"

definition file_after :: "(int \<times> char list list) list \<Rightarrow> char list \<Rightarrow> (nat + char list) list \<Rightarrow> char list" where
  "file_after cs bs es = bs @ concat (map (entry_text cs) es)"

definition clients :: "(nat + char list) list \<Rightarrow> nat list" where
  "clients es = concat (map (case_sum (\<lambda>i. [i]) (\<lambda>_. [])) es)"

definition stamps :: "(nat + char list) list \<Rightarrow> char list list" where
  "stamps es = concat (map (case_sum (\<lambda>_. []) (\<lambda>s. [s])) es)"

lemma history_simps [simp]:
  "clients [] = []" "clients (es @ fs) = clients es @ clients fs" "clients (Inl i # es) = i # clients es"
  "clients (Inr s # es) = clients es"
  "stamps [] = []" "stamps (es @ fs) = stamps es @ stamps fs" "stamps (Inl i # es) = stamps es"
  "stamps (Inr s # es) = s # stamps es"
  "file_after cs bs [] = bs" "file_after cs bs (es @ [e]) = file_after cs bs es @ entry_text cs e"
  by (simp_all add: clients_def stamps_def file_after_def)

text \<open>The time stamps of the rounds before the one that sees the exit flag, and those still to be written.\<close>

definition tick_texts :: "tick list \<Rightarrow> char list list" where
  "tick_texts ticks = map (\<lambda>t. timestamp_text (now t)) (takeWhile (\<lambda>t. \<not> exit_at_head t \<and> \<not> exit_after_sleep t) ticks)"

definition pending :: "'f stamp_thread \<Rightarrow> char list list" where
  "pending c =
     (case spc c of StampLocking s \<Rightarrow> s # tick_texts (sticks c) | Stopped \<Rightarrow> [] | _ \<Rightarrow> tick_texts (sticks c))"

fun stamp_critical :: "stamp_pc \<Rightarrow> bool" where
  "stamp_critical (StampWriting s) \<longleftrightarrow> True"
| "stamp_critical StampFlushing \<longleftrightarrow> True"
| "stamp_critical StampUnlocking \<longleftrightarrow> True"
| "stamp_critical _ \<longleftrightarrow> False"

text \<open>What the timestamp thread has still to bring to the file before it releases the mutex.\<close>

definition unwritten :: "plain_file stamp_thread \<Rightarrow> char list" where
  "unwritten c = (case spc c of StampWriting s \<Rightarrow> s | StampFlushing \<Rightarrow> wbuf (sstream c) | _ \<Rightarrow> [])"

text \<open>The pool as the connection threads see it: the mutex held by the timestamp thread is held by none of them.\<close>

definition view :: "('f, 's) pool \<Rightarrow> ('f, 's) pool" where
  "view p = (if owner p = Some (length (threads p)) then p\<lparr>owner := None\<rparr> else p)"

section \<open>The invariant\<close>

definition clock_ok :: "tick list \<Rightarrow> (plain_file, char list) clocked \<Rightarrow> bool" where
  "clock_ok ticks x \<longleftrightarrow>
     stamps (log x) @ pending (clock x) = tick_texts ticks \<and>
     (stamp_critical (spc (clock x)) \<longleftrightarrow> owner (conns x) = Some (length (threads (conns x)))) \<and>
     (spc (clock x) \<noteq> Stopped \<longrightarrow> (\<exists>t \<in> set (sticks (clock x)). exit_at_head t \<or> exit_after_sleep t)) \<and>
     (\<forall>t \<in> set (sticks (clock x)). valid_tm (now t)) \<and>
     (spc (clock x) \<noteq> Opening \<and> spc (clock x) \<noteq> StampFlushing \<longrightarrow> wbuf (sstream (clock x)) = [])"

text \<open>
  The file holds what the history says, up to the critical section that is running: what remains of a connection's section
  is what remains of it on the file before it, and what remains of a time stamp is still to be written.
\<close>

definition file_ok :: "(nat \<Rightarrow> bool) \<Rightarrow> (int \<times> char list list) list \<Rightarrow> char list \<Rightarrow> (plain_file, char list) clocked \<Rightarrow> bool" where
  "file_ok realloc cs bs x \<longleftrightarrow>
     (case owner (view (conns x)) of
        None \<Rightarrow> shared (conns x) @ unwritten (clock x) = file_after cs bs (log x)
      | Some i \<Rightarrow> \<exists>es. log x = es @ [Inl i] \<and>
          section_of plain_stdio realloc (input (threads (conns x) ! i)) (plain_new (file_after cs bs es)) =
            crit_rest plain_stdio (pc (threads (conns x) ! i))
              (plain_attach (shared (conns x)) (stream (threads (conns x) ! i))))"

text \<open>A connection that has left its critical section has sent the file as it was after its own entry.\<close>

definition replies_ok :: "(int \<times> char list list) list \<Rightarrow> char list \<Rightarrow> (plain_file, char list) clocked \<Rightarrow> bool" where
  "replies_ok cs bs x \<longleftrightarrow>
     (\<forall>es i fs. log x = es @ Inl i # fs \<longrightarrow> owner (conns x) \<noteq> Some i \<longrightarrow>
        reply_of (conns x) i = file_after cs bs (es @ [Inl i]))"

definition clocked_ok ::
  "(nat \<Rightarrow> bool) \<Rightarrow> (int \<times> char list list) list \<Rightarrow> char list \<Rightarrow> tick list \<Rightarrow> (plain_file, char list) clocked \<Rightarrow> bool" where
  "clocked_ok realloc cs bs ticks x \<longleftrightarrow>
     pool_ok plain_new realloc cs (view (conns x)) \<and> clients (log x) = order (conns x) \<and>
     clock_ok ticks x \<and> file_ok realloc cs bs x \<and> replies_ok cs bs x"

text \<open>What the clients may send: nothing, a line, or a well-formed seek command.\<close>

definition valid_clients :: "(int \<times> char list list) list \<Rightarrow> bool" where
  "valid_clients cs \<longleftrightarrow> (\<forall>c \<in> set cs. received (snd c) = [] \<or> event_valid (Connection (fst c) (snd c)))"

lemma start_ok:
  assumes "\<forall>t \<in> set ticks. valid_tm (now t)" and "\<exists>t \<in> set ticks. exit_at_head t \<or> exit_after_sleep t"
  shows "clocked_ok realloc cs (bytes f) ticks (clocked_start f bytes cs start ticks)"
  using assms ps.start_good [of realloc cs f]
  by (simp add: clocked_ok_def clocked_start_def clock_ok_def file_ok_def replies_ok_def good_def view_def pool_start_def
      pending_def unwritten_def)

section \<open>Steps of the timestamp thread\<close>

lemma view_simps [simp]:
  "owner p = None \<Longrightarrow> view p = p"
  "i < length (threads p) \<Longrightarrow> owner p = Some i \<Longrightarrow> view p = p"
  "threads (view p) = threads p" "order (view p) = order p" "shared (view p) = shared p"
  by (auto simp: view_def)

lemma pool_ok_cong:
  "threads p' = threads p \<Longrightarrow> owner p' = owner p \<Longrightarrow> order p' = order p \<Longrightarrow>
     pool_ok new_stream realloc cs p' = pool_ok new_stream realloc cs p"
  by (simp add: pool_ok_def owner_ok_def served_def cong: option.case_cong)

lemma clocked_okD:
  assumes "clocked_ok realloc cs bs ticks x"
  shows "pool_ok plain_new realloc cs (view (conns x))" "clients (log x) = order (conns x)"
    "clock_ok ticks x" "file_ok realloc cs bs x" "replies_ok cs bs x" "length (threads (conns x)) = length cs"
    "distinct (clients (log x))" "\<And>i. i \<in> set (clients (log x)) \<Longrightarrow> i < length cs"
proof -
  show ok: "pool_ok plain_new realloc cs (view (conns x))" and "clients (log x) = order (conns x)" and
    "clock_ok ticks x" and "file_ok realloc cs bs x" and "replies_ok cs bs x"
    using assms by (simp_all add: clocked_ok_def)
  show "length (threads (conns x)) = length cs" using ok by (auto simp: pool_ok_def)
  show "distinct (clients (log x))" "\<And>i. i \<in> set (clients (log x)) \<Longrightarrow> i < length cs"
    using assms by (auto simp: clocked_ok_def pool_ok_def owner_ok_def)
qed

text \<open>An entry of a connection that stays in the history when time stamps are added to it.\<close>

lemma history_Inr:
  assumes "es @ map Inr ss = us @ Inl i # vs"
  obtains ws where "es = us @ Inl i # ws"
  using assms
proof (induction ss arbitrary: vs thesis rule: rev_induct)
  case Nil
  then show ?case by simp
next
  case (snoc s ss)
  from snoc.prems(2) have "(es @ map Inr ss) @ [Inr s] = us @ Inl i # vs" by simp
  then show ?case using snoc.IH snoc.prems(1) by (cases vs rule: rev_cases) auto
qed

text \<open>A step of the timestamp thread that takes the mutex, releases it, or changes the file while it holds it.\<close>

lemma stamp_inside_ok:
  assumes ok: "clocked_ok realloc cs bs ticks x" and none: "owner (view (conns x)) = None"
    and same: "threads (conns y) = threads (conns x)" "order (conns y) = order (conns x)" "log y = log x @ map Inr ss"
    and own: "owner (conns y) = None \<or> owner (conns y) = Some (length (threads (conns x)))"
    and clock: "clock_ok ticks y" and fl: "shared (conns y) @ unwritten (clock y) = file_after cs bs (log y)"
  shows "clocked_ok realloc cs bs ticks y"
proof -
  note o = clocked_okD [OF ok]
  have none': "owner (view (conns y)) = None" using own same(1) by (auto simp: view_def)
  have "pool_ok plain_new realloc cs (view (conns y))"
    using o(1) pool_ok_cong [of "view (conns y)" "view (conns x)"] none none' same by simp
  moreover have "replies_ok cs bs y"
    unfolding replies_ok_def
  proof (intro allI impI)
    fix es i fs
    assume "log y = es @ Inl i # fs"
    then have "log x @ map Inr ss = es @ Inl i # fs" by (simp add: same)
    then obtain ws where l: "log x = es @ Inl i # ws" by (rule history_Inr)
    then have "i < length cs" using o(8) [of i] by simp
    then have "owner (conns x) \<noteq> Some i" using none o(6) by (auto simp: view_def split: if_splits)
    then show "reply_of (conns y) i = file_after cs bs (es @ [Inl i])"
      using o(5) l by (auto simp: replies_ok_def same reply_of_def)
  qed
  moreover have "clients (log y) = order (conns y)" using o(2) by (induction ss) (simp_all add: same clients_def)
  ultimately show ?thesis using clock fl none' by (simp add: clocked_ok_def file_ok_def)
qed

text \<open>A step of the timestamp thread outside of the mutex.\<close>

lemma stamp_outside_ok:
  assumes "clocked_ok realloc cs bs ticks x" and "y = x\<lparr>clock := c\<rparr>" and "clock_ok ticks y"
    and "\<not> stamp_critical (spc (clock x))" and "\<not> stamp_critical (spc c)"
  shows "clocked_ok realloc cs bs ticks y"
proof -
  have "unwritten (clock x) = []" "unwritten c = []"
    using assms(4,5) by (auto simp: unwritten_def split: stamp_pc.splits)
  then show ?thesis
    using assms(1,3) unfolding clocked_ok_def file_ok_def replies_ok_def assms(2) by (simp cong: option.case_cong)
qed

lemma stamp_step_outside:
  assumes ok: "clocked_ok realloc cs bs ticks x" and st: "stamp_step plain_stdio plain_new plain_attach bytes x = Some y"
    and pc: "spc (clock x) = Opening \<or> spc (clock x) = Waiting"
  shows "clocked_ok realloc cs bs ticks y"
proof (cases "spc (clock x) = Opening")
  case True
  then have y: "y = x\<lparr>clock := (clock x)\<lparr>spc := Waiting, sstream := plain_new (shared (conns x))\<rparr>\<rparr>"
    using st by (simp add: stamp_step_def Let_def)
  then show ?thesis
    using clocked_okD(3) [OF ok] True
    by (intro stamp_outside_ok [OF ok y]) (simp_all add: y clock_ok_def pending_def plain_new_def)
next
  case False
  then have w: "spc (clock x) = Waiting" using pc by simp
  then obtain t ticks' where t: "sticks (clock x) = t # ticks'" "valid_tm (now t)"
    using clocked_okD(3) [OF ok] by (cases "sticks (clock x)") (auto simp: clock_ok_def)
  then show ?thesis
    using st clocked_okD(3) [OF ok] w
    by (intro stamp_outside_ok [OF ok, of y "clock y"])
      (auto simp: stamp_step_def Let_def clock_ok_def pending_def tick_texts_def timestamp_fits timestamp_no_NUL split: if_splits)
qed

lemma stamp_step_inside:
  assumes ok: "clocked_ok realloc cs bs ticks x" and st: "stamp_step plain_stdio plain_new plain_attach bytes x = Some y"
    and none: "owner (view (conns x)) = None" and pc: "stamp_critical (spc (clock x))"
  shows "clocked_ok realloc cs bs ticks y"
proof -
  note o = clocked_okD(3,4) [OF ok]
  have own: "owner (conns x) = Some (length (threads (conns x)))" using o(1) pc by (simp add: clock_ok_def)
  have now: "shared (conns x) @ unwritten (clock x) = file_after cs bs (log x)" using none o(2) by (simp add: file_ok_def)
  note inside = stamp_inside_ok [OF ok none, where ss = "[]" and y = y]
  note eqs = stamp_step_def Let_def plain_stdio_def plain_attach_def plain_flush_def clock_ok_def pending_def unwritten_def
  show ?thesis
  proof (cases "spc (clock x)")
    case (StampWriting s)
    then show ?thesis using st o(1) own now by (intro inside) (auto simp: eqs)
  next
    case StampFlushing
    then show ?thesis using st o(1) own now by (intro inside) (auto simp: eqs split: if_splits)
  next
    case StampUnlocking
    then show ?thesis using st o(1) own now by (intro inside) (auto simp: eqs)
  qed (use pc in simp_all)
qed

lemma stamp_step_ok:
  assumes ok: "clocked_ok realloc cs bs ticks x" and st: "stamp_step plain_stdio plain_new plain_attach bytes x = Some y"
  shows "clocked_ok realloc cs bs ticks y"
proof (cases "stamp_critical (spc (clock x))")
  case True
  then have "owner (view (conns x)) = None" using clocked_okD(3) [OF ok] by (simp add: clock_ok_def view_def)
  then show ?thesis using stamp_step_inside [OF ok st] True by blast
next
  case out: False
  show ?thesis
  proof (cases "\<exists>s. spc (clock x) = StampLocking s")
    case True
    then obtain s where s: "spc (clock x) = StampLocking s" by blast
    then have free: "owner (conns x) = None"
      using st by (auto simp: stamp_step_def Let_def Option.bind_eq_Some_conv ensure_def split: if_splits)
    then have "shared (conns x) = file_after cs bs (log x)"
      using clocked_okD(4) [OF ok] s by (simp add: file_ok_def unwritten_def)
    then show ?thesis
      using st clocked_okD(3) [OF ok] s free
      by (intro stamp_inside_ok [OF ok, where ss = "[s]" and y = y])
        (auto simp: stamp_step_def Let_def clock_ok_def pending_def unwritten_def)
  next
    case False
    then have "spc (clock x) = Opening \<or> spc (clock x) = Waiting"
      using out st by (cases "spc (clock x)") (auto simp: stamp_step_def Let_def)
    then show ?thesis by (rule stamp_step_outside [OF ok st])
  qed
qed

section \<open>Steps of the connection threads\<close>

text \<open>The critical section of a client on a plain file.\<close>

lemma section_plain:
  assumes re: "\<forall>n. realloc n" and ev: "event_valid (Connection fd chunks)"
  shows "\<exists>out g. section_of plain_stdio realloc chunks (plain_new bs) = Some (out, g) \<and>
    concat out = bs @ event_text (Connection fd chunks) \<and> bytes g = bs @ event_text (Connection fd chunks)"
proof -
  let ?m = "first_line (received chunks)"
  have "received chunks \<noteq> []" using ev by (auto simp: plain_message_def seek_command_def)
  then have m: "recv_loop realloc chunks Null 0 = (Block (?m @ [NUL]), length ?m)" "0 < length ?m"
    using recv_loop_message [of chunks realloc] re first_line_nonempty by auto
  obtain e where e: "connector plain_stdio (Some (plain_new bs)) realloc chunks False undefined = Some (Inr e)"
      "concat (sent e) = bs @ event_text (Connection fd chunks)" "bytes (data e) = bs @ event_text (Connection fd chunks)"
    using connection_plain [OF ev _ re, of "plain_new bs"] by (auto simp: plain_reopen_def plain_new_def)
  then have "critical_section plain_stdio (?m @ [NUL]) (length ?m) (plain_new bs) = Some (sent e, data e)"
    using m by (auto simp: connector_def Option.bind_eq_Some_conv)
  then show ?thesis using m e by (simp add: section_of_def)
qed

lemma in_served:
  assumes ok: "clocked_ok realloc cs bs ticks x" and "i \<in> set (clients (log x))" and "owner (conns x) \<noteq> Some i"
  shows "i \<in> set (served (view (conns x)))"
proof (cases "owner (view (conns x))")
  case None
  then show ?thesis using assms(2) clocked_okD(2) [OF ok] by simp
next
  case (Some j)
  then have "j \<noteq> i" using assms(3) by (auto simp: view_def split: if_splits)
  moreover have "owner_ok (view (conns x))" using clocked_okD(1) [OF ok] by (simp add: pool_ok_def)
  from owner_okD(3) [OF this Some] have "order (conns x) = served (view (conns x)) @ [j]" by simp
  ultimately show ?thesis using assms(2) clocked_okD(2) [OF ok] by (auto simp del: served_simps)
qed

text \<open>What a step of a connection thread leaves to the timestamp thread.\<close>

lemma clock_ok_conns:
  assumes "clock_ok ticks x" and "length (threads p) = length (threads (conns x))"
    and "owner p = Some (length (threads p)) \<longleftrightarrow> owner (conns x) = Some (length (threads p))"
  shows "clock_ok ticks (x\<lparr>conns := p, log := log x @ map Inl js\<rparr>)"
proof -
  have "stamps (map Inl js) = []" by (induction js) simp_all
  then show ?thesis using assms by (simp add: clock_ok_def)
qed

lemma conn_quiet_ok:
  assumes ok: "clocked_ok realloc cs bs ticks x" and i: "i < length (threads (conns x))"
    and p: "p = (conns x)\<lparr>threads := (threads (conns x))[i := t']\<rparr>"
    and t': "sock t' = sock (threads (conns x) ! i)" "input t' = input (threads (conns x) ! i)"
      "\<not> in_critical (pc (threads (conns x) ! i))" "\<not> in_critical (pc t')"
      "thread_ok plain_new realloc (i \<in> set (served (view (conns x)))) t'"
    and same: "i \<in> set (served (view (conns x))) \<Longrightarrow> reply (pc t') = reply (pc (threads (conns x) ! i))"
  shows "clocked_ok realloc cs bs ticks (x\<lparr>conns := p\<rparr>)"
proof -
  note o = clocked_okD [OF ok]
  have v: "view p = (view (conns x))\<lparr>threads := (threads (view (conns x)))[i := t']\<rparr>" by (simp add: view_def p)
  note q = pool_ok_quiet [OF o(1) _ v, simplified, OF i t']
  have same_p: "owner (view p) = owner (view (conns x))" "shared p = shared (conns x)"
      "threads p = (threads (conns x))[i := t']" by (simp add: v) (simp_all add: p)
  have "file_ok realloc cs bs (x\<lparr>conns := p\<rparr>)"
    using o(4) q(3) by (cases "owner (view (conns x))") (auto simp: file_ok_def same_p)
  moreover have "replies_ok cs bs (x\<lparr>conns := p\<rparr>)"
  proof -
    have "reply_of p j = reply_of (conns x) j" if "log x = es @ Inl j # fs" "owner (conns x) \<noteq> Some j" for es j fs
      using in_served [OF ok _ that(2)] that(1) same i by (cases "j = i") (auto simp: reply_of_def p)
    then show ?thesis using o(5) by (auto simp: replies_ok_def p)
  qed
  moreover have "clock_ok ticks (x\<lparr>conns := p\<rparr>)" using clock_ok_conns [OF o(3), of p "[]"] by (simp add: p)
  ultimately show ?thesis using q(1) o(2) by (simp add: clocked_ok_def p)
qed

lemma conn_lock_ok:
  assumes ok: "clocked_ok realloc cs bs ticks x" and i: "i < length (threads (conns x))"
    and q: "pc (threads (conns x) ! i) = Locking block n" and none: "owner (conns x) = None"
    and p: "p = (conns x)\<lparr>threads := (threads (conns x))[i := (threads (conns x) ! i)\<lparr>pc := Deciding block n\<rparr>],
      owner := Some i, order := order (conns x) @ [i]\<rparr>"
  shows "clocked_ok realloc cs bs ticks (x\<lparr>conns := p, log := log x @ [Inl i]\<rparr>)"
proof -
  note o = clocked_okD [OF ok]
  have v: "view (conns x) = conns x" "view p = p" using none i by (simp_all add: p)
  note l = pool_ok_lock [OF o(1) [unfolded v] i q none p]
  have "unwritten (clock x) = []"
    using o(3) none by (auto simp: clock_ok_def unwritten_def split: stamp_pc.splits)
  then have sh: "shared (conns x) = file_after cs bs (log x)" using o(4) none by (simp add: file_ok_def)
  have "file_ok realloc cs bs (x\<lparr>conns := p, log := log x @ [Inl i]\<rparr>)"
    using l(4,5) i by (auto simp: file_ok_def v) (auto simp: p section_of_def sh ps.law_attach_new)
  moreover have "replies_ok cs bs (x\<lparr>conns := p, log := log x @ [Inl i]\<rparr>)"
    unfolding replies_ok_def
  proof (intro allI impI)
    fix es j fs
    assume l: "log (x\<lparr>conns := p, log := log x @ [Inl i]\<rparr>) = es @ Inl j # fs"
      and "owner (conns (x\<lparr>conns := p, log := log x @ [Inl i]\<rparr>)) \<noteq> Some j"
    then have "j \<noteq> i" by (simp add: p)
    then obtain gs where "log x = es @ Inl j # gs" using l by (cases fs rule: rev_cases) auto
    then show "reply_of (conns (x\<lparr>conns := p, log := log x @ [Inl i]\<rparr>)) j = file_after cs bs (es @ [Inl j])"
      using o(5) none \<open>j \<noteq> i\<close> by (auto simp: replies_ok_def p reply_of_def)
  qed
  moreover have "clock_ok ticks (x\<lparr>conns := p, log := log x @ [Inl i]\<rparr>)"
    using clock_ok_conns [OF o(3), of p "[i]"] none i by (simp add: p)
  ultimately show ?thesis using l(1) o(2) by (simp add: clocked_ok_def v) (simp add: p)
qed

lemma conn_inside_ok:
  assumes ok: "clocked_ok realloc cs bs ticks x" and i: "i < length (threads (conns x))"
    and c: "crit_step plain_stdio (pc (threads (conns x) ! i))
      (plain_attach (shared (conns x)) (stream (threads (conns x) ! i))) = Some (q, g)"
    and p: "p = (conns x)\<lparr>shared := bytes g, threads := (threads (conns x))[i := (threads (conns x) ! i)\<lparr>pc := q, stream := g\<rparr>]\<rparr>"
  shows "clocked_ok realloc cs bs ticks (x\<lparr>conns := p\<rparr>)"
proof -
  note o = clocked_okD [OF ok] and c' = crit_step_rest [OF c]
  have v: "view p = (view (conns x))\<lparr>shared := bytes g,
      threads := (threads (view (conns x)))[i := (threads (view (conns x)) ! i)\<lparr>pc := q, stream := g\<rparr>]\<rparr>"
    by (simp add: view_def p)
  note s = pool_ok_section [OF o(1) _ _ _ v, simplified, OF i c'(2,3)]
  have own: "owner (conns x) = Some i" using s(4) by (auto simp: view_def split: if_splits)
  have "file_ok realloc cs bs (x\<lparr>conns := p\<rparr>)"
    using o(4) own i c'(1) by (auto simp: file_ok_def p ps.law_attach_detach)
  moreover have "replies_ok cs bs (x\<lparr>conns := p\<rparr>)"
    using o(5) own by (auto simp: replies_ok_def p reply_of_def)
  moreover have "clock_ok ticks (x\<lparr>conns := p\<rparr>)" using clock_ok_conns [OF o(3), of p "[]"] by (simp add: p)
  ultimately show ?thesis using s(1) o(2) by (simp add: clocked_ok_def p)
qed

lemma entry_valid:
  assumes ok: "clocked_ok realloc cs bs ticks x" and re: "\<forall>n. realloc n" and cs: "valid_clients cs"
    and i: "i \<in> set (clients (log x))"
  shows "event_valid (Connection (fst (cs ! i)) (snd (cs ! i)))" and "input (threads (conns x) ! i) = snd (cs ! i)"
proof -
  note o = clocked_okD [OF ok]
  show inp: "input (threads (conns x) ! i) = snd (cs ! i)" using o(1) o(8) [OF i] by (auto simp: pool_ok_def)
  have "has_message realloc (input (threads (conns x) ! i))" using order_has_message [OF o(1), of i] i o(2) by simp
  then have "received (snd (cs ! i)) \<noteq> []" by (simp add: inp has_message_received(1) [OF re])
  then show "event_valid (Connection (fst (cs ! i)) (snd (cs ! i)))"
    using cs o(8) [OF i] by (auto simp: valid_clients_def simp del: event_valid.simps)
qed

lemma conn_unlock_ok:
  assumes ok: "clocked_ok realloc cs bs ticks x" and i: "i < length (threads (conns x))"
    and re: "\<forall>n. realloc n" and cs: "valid_clients cs"
    and q: "pc (threads (conns x) ! i) = Unlocking out"
    and p: "p = (conns x)\<lparr>threads := (threads (conns x))[i := (threads (conns x) ! i)\<lparr>pc := Closing out\<rparr>], owner := None\<rparr>"
  shows "clocked_ok realloc cs bs ticks (x\<lparr>conns := p\<rparr>)"
proof -
  note o = clocked_okD [OF ok]
  have own: "owner (conns x) = Some i"
    using o(1) i q by (auto simp: pool_ok_def owner_ok_def view_def split: if_splits)
  then have v: "view (conns x) = conns x" "view p = p" using i by (simp_all add: p)
  note u = pool_ok_unlock [OF o(1) [unfolded v] i q p]
  obtain es where es: "log x = es @ [Inl i]"
      "section_of plain_stdio realloc (input (threads (conns x) ! i)) (plain_new (file_after cs bs es)) =
        Some (out, plain_attach (shared (conns x)) (stream (threads (conns x) ! i)))"
    using o(4) own i q by (auto simp: file_ok_def)
  have ev: "event_valid (Connection (fst (cs ! i)) (snd (cs ! i)))" and inp: "input (threads (conns x) ! i) = snd (cs ! i)"
    using entry_valid [OF ok re cs] es(1) i by auto
  have out: "concat out = file_after cs bs (log x)" "shared (conns x) = file_after cs bs (log x)"
    using section_plain [OF re ev, of "file_after cs bs es"] es by (auto simp: inp plain_attach_def)
  have "replies_ok cs bs (x\<lparr>conns := p\<rparr>)"
    unfolding replies_ok_def
  proof (intro allI impI)
    fix fs j gs
    assume "log (x\<lparr>conns := p\<rparr>) = fs @ Inl j # gs"
    then have l: "log x = fs @ Inl j # gs" by simp
    show "reply_of (conns (x\<lparr>conns := p\<rparr>)) j = file_after cs bs (fs @ [Inl j])"
    proof (cases "j = i")
      case True
      then have "gs = []" using l es(1) o(7) by (cases gs rule: rev_cases) auto
      then show ?thesis using l True out(1) i by (simp add: p reply_of_def del: history_simps)
    next
      case False
      then show ?thesis using o(5) l own by (auto simp: replies_ok_def p reply_of_def)
    qed
  qed
  moreover have "file_ok realloc cs bs (x\<lparr>conns := p\<rparr>)"
    using out(2) o(3) own i by (auto simp: file_ok_def v p clock_ok_def unwritten_def split: stamp_pc.splits)
  moreover have "clock_ok ticks (x\<lparr>conns := p\<rparr>)" using clock_ok_conns [OF o(3), of p "[]"] own i by (simp add: p)
  ultimately show ?thesis using u(1) o(2) by (simp add: clocked_ok_def v) (simp add: p)
qed

lemma conn_step_ok:
  assumes ok: "clocked_ok realloc cs bs ticks x" and re: "\<forall>n. realloc n" and cs: "valid_clients cs"
    and i: "i < length (threads (conns x))"
    and st: "thread_step plain_stdio plain_new plain_attach bytes realloc i (conns x) = Some p"
  shows "clocked_ok realloc cs bs ticks (x\<lparr>conns := p, log := log x @ map Inl (drop (length (order (conns x))) (order p))\<rparr>)"
proof -
  have "thread_ok plain_new realloc (i \<in> set (served (view (conns x)))) (threads (conns x) ! i)"
    using clocked_okD(1) [OF ok] i by (simp add: pool_ok_def)
  with st show ?thesis
  proof (cases rule: thread_step_cases)
    case (quiet t')
    from conn_quiet_ok [OF ok i this] show ?thesis by (simp add: quiet(1))
  next
    case (lock block n)
    from conn_lock_ok [OF ok i this] show ?thesis by (simp add: lock(3))
  next
    case (inside q g)
    from conn_inside_ok [OF ok i this] show ?thesis by (simp add: inside(2))
  next
    case (unlock out)
    from conn_unlock_ok [OF ok i re cs this] show ?thesis by (simp add: unlock(2))
  qed
qed

lemma clocked_step_ok:
  assumes "clocked_ok realloc cs bs ticks x" and "\<forall>n. realloc n" and "valid_clients cs"
    and "clocked_step plain_stdio plain_new plain_attach bytes realloc x y"
  shows "clocked_ok realloc cs bs ticks y"
  using assms(4) conn_step_ok [OF assms(1-3)] stamp_step_ok [OF assms(1)] by (auto elim: clocked_stepE)

section \<open>Every execution ends\<close>

fun stamp_weight :: "stamp_pc \<Rightarrow> nat" where
  "stamp_weight Opening = 2"
| "stamp_weight Waiting = 1"
| "stamp_weight (StampLocking s) = 5"
| "stamp_weight (StampWriting s) = 4"
| "stamp_weight StampFlushing = 3"
| "stamp_weight StampUnlocking = 2"
| "stamp_weight Stopped = 0"

definition clocked_weight :: "('f, 's) clocked \<Rightarrow> nat" where
  "clocked_weight x = pool_weight (conns x) + 8 * length (sticks (clock x)) + stamp_weight (spc (clock x))"

lemma stamp_step_weight:
  assumes "stamp_step io new_stream attach detach x = Some y"
  shows "clocked_weight y < clocked_weight x"
  using assms
  by (cases "spc (clock x)")
    (auto simp: stamp_step_def Let_def clocked_weight_def pool_weight_def Option.bind_eq_Some_conv
      split: list.splits if_splits)

lemma owner_section_defined:
  assumes ok: "clocked_ok realloc cs bs ticks x" and re: "\<forall>n. realloc n" and cs: "valid_clients cs"
    and own: "owner (view (conns x)) = Some i"
  shows "\<exists>r. crit_rest plain_stdio (pc (threads (conns x) ! i)) (plain_attach (shared (conns x)) (stream (threads (conns x) ! i))) = Some r"
proof -
  obtain es where es: "log x = es @ [Inl i]"
      "section_of plain_stdio realloc (input (threads (conns x) ! i)) (plain_new (file_after cs bs es)) =
        crit_rest plain_stdio (pc (threads (conns x) ! i)) (plain_attach (shared (conns x)) (stream (threads (conns x) ! i)))"
    using clocked_okD(4) [OF ok] own by (auto simp: file_ok_def)
  have "i \<in> set (clients (log x))" by (simp add: es(1))
  note ev = entry_valid [OF ok re cs this]
  show ?thesis using section_plain [OF re ev(1), of "file_after cs bs es"] es(2) ev(2) by auto
qed

lemma stamp_progress:
  assumes "clock_ok ticks x" and "spc (clock x) \<noteq> Stopped" and "stamp_critical (spc (clock x)) \<or> owner (conns x) = None"
  shows "\<exists>y. stamp_step plain_stdio plain_new plain_attach bytes x = Some y"
proof -
  obtain t ticks' where "sticks (clock x) = t # ticks'" "valid_tm (now t)"
    using assms(1,2) by (cases "sticks (clock x)") (auto simp: clock_ok_def)
  then show ?thesis
    using assms(2,3) by (cases "spc (clock x)") (auto simp: stamp_step_def Let_def plain_stdio_def timestamp_fits)
qed

text \<open>The state in which all threads have returned.\<close>

definition all_returned :: "('f, 's) clocked \<Rightarrow> bool" where
  "all_returned x \<longleftrightarrow> all_finished (conns x) \<and> spc (clock x) = Stopped"

lemma clocked_progress:
  assumes ok: "clocked_ok realloc cs bs ticks x" and re: "\<forall>n. realloc n" and cs: "valid_clients cs"
    and go: "\<not> all_returned x"
  shows "\<exists>y. clocked_step plain_stdio plain_new plain_attach bytes realloc x y"
proof (cases "spc (clock x) \<noteq> Stopped \<and> (stamp_critical (spc (clock x)) \<or> owner (conns x) = None)")
  case True
  then show ?thesis using stamp_progress clocked_okD(3) [OF ok] clocked_step.stamp by blast
next
  case other: False
  note o = clocked_okD [OF ok]
  have out: "\<not> stamp_critical (spc (clock x))" using other by auto
  then have v: "view (conns x) = conns x" using o(3) by (simp add: clock_ok_def view_def)
  have "\<exists>i p. i < length (threads (conns x)) \<and>
    thread_step plain_stdio plain_new plain_attach bytes realloc i (conns x) = Some p"
  proof (cases "owner (conns x)")
    case None
    then have "\<not> all_finished (conns x)" using other go by (auto simp: all_returned_def)
    then obtain i where i: "i < length (threads (conns x))" "\<And>out. pc (threads (conns x) ! i) \<noteq> Finished out"
      by (auto simp: all_finished_def in_set_conv_nth)
    moreover have "\<not> in_critical (pc (threads (conns x) ! i))"
      using o(1) v None i(1) by (auto simp: pool_ok_def owner_ok_def)
    ultimately have "\<exists>p. thread_step plain_stdio plain_new plain_attach bytes realloc i (conns x) = Some p"
      using has_message_received(2) [OF re] by (intro outside_progress [OF None]) auto
    then show ?thesis using i(1) by blast
  next
    case (Some i)
    then have "i < length (threads (conns x))" "in_critical (pc (threads (conns x) ! i))"
      using owner_okD [of "conns x" i] o(1) v by (auto simp: pool_ok_def)
    then show ?thesis
      using critical_progress owner_section_defined [OF ok re cs] Some v by (metis (no_types, lifting))
  qed
  then show ?thesis using clocked_step.conn by blast
qed

lemma conn_step_weight:
  assumes i: "i < length (threads p)" and st: "thread_step plain_stdio plain_new plain_attach bytes realloc i p = Some p'"
    and own: "in_critical (pc (threads p ! i)) \<Longrightarrow> owner (view p) = Some i"
    and d: "owner_dist plain_stdio plain_attach (view p) k"
  shows "pool_weight p' < pool_weight p \<or>
    pool_weight p' = pool_weight p \<and> (\<exists>k' < k. owner_dist plain_stdio plain_attach (view p') k')"
proof (cases "\<not> in_critical (pc (threads p ! i)) \<or> (\<exists>out. pc (threads p ! i) = Unlocking out)")
  case True
  then show ?thesis using thread_step_weight [OF i st] by blast
next
  case False
  then have o: "owner p = Some i" using own by (auto simp: view_def split: if_splits)
  then have v: "view p = p" using i by simp
  have "owner p' = Some i \<and> length (threads p') = length (threads p)"
    using st False o by (auto simp: thread_step_critical)
  then have "view p' = p'" using i by simp
  then show ?thesis using ps.thread_step_decreases [OF i st] d o v by simp
qed

lemma clocked_finishes:
  assumes re: "\<forall>n. realloc n" and cs: "valid_clients cs" and "clocked_ok realloc cs bs ticks x"
  shows "inevitably (clocked_step plain_stdio plain_new plain_attach bytes realloc)
    (\<lambda>x. clocked_ok realloc cs bs ticks x \<and> all_returned x) x"
proof (rule inevitably_weight [where w = clocked_weight and d = "\<lambda>x. owner_dist plain_stdio plain_attach (view (conns x))"])
  fix x y k
  assume ok: "clocked_ok realloc cs bs ticks x"
  show "\<exists>k. owner_dist plain_stdio plain_attach (view (conns x)) k"
    using ps.owner_dist_exists [of "view (conns x)"] owner_section_defined [OF ok re cs] by simp
  show "\<exists>y. clocked_step plain_stdio plain_new plain_attach bytes realloc x y" if "\<not> all_returned x"
    using clocked_progress [OF ok re cs that] .
  assume st: "clocked_step plain_stdio plain_new plain_attach bytes realloc x y"
  show "clocked_ok realloc cs bs ticks y" using clocked_step_ok [OF ok re cs st] .
  assume d: "owner_dist plain_stdio plain_attach (view (conns x)) k"
  from st show "clocked_weight y < clocked_weight x \<or>
    clocked_weight y = clocked_weight x \<and> (\<exists>k' < k. owner_dist plain_stdio plain_attach (view (conns y)) k')"
  proof cases
    case (conn i p)
    have "owner (view (conns x)) = Some i" if "in_critical (pc (threads (conns x) ! i))"
      using clocked_okD(1) [OF ok] conn(2) that by (auto simp: pool_ok_def owner_ok_def)
    then show ?thesis using conn_step_weight [OF conn(2,3) _ d] by (auto simp: clocked_weight_def conn(1))
  next
    case stamp
    then show ?thesis using stamp_step_weight by blast
  qed
qed (rule assms(3))

section \<open>Properties\<close>

text \<open>What has happened when all threads have returned.\<close>

lemma clocked_returned:
  assumes ok: "clocked_ok realloc cs bs ticks x" and ret: "all_returned x"
  shows "set (clients (log x)) = {i. i < length cs \<and> has_message realloc (snd (cs ! i))}"
    and "owner (conns x) = None" and "stamps (log x) = tick_texts ticks" and "shared (conns x) = file_after cs bs (log x)"
    and "i < length cs \<Longrightarrow> \<not> has_message realloc (snd (cs ! i)) \<Longrightarrow> reply_of (conns x) i = []"
proof -
  note o = clocked_okD [OF ok]
  have fin: "\<exists>out. pc (threads (conns x) ! j) = Finished out" if "j < length cs" for j
    using ret that o(6) by (simp add: all_returned_def all_finished_def)
  have stop: "spc (clock x) = Stopped" using ret by (simp add: all_returned_def)
  show none: "owner (conns x) = None"
  proof (rule ccontr)
    assume "owner (conns x) \<noteq> None"
    then obtain j where j: "owner (conns x) = Some j" by auto
    then have "owner (view (conns x)) = Some j" using o(3) stop by (auto simp: clock_ok_def view_def)
    then have "j < length cs" "in_critical (pc (threads (conns x) ! j))"
      using owner_okD [of "view (conns x)" j] o(1,6) by (auto simp: pool_ok_def)
    then show False using fin by fastforce
  qed
  show "stamps (log x) = tick_texts ticks" using o(3) stop by (simp add: clock_ok_def pending_def)
  show "shared (conns x) = file_after cs bs (log x)" using o(4) none stop by (simp add: file_ok_def unwritten_def)
  have tok: "(if j \<in> set (clients (log x)) then has_message realloc (snd (cs ! j))
      else reply_of (conns x) j = [] \<and> \<not> has_message realloc (snd (cs ! j)))" if "j < length cs" for j
  proof -
    have "thread_ok plain_new realloc (j \<in> set (clients (log x))) (threads (conns x) ! j)" "input (threads (conns x) ! j) = snd (cs ! j)"
      using o(1,2,6) that none by (auto simp: pool_ok_def)
    then show ?thesis using fin [OF that] by (auto simp: thread_ok_def reply_of_def split: if_splits)
  qed
  then show "set (clients (log x)) = {i. i < length cs \<and> has_message realloc (snd (cs ! i))}"
    using o(8) by (fastforce split: if_splits)
  show "i < length cs \<Longrightarrow> \<not> has_message realloc (snd (cs ! i)) \<Longrightarrow> reply_of (conns x) i = []"
    using tok by (fastforce split: if_splits)
qed

text \<open>While the timestamp thread is between \<open>pthread_mutex_lock\<close> and \<open>pthread_mutex_unlock\<close>, no connection thread is.\<close>

lemma clock_excludes_threads:
  assumes "(clocked_step plain_stdio plain_new plain_attach bytes realloc)\<^sup>*\<^sup>* (clocked_start f0 bytes cs start ticks) x"
    and re: "\<forall>n. realloc n" and cs: "valid_clients cs"
    and ticks: "\<forall>t \<in> set ticks. valid_tm (now t)" "\<exists>t \<in> set ticks. exit_at_head t \<or> exit_after_sleep t"
    and crit: "stamp_critical (spc (clock x))" and i: "i < length cs"
  shows "\<not> in_critical (pc (threads (conns x) ! i))"
proof -
  have ok: "clocked_ok realloc cs (bytes f0) ticks x"
    using assms(1) by (induction rule: rtranclp_induct) (auto intro: start_ok [OF ticks] clocked_step_ok [OF _ re cs])
  then have "owner (view (conns x)) = None" using crit clocked_okD(3) [OF ok] by (simp add: clock_ok_def view_def)
  then show ?thesis using clocked_okD(1,6) [OF ok] i by (auto simp: pool_ok_def owner_ok_def)
qed

text \<open>
  C5. The server of the build without the driver with all its threads: the connection threads and the timestamp thread
  run at the same time under any scheduler, interleaved statement by statement on the data file and \<open>file_mutex\<close>. A client
  sends nothing, one line, or a well-formed seek command; the exit is requested at some point. Then every execution comes to an
  end: all threads return, \<open>file_mutex\<close> is free, each client that sent something was served exactly once, and the time stamps
  of all rounds before the exit were written, once and in their order. In the order in which \<open>file_mutex\<close> was
  taken, the file holds the old contents, the lines and the time stamps, none torn apart, and each client has got
  the file up to and including its own entry; a silent client has got nothing.
\<close>

theorem clock_and_threads_answer:
  assumes re: "\<forall>n. realloc n" and cs: "valid_clients cs"
    and ticks: "\<forall>t \<in> set ticks. valid_tm (now t)" "\<exists>t \<in> set ticks. exit_at_head t \<or> exit_after_sleep t"
  shows "inevitably (clocked_step plain_stdio plain_new plain_attach bytes realloc)
    (\<lambda>x. all_returned x \<and> owner (conns x) = None \<and> distinct (clients (log x)) \<and>
       set (clients (log x)) = {i. i < length cs \<and> received (snd (cs ! i)) \<noteq> []} \<and>
       stamps (log x) = map (\<lambda>t. timestamp_text (now t)) (takeWhile (\<lambda>t. \<not> exit_at_head t \<and> \<not> exit_after_sleep t) ticks) \<and>
       (\<forall>es i fs. log x = es @ [Inl i] @ fs \<longrightarrow>
          reply_of (conns x) i = bytes f0 @ concat (map (entry_text cs) (es @ [Inl i]))) \<and>
       (\<forall>i < length cs. received (snd (cs ! i)) = [] \<longrightarrow> reply_of (conns x) i = []) \<and>
       shared (conns x) = bytes f0 @ concat (map (entry_text cs) (log x)))
    (clocked_start f0 bytes cs start ticks)"
proof (rule inevitably_mono [OF clocked_finishes [OF re cs start_ok [OF ticks]]], elim conjE)
  fix x
  assume ok: "clocked_ok realloc cs (bytes f0) ticks x" and ret: "all_returned x"
  note r = clocked_returned [OF ok ret, unfolded has_message_received(1) [OF re] file_after_def tick_texts_def]
  have "\<forall>es i fs. log x = es @ [Inl i] @ fs \<longrightarrow>
      reply_of (conns x) i = bytes f0 @ concat (map (entry_text cs) (es @ [Inl i]))"
    using clocked_okD(5) [OF ok] r(2) by (simp add: replies_ok_def file_after_def)
  moreover have "\<forall>i < length cs. received (snd (cs ! i)) = [] \<longrightarrow> reply_of (conns x) i = []" using r(5) by blast
  ultimately show "all_returned x \<and> owner (conns x) = None \<and> distinct (clients (log x)) \<and>
       set (clients (log x)) = {i. i < length cs \<and> received (snd (cs ! i)) \<noteq> []} \<and>
       stamps (log x) = map (\<lambda>t. timestamp_text (now t)) (takeWhile (\<lambda>t. \<not> exit_at_head t \<and> \<not> exit_after_sleep t) ticks) \<and>
       (\<forall>es i fs. log x = es @ [Inl i] @ fs \<longrightarrow>
          reply_of (conns x) i = bytes f0 @ concat (map (entry_text cs) (es @ [Inl i]))) \<and>
       (\<forall>i < length cs. received (snd (cs ! i)) = [] \<longrightarrow> reply_of (conns x) i = []) \<and>
       shared (conns x) = bytes f0 @ concat (map (entry_text cs) (log x))"
    using ret r(1-4) clocked_okD(7) [OF ok] by (intro conjI)
qed

lemma two_entries:
  assumes "clients es = [i]" and "stamps es = [s]"
  shows "es = [Inl i, Inr s] \<or> es = [Inr s, Inl i]"
proof -
  have none: "clients fs = [] \<and> stamps fs = [] \<Longrightarrow> fs = []" for fs
    by (cases fs; cases "hd fs") auto
  show ?thesis
  proof (cases es)
    case (Cons e fs)
    then show ?thesis
    proof (cases fs)
      case fs: (Cons e' gs)
      then show ?thesis using assms Cons none [of gs] by (cases e; cases e') auto
    qed (use assms Cons in \<open>cases e; simp\<close>)
  qed (use assms in simp)
qed

definition demo_ticks :: "tick list" where
  "demo_ticks =
     [\<lparr>exit_at_head = False, exit_after_sleep = False, now = demo_tm\<rparr>,
      \<lparr>exit_at_head = False, exit_after_sleep = True, now = demo_tm\<rparr>]"

theorem clock_and_threads_answer_witness:
  "inevitably (clocked_step plain_stdio plain_new plain_attach bytes (\<lambda>_. True))
     (\<lambda>x. all_returned x \<and>
        (shared (conns x) = ''xa'' @ [newline] @ timestamp_text demo_tm \<and> reply_of (conns x) 0 = ''xa'' @ [newline] \<or>
         shared (conns x) = ''x'' @ timestamp_text demo_tm @ ''a'' @ [newline] \<and> reply_of (conns x) 0 = shared (conns x)))
     (clocked_start (plain_new ''x'') bytes demo_pair 100 demo_ticks)"
proof (rule inevitably_mono [OF clock_and_threads_answer], goal_cases)
  case 2
  then show ?case using demo_pair_messages by (simp add: valid_clients_def demo_pair_def)
next
  case (5 x)
  have t: "entry_text demo_pair (Inl 0) = ''a'' @ [newline]"
    using demo_pair_messages by (simp add: seek_command_def plain_message_def)
  have c: "clients (log x) = [0]" by (rule distinct_singleton) (use 5 in \<open>simp_all only: demo_pair_speaker\<close>)
  have s: "stamps (log x) = [timestamp_text demo_tm]" using 5 by (simp add: demo_ticks_def)
  have r: "\<forall>es i fs. log x = es @ [Inl i] @ fs \<longrightarrow>
      reply_of (conns x) i = bytes (plain_new ''x'') @ concat (map (entry_text demo_pair) (es @ [Inl i]))"
    and sh: "shared (conns x) = bytes (plain_new ''x'') @ concat (map (entry_text demo_pair) (log x))"
    and ret: "all_returned x" using 5 by blast+
  from two_entries [OF c s] show ?case
  proof
    assume l: "log x = [Inl 0, Inr (timestamp_text demo_tm)]"
    then show ?thesis using r [rule_format, of "[]" 0 "[Inr (timestamp_text demo_tm)]"] sh ret t by (simp add: plain_new_def)
  next
    assume l: "log x = [Inr (timestamp_text demo_tm), Inl 0]"
    then show ?thesis using r [rule_format, of "[Inr (timestamp_text demo_tm)]" 0 "[]"] sh ret t by (simp add: plain_new_def)
  qed
qed (simp_all add: demo_ticks_def valid_tm_def demo_tm_def)

end
