(* ===== verification/Queue_Spec.thy ===== *)
theory Queue_Spec
  imports SList
begin

text \<open>
  What the four families of list macros in \<open>server/queue.h\<close> have in common: a memory of list heads and
  elements, the operations as data, their effect on abstract lists, and the contract \<open>linked_queue\<close> from which
  the refinement of whole sequences of operations follows once for all families. The first instance, for the
  \<open>SLIST\<close> macros, is at the end; the others are in \<open>STailq\<close>, \<open>List_Queue\<close> and \<open>Tailq\<close>.
\<close>

section \<open>Memory\<close>

text \<open>
  \<open>qheads\<close> holds the list heads, \<open>qelems\<close> the link structures of the allocated elements. A value of type
  \<open>struct type **\<close> is the address of the first-pointer of a head or of the next-pointer of an element.
\<close>

record ('h, 'e) queue_mem =
  qheads :: "addr \<rightharpoonup> 'h"
  qelems :: "addr \<rightharpoonup> 'e"

datatype slot = First addr | Next addr

text \<open>The next-pointer of an element, and the last pointer of a list that starts in \<open>s\<close>.\<close>

definition next_field :: "addr option \<Rightarrow> slot option" where
  [simp]: "next_field elm = map_option Next elm"

definition last_slot :: "slot \<Rightarrow> addr list \<Rightarrow> slot" where
  "last_slot s xs = (if xs = [] then s else Next (last xs))"

lemma last_slot_simps [simp]:
  "last_slot s [] = s" "last_slot s (x # xs) = last_slot (Next x) xs" "last_slot s (xs @ ys) = last_slot (last_slot s xs) ys"
  by (auto simp: last_slot_def)

text \<open>Assignments to members of a head and of an element; an element is given by a pointer that may be \<open>NULL\<close>.\<close>

definition upd_head :: "addr \<Rightarrow> ('h \<Rightarrow> 'h) \<Rightarrow> ('h, 'e) queue_mem \<Rightarrow> ('h, 'e) queue_mem option" where
  "upd_head h f m = do { hd \<leftarrow> qheads m h; Some (m\<lparr>qheads := (qheads m)(h \<mapsto> f hd)\<rparr>) }"

definition elem_at :: "('h, 'e) queue_mem \<Rightarrow> addr option \<Rightarrow> 'e option" where
  "elem_at m elm = do { a \<leftarrow> elm; qelems m a }"

definition upd_elem :: "addr option \<Rightarrow> ('e \<Rightarrow> 'e) \<Rightarrow> ('h, 'e) queue_mem \<Rightarrow> ('h, 'e) queue_mem option" where
  "upd_elem elm f m = do { a \<leftarrow> elm; e \<leftarrow> qelems m a; Some (m\<lparr>qelems := (qelems m)(a \<mapsto> f e)\<rparr>) }"

lemmas queue_mem_simps [simp] = upd_head_def upd_elem_def elem_at_def

section \<open>Operations and their effect on lists\<close>

datatype queue_op =
    Init addr
  | InsertHead addr addr
  | InsertTail addr addr
  | InsertAfter addr addr addr
  | InsertBefore addr addr addr
  | RemoveElem addr addr
  | RemoveHead addr
  | RemoveAfter addr addr
  | Concat addr addr
  | Swap addr addr

text \<open>The heads an operation works on, and the element it brings in.\<close>

fun op_heads :: "queue_op \<Rightarrow> addr set" where
  "op_heads (Init h) = {h}"
| "op_heads (InsertHead h a) = {h}"
| "op_heads (InsertTail h a) = {h}"
| "op_heads (InsertAfter h b a) = {h}"
| "op_heads (InsertBefore h b a) = {h}"
| "op_heads (RemoveElem h a) = {h}"
| "op_heads (RemoveHead h) = {h}"
| "op_heads (RemoveAfter h b) = {h}"
| "op_heads (Concat h1 h2) = {h1, h2}"
| "op_heads (Swap h1 h2) = {h1, h2}"

fun op_new :: "queue_op \<Rightarrow> addr set" where
  "op_new (InsertHead h a) = {a}"
| "op_new (InsertTail h a) = {a}"
| "op_new (InsertAfter h b a) = {a}"
| "op_new (InsertBefore h b a) = {a}"
| "op_new _ = {}"

fun insert_after :: "'a \<Rightarrow> 'a \<Rightarrow> 'a list \<Rightarrow> 'a list" where
  "insert_after b a [] = []"
| "insert_after b a (x # xs) = (if x = b then x # a # xs else x # insert_after b a xs)"

fun insert_before :: "'a \<Rightarrow> 'a \<Rightarrow> 'a list \<Rightarrow> 'a list" where
  "insert_before b a [] = []"
| "insert_before b a (x # xs) = (if x = b then a # x # xs else x # insert_before b a xs)"

fun remove_after :: "'a \<Rightarrow> 'a list \<Rightarrow> 'a list" where
  "remove_after b [] = []"
| "remove_after b (x # xs) = (if x = b then x # tl xs else x # remove_after b xs)"

fun spec_op :: "queue_op \<Rightarrow> (addr \<Rightarrow> addr list) \<Rightarrow> addr \<Rightarrow> addr list" where
  "spec_op (Init h) A = A(h := [])"
| "spec_op (InsertHead h a) A = A(h := a # A h)"
| "spec_op (InsertTail h a) A = A(h := A h @ [a])"
| "spec_op (InsertAfter h b a) A = A(h := insert_after b a (A h))"
| "spec_op (InsertBefore h b a) A = A(h := insert_before b a (A h))"
| "spec_op (RemoveElem h a) A = A(h := remove1 a (A h))"
| "spec_op (RemoveHead h) A = A(h := tl (A h))"
| "spec_op (RemoveAfter h b) A = A(h := remove_after b (A h))"
| "spec_op (Concat h1 h2) A = A(h1 := A h1 @ A h2, h2 := [])"
| "spec_op (Swap h1 h2) A = A(h1 := A h2, h2 := A h1)"

text \<open>What the caller of a macro has to ensure.\<close>

fun op_pre :: "queue_op \<Rightarrow> (addr \<Rightarrow> addr list) \<Rightarrow> bool" where
  "op_pre (Init h) A \<longleftrightarrow> True"
| "op_pre (InsertHead h a) A \<longleftrightarrow> a \<notin> set (A h)"
| "op_pre (InsertTail h a) A \<longleftrightarrow> a \<notin> set (A h)"
| "op_pre (InsertAfter h b a) A \<longleftrightarrow> a \<notin> set (A h) \<and> b \<in> set (A h)"
| "op_pre (InsertBefore h b a) A \<longleftrightarrow> a \<notin> set (A h) \<and> b \<in> set (A h)"
| "op_pre (RemoveElem h a) A \<longleftrightarrow> a \<in> set (A h)"
| "op_pre (RemoveHead h) A \<longleftrightarrow> A h \<noteq> []"
| "op_pre (RemoveAfter h b) A \<longleftrightarrow> b \<in> set (A h) \<and> b \<noteq> last (A h)"
| "op_pre (Concat h1 h2) A \<longleftrightarrow> h1 \<noteq> h2 \<and> set (A h1) \<inter> set (A h2) = {}"
| "op_pre (Swap h1 h2) A \<longleftrightarrow> h1 \<noteq> h2 \<and> set (A h1) \<inter> set (A h2) = {}"

lemma insert_after_split: "b \<notin> set us \<Longrightarrow> insert_after b a (us @ b # vs) = us @ b # a # vs"
  by (induction us) auto

lemma insert_before_split: "b \<notin> set us \<Longrightarrow> insert_before b a (us @ b # vs) = us @ a # b # vs"
  by (induction us) auto

lemma remove_after_split: "b \<notin> set us \<Longrightarrow> remove_after b (us @ b # vs) = us @ b # tl vs"
  by (induction us) auto

lemma set_insert_after: "set (insert_after b a xs) \<subseteq> insert a (set xs)"
  by (induction xs) auto

lemma set_insert_before: "set (insert_before b a xs) \<subseteq> insert a (set xs)"
  by (induction xs) auto

lemma set_remove_after: "set (remove_after b xs) \<subseteq> set xs"
  by (induction xs) (auto dest: in_set_tlD)

lemma spec_op_other: "h \<notin> op_heads op \<Longrightarrow> spec_op op A h = A h"
  by (cases op) auto

lemma spec_op_elems: "(\<Union>h \<in> op_heads op. set (spec_op op A h)) \<subseteq> op_new op \<union> (\<Union>h \<in> op_heads op. set (A h))"
  by (cases op)
    (auto dest: in_set_tlD subsetD [OF set_insert_after] subsetD [OF set_insert_before] subsetD [OF set_remove_after]
      subsetD [OF set_remove1_subset] split: if_splits)

section \<open>The contract\<close>

text \<open>Memory outside the heads \<open>H\<close> and the elements \<open>E\<close> is the same; elements are neither allocated nor freed.\<close>

definition same_outside :: "addr set \<Rightarrow> addr set \<Rightarrow> ('h, 'e) queue_mem \<Rightarrow> ('h, 'e) queue_mem \<Rightarrow> bool" where
  "same_outside H E m m' \<longleftrightarrow>
     (\<forall>h. h \<notin> H \<longrightarrow> qheads m' h = qheads m h) \<and> (\<forall>a. a \<notin> E \<longrightarrow> qelems m' a = qelems m a) \<and>
     dom (qelems m') = dom (qelems m)"

text \<open>The lists of different heads have no element in common.\<close>

definition separated :: "addr set \<Rightarrow> (addr \<Rightarrow> addr list) \<Rightarrow> bool" where
  "separated H A \<longleftrightarrow> (\<forall>h \<in> H. \<forall>h' \<in> H. h \<noteq> h' \<longrightarrow> set (A h) \<inter> set (A h') = {})"

fun run_ops :: "('o \<Rightarrow> 'm \<Rightarrow> 'm option) \<Rightarrow> 'o list \<Rightarrow> 'm \<Rightarrow> 'm option" where
  "run_ops run [] m = Some m"
| "run_ops run (x # xs) m = do { m \<leftarrow> run x m; run_ops run xs m }"

text \<open>
  A sequence of operations on the heads \<open>H\<close> that keeps to the rules: each operation is one the family has, a new
  element is allocated and in no list, and the other elements named are where the operation expects them.
\<close>

fun ops_ok :: "(queue_op \<Rightarrow> bool) \<Rightarrow> addr set \<Rightarrow> addr set \<Rightarrow> queue_op list \<Rightarrow> (addr \<Rightarrow> addr list) \<Rightarrow> bool" where
  "ops_ok supported H E [] A \<longleftrightarrow> True"
| "ops_ok supported H E (op # ops) A \<longleftrightarrow>
     supported op \<and> op_heads op \<subseteq> H \<and> op_new op \<subseteq> E \<and> op_new op \<inter> (\<Union>h \<in> H. set (A h)) = {} \<and> op_pre op A \<and>
     ops_ok supported H E ops (spec_op op A)"

locale linked_queue =
  fixes rep :: "('h, 'e) queue_mem \<Rightarrow> addr \<Rightarrow> addr list \<Rightarrow> bool"
    and run :: "queue_op \<Rightarrow> ('h, 'e) queue_mem \<Rightarrow> ('h, 'e) queue_mem option"
    and supported :: "queue_op \<Rightarrow> bool"
  assumes frame: "rep m h xs \<Longrightarrow> same_outside H E m m' \<Longrightarrow> h \<notin> H \<Longrightarrow> set xs \<inter> E = {} \<Longrightarrow> rep m' h xs"
    and law_run: "supported op \<Longrightarrow> op_pre op A \<Longrightarrow> op_new op \<subseteq> dom (qelems m) \<Longrightarrow>
      (\<And>h. h \<in> op_heads op \<Longrightarrow> rep m h (A h)) \<Longrightarrow>
      \<exists>m'. run op m = Some m' \<and> (\<forall>h \<in> op_heads op. rep m' h (spec_op op A h)) \<and>
           same_outside (op_heads op) (op_new op \<union> (\<Union>h \<in> op_heads op. set (A h))) m m'"
begin

lemma run_step:
  assumes rep: "\<forall>h \<in> H. rep m h (A h)" and sep: "separated H A"
    and ok: "ops_ok supported H (dom (qelems m)) (op # ops) A"
  shows "\<exists>m'. run op m = Some m' \<and> (\<forall>h \<in> H. rep m' h (spec_op op A h)) \<and> separated H (spec_op op A) \<and>
           dom (qelems m') = dom (qelems m)"
proof -
  let ?E = "op_new op \<union> (\<Union>h \<in> op_heads op. set (A h))"
  have heads: "op_heads op \<subseteq> H" using ok by simp
  then obtain m' where m': "run op m = Some m'" "\<forall>h \<in> op_heads op. rep m' h (spec_op op A h)"
      "same_outside (op_heads op) ?E m m'"
    using law_run [of op A m] ok rep by auto
  have apart: "set (A h) \<inter> ?E = {}" if "h \<in> H - op_heads op" for h
    using that ok sep heads by (fastforce simp: separated_def)
  have "rep m' h (spec_op op A h)" if "h \<in> H" for h
  proof (cases "h \<in> op_heads op")
    case False
    then show ?thesis
      using frame [OF _ m'(3) False] apart [of h] rep that by (simp add: spec_op_other)
  qed (use m'(2) in blast)
  moreover have "separated H (spec_op op A)"
  proof -
    have local: "set (spec_op op A h) \<subseteq> ?E" if "h \<in> op_heads op" for h
      using spec_op_elems [of op A] that by blast
    have "set (spec_op op A h) \<inter> set (spec_op op A h') = {}"
      if "h \<in> op_heads op" "h' \<in> op_heads op" "h \<noteq> h'" for h h'
      using that ok by (cases op) auto
    moreover have "set (spec_op op A h) \<inter> set (spec_op op A h') = {}"
      if "h \<in> op_heads op" "h' \<in> H - op_heads op" for h h'
      using local [OF that(1)] apart [OF that(2)] that(2) by (simp add: spec_op_other) blast
    moreover have "set (spec_op op A h) \<inter> set (spec_op op A h') = {}"
      if "h \<in> H - op_heads op" "h' \<in> H - op_heads op" "h \<noteq> h'" for h h'
      using that sep by (simp add: spec_op_other separated_def)
    ultimately show ?thesis unfolding separated_def by (metis DiffI inf_commute)
  qed
  ultimately show ?thesis using m' by (auto simp: same_outside_def)
qed

lemma run_refines:
  assumes "\<forall>h \<in> H. rep m h (A h)" and "separated H A" and "ops_ok supported H (dom (qelems m)) ops A"
  shows "\<exists>m'. run_ops run ops m = Some m' \<and> (\<forall>h \<in> H. rep m' h (fold spec_op ops A h)) \<and>
           separated H (fold spec_op ops A)"
  using assms
proof (induction ops arbitrary: m A)
  case (Cons op ops)
  obtain m1 where m1: "run op m = Some m1" "\<forall>h \<in> H. rep m1 h (spec_op op A h)" "separated H (spec_op op A)"
      "dom (qelems m1) = dom (qelems m)"
    using run_step [OF Cons.prems] by blast
  then show ?case using Cons.IH [OF m1(2,3)] Cons.prems(3) by auto
qed auto

end

section \<open>The \<open>SLIST\<close> macros\<close>

type_synonym slist_mem = "(slist_head, addr option) queue_mem"

fun slist_run :: "queue_op \<Rightarrow> slist_mem \<Rightarrow> slist_mem option" where
  "slist_run (Init h) m = upd_head h SLIST_INIT m"
| "slist_run (InsertHead h a) m = do {
     hd \<leftarrow> qheads m h;
     (l, hd) \<leftarrow> SLIST_INSERT_HEAD (qelems m) hd (Some a);
     Some (m\<lparr>qheads := (qheads m)(h \<mapsto> hd), qelems := l\<rparr>)
   }"
| "slist_run (InsertAfter h b a) m = do {
     l \<leftarrow> SLIST_INSERT_AFTER (qelems m) (Some b) (Some a);
     Some (m\<lparr>qelems := l\<rparr>)
   }"
| "slist_run (RemoveElem h a) m = do {
     hd \<leftarrow> qheads m h;
     (l, hd) \<leftarrow> SLIST_REMOVE (qelems m) hd (Some a);
     Some (m\<lparr>qheads := (qheads m)(h \<mapsto> hd), qelems := l\<rparr>)
   }"
| "slist_run (RemoveHead h) m = do {
     hd \<leftarrow> qheads m h;
     hd \<leftarrow> SLIST_REMOVE_HEAD (qelems m) hd;
     Some (m\<lparr>qheads := (qheads m)(h \<mapsto> hd)\<rparr>)
   }"
| "slist_run (RemoveAfter h b) m = do {
     l \<leftarrow> SLIST_REMOVE_AFTER (qelems m) (Some b);
     Some (m\<lparr>qelems := l\<rparr>)
   }"
| "slist_run (Concat h1 h2) m = do {
     hd1 \<leftarrow> qheads m h1;
     hd2 \<leftarrow> qheads m h2;
     (l, hd1, hd2) \<leftarrow> SLIST_CONCAT (qelems m) hd1 hd2;
     Some (m\<lparr>qheads := (qheads m)(h1 \<mapsto> hd1, h2 \<mapsto> hd2), qelems := l\<rparr>)
   }"
| "slist_run (Swap h1 h2) m = do {
     hd1 \<leftarrow> qheads m h1;
     hd2 \<leftarrow> qheads m h2;
     let (hd1, hd2) = SLIST_SWAP hd1 hd2;
     Some (m\<lparr>qheads := (qheads m)(h1 \<mapsto> hd1, h2 \<mapsto> hd2)\<rparr>)
   }"
| "slist_run _ m = None"

fun slist_supported :: "queue_op \<Rightarrow> bool" where
  "slist_supported (InsertTail h a) \<longleftrightarrow> False"
| "slist_supported (InsertBefore h b a) \<longleftrightarrow> False"
| "slist_supported _ \<longleftrightarrow> True"

definition slist_at :: "slist_mem \<Rightarrow> addr \<Rightarrow> addr list \<Rightarrow> bool" where
  "slist_at m h xs \<longleftrightarrow> (\<exists>hd. qheads m h = Some hd \<and> slist (qelems m) (slh_first hd) xs)"

lemma slist_first_split: "b \<in> set xs \<Longrightarrow> \<exists>us vs. xs = us @ b # vs \<and> b \<notin> set us"
  by (meson split_list_first)

lemma slist_insert_after_at:
  assumes "slist h p xs" and "h a \<noteq> None" and "a \<notin> set xs" and "b \<in> set xs"
  shows "\<exists>h'. SLIST_INSERT_AFTER h (Some b) (Some a) = Some h' \<and> slist h' p (insert_after b a xs) \<and>
           (\<forall>y. y \<notin> insert a (set xs) \<longrightarrow> h' y = h y) \<and> dom h' = dom h"
proof -
  obtain us vs where xs: "xs = us @ b # vs" "b \<notin> set us" using slist_first_split [OF assms(4)] by blast
  then obtain h' where h': "SLIST_INSERT_AFTER h (Some b) (Some a) = Some h'" "slist h' p (us @ b # a # vs)"
      "\<forall>y. y \<notin> {b, a} \<longrightarrow> h' y = h y"
    using slist_insert_after [of h p us b vs a] assms by auto
  have "h' b \<noteq> None" "h' a \<noteq> None" using slist_allocated [OF h'(2)] by auto
  moreover have "h b \<noteq> None" using slist_allocated [OF assms(1,4)] by simp
  ultimately have "h' y = None \<longleftrightarrow> h y = None" for y
    using h'(3) assms(2) by (cases "y \<in> {b, a}") auto
  then have "dom h' = dom h" by (auto simp: dom_def)
  then show ?thesis using h' xs by (auto simp: insert_after_split)
qed

lemma slist_remove_after_at:
  assumes "slist h p xs" and "b \<in> set xs" and "b \<noteq> last xs"
  shows "\<exists>h'. SLIST_REMOVE_AFTER h (Some b) = Some h' \<and> slist h' p (remove_after b xs) \<and>
           (\<forall>y. y \<notin> set xs \<longrightarrow> h' y = h y) \<and> dom h' = dom h"
proof -
  obtain us vs where xs: "xs = us @ b # vs" "b \<notin> set us" using slist_first_split [OF assms(2)] by blast
  then obtain y ys where vs: "vs = y # ys" using assms(3) by (cases vs) auto
  obtain n where n: "h y = Some n" using slist_allocated [OF assms(1), of y] xs vs by auto
  note u = slist_unlink [of h p us b y ys n]
  then show ?thesis
    using assms(1) n xs vs by (auto simp: SLIST_REMOVE_AFTER_def remove_after_split)
qed

lemma slist_frame_at:
  assumes "slist_at m h xs" and "same_outside H E m m'" and "h \<notin> H" and "set xs \<inter> E = {}"
  shows "slist_at m' h xs"
  using assms slist_frame [of "qelems m" _ xs "qelems m'"] by (fastforce simp: slist_at_def same_outside_def)

lemma slist_law:
  assumes sup: "slist_supported op" and pre: "op_pre op A" and new: "op_new op \<subseteq> dom (qelems m)"
    and rep: "\<And>h. h \<in> op_heads op \<Longrightarrow> slist_at m h (A h)"
  shows "\<exists>m'. slist_run op m = Some m' \<and> (\<forall>h \<in> op_heads op. slist_at m' h (spec_op op A h)) \<and>
           same_outside (op_heads op) (op_new op \<union> (\<Union>h \<in> op_heads op. set (A h))) m m'"
proof (cases op)
  case (Init h)
  then show ?thesis using rep [of h] by (auto simp: slist_at_def same_outside_def SLIST_INIT_def)
next
  case (InsertHead h a)
  then show ?thesis
    using rep [of h] pre new
    by (auto simp: slist_at_def same_outside_def SLIST_INSERT_HEAD_def)
next
  case (InsertAfter h b a)
  then show ?thesis
    using rep [of h] pre new slist_insert_after_at [of "qelems m" _ "A h" a b]
    by (fastforce simp: slist_at_def same_outside_def)
next
  case (RemoveElem h a)
  then show ?thesis
    using rep [of h] pre slist_remove [of "qelems m" _ "A h" a]
    by (fastforce simp: slist_at_def same_outside_def)
next
  case (RemoveHead h)
  then show ?thesis
    using rep [of h] pre
    by (cases "A h") (auto simp: slist_at_def same_outside_def SLIST_REMOVE_HEAD_def split: option.splits)
next
  case (RemoveAfter h b)
  then show ?thesis
    using rep [of h] pre slist_remove_after_at [of "qelems m" _ "A h" b]
    by (fastforce simp: slist_at_def same_outside_def)
next
  case (Concat h1 h2)
  then obtain hd1 hd2 where hd: "qheads m h1 = Some hd1" "slist (qelems m) (slh_first hd1) (A h1)"
      "qheads m h2 = Some hd2" "slist (qelems m) (slh_first hd2) (A h2)"
    using rep [of h1] rep [of h2] by (auto simp: slist_at_def)
  then show ?thesis
    using slist_concat [OF hd(2,4)] pre Concat by (fastforce simp: slist_at_def same_outside_def)
next
  case (Swap h1 h2)
  then show ?thesis
    using rep [of h1] rep [of h2] pre by (auto simp: slist_at_def same_outside_def SLIST_SWAP_def Let_def)
qed (use sup in auto)

interpretation slq: linked_queue slist_at slist_run slist_supported
  by unfold_locales (fact slist_frame_at slist_law)+

text \<open>
  \<open>SLIST_FOREACH_PREVPTR\<close> keeps, beside the element, the address of the pointer that refers to it; the body may
  use it to unlink the element.
\<close>

fun slist_load :: "slot \<Rightarrow> slist_mem \<Rightarrow> addr option option" where
  "slist_load (First h) m = map_option slh_first (qheads m h)"
| "slist_load (Next a) m = qelems m a"

partial_function (option) slist_prevptr_loop ::
  "('s \<Rightarrow> slist_mem) \<Rightarrow> (slot \<Rightarrow> addr \<Rightarrow> 's \<Rightarrow> 's option) \<Rightarrow> slot \<Rightarrow> 's \<Rightarrow> 's option" where
  "slist_prevptr_loop get body varp s = do {
     var \<leftarrow> slist_load varp (get s);
     (case var of
        None \<Rightarrow> Some s
      | Some a \<Rightarrow> do {
          s \<leftarrow> body varp a s;
          slist_prevptr_loop get body (Next a) s
        })
   }"

definition SLIST_FOREACH_PREVPTR ::
  "('s \<Rightarrow> slist_mem) \<Rightarrow> (slot \<Rightarrow> addr \<Rightarrow> 's \<Rightarrow> 's option) \<Rightarrow> addr \<Rightarrow> 's \<Rightarrow> 's option" where
  "SLIST_FOREACH_PREVPTR get body head s = slist_prevptr_loop get body (First head) s"

lemma prevptr_visit:
  assumes "slist_load varp (get s) = Some p" and "slist (qelems (get s)) p xs"
    and "\<And>v x s s'. x \<in> set xs \<Longrightarrow> body v x s = Some s' \<Longrightarrow> get s' = get s"
  shows "slist_prevptr_loop get body varp s = visit (\<lambda>(v, x). body v x) (zip (varp # map Next xs) xs) s"
  using assms
proof (induction xs arbitrary: varp p s)
  case Nil
  then show ?case by (subst slist_prevptr_loop.simps) simp
next
  case (Cons x xs)
  then obtain n where n: "p = Some x" "qelems (get s) x = Some n" "slist (qelems (get s)) n xs"
    by (auto simp: slist_Cons simp del: slist.simps(2))
  show ?case
  proof (cases "body varp x s")
    case None
    then show ?thesis using n Cons.prems(1) by (subst slist_prevptr_loop.simps) simp
  next
    case (Some s')
    then have same: "get s' = get s" using Cons.prems(3) [of x varp s s'] by simp
    have "slist_prevptr_loop get body (Next x) s' = visit (\<lambda>(v, x). body v x) (zip (Next x # map Next xs) xs) s'"
      by (rule Cons.IH [where p = n]) (use n same Cons.prems(3) in auto)
    then show ?thesis using n Some Cons.prems(1) by (subst slist_prevptr_loop.simps) simp
  qed
qed

lemma slist_foreach_prevptr:
  assumes "slist_at (get s) h xs" and "\<And>v x s s'. x \<in> set xs \<Longrightarrow> body v x s = Some s' \<Longrightarrow> get s' = get s"
  shows "SLIST_FOREACH_PREVPTR get body h s = visit (\<lambda>(v, x). body v x) (zip (First h # map Next xs) xs) s"
  using assms prevptr_visit [of "First h" get s _ xs body] by (auto simp: slist_at_def SLIST_FOREACH_PREVPTR_def)

section \<open>Properties\<close>

text \<open>
  C29. The singly-linked list macros refine lists: any sequence of their operations on any number of lists that keeps to the
  callers' rules runs to its end without an invalid access, and each list is then the one that the same operations
  give on lists.
\<close>

theorem slist_refines_lists:
  assumes "\<forall>h \<in> H. slist_at m h (A h)" and "separated H A" and "ops_ok slist_supported H (dom (qelems m)) ops A"
  shows "\<exists>m'. run_ops slist_run ops m = Some m' \<and> (\<forall>h \<in> H. slist_at m' h (fold spec_op ops A h))"
  using slq.run_refines [OF assms] by blast

definition demo_slist :: slist_mem where
  "demo_slist =
     \<lparr>qheads = [0 \<mapsto> SLIST_HEAD_INITIALIZER, 1 \<mapsto> SLIST_HEAD_INITIALIZER],
      qelems = (\<lambda>a. if a < 10 then Some None else None)\<rparr>"

theorem slist_refines_lists_witness:
  "\<exists>m'. run_ops slist_run [InsertHead 0 5, InsertAfter 0 5 6, InsertHead 1 7, Concat 0 1, RemoveElem 0 6] demo_slist = Some m' \<and>
     slist_at m' 0 [5, 7] \<and> slist_at m' 1 []"
proof -
  have "\<forall>h \<in> {0, 1}. slist_at demo_slist h []"
    by (simp add: slist_at_def demo_slist_def SLIST_HEAD_INITIALIZER_def)
  moreover have "dom (qelems demo_slist) = {..<10}"
    by (auto simp: demo_slist_def split: if_splits)
  ultimately show ?thesis
    using slist_refines_lists [of "{0, 1}" demo_slist "\<lambda>_. []"
        "[InsertHead 0 5, InsertAfter 0 5 6, InsertHead 1 7, Concat 0 1, RemoveElem 0 6]"]
    by (simp add: separated_def)
qed

end
