(* ===== verification/STailq.thy ===== *)
theory STailq
  imports Queue_Spec
begin

text \<open>
  The singly-linked tail queue macros of \<open>server/queue.h\<close>: a head with a pointer to the first element and the
  address of the last next-pointer. \<open>stailq\<close> relates a head to the list of its elements; the macros satisfy the
  contract \<open>linked_queue\<close> of \<open>Queue_Spec\<close>.
\<close>

section \<open>The macros\<close>

record stailq_head =
  stqh_first :: "addr option"
  stqh_last :: slot

record stailq_entry =
  stqe_next :: "addr option"

type_synonym stailq_mem = "(stailq_head, stailq_entry) queue_mem"

text \<open>The next fields alone, on which the search and iteration loops run as for the \<open>SLIST\<close> macros.\<close>

definition stq_links :: "(addr \<rightharpoonup> stailq_entry) \<Rightarrow> links" where
  "stq_links es = (\<lambda>a. map_option stqe_next (es a))"

text \<open>The initial value of a head at address \<open>h\<close>.\<close>

definition STAILQ_HEAD_INITIALIZER :: "addr \<Rightarrow> stailq_head" where
  "STAILQ_HEAD_INITIALIZER h = \<lparr>stqh_first = None, stqh_last = First h\<rparr>"

definition STAILQ_FIRST :: "stailq_mem \<Rightarrow> addr \<Rightarrow> addr option option" where
  "STAILQ_FIRST m head = do { hd \<leftarrow> qheads m head; Some (stqh_first hd) }"

definition STAILQ_EMPTY :: "stailq_mem \<Rightarrow> addr \<Rightarrow> bool option" where
  "STAILQ_EMPTY m head = do { hd \<leftarrow> qheads m head; Some (stqh_first hd = None) }"

definition STAILQ_NEXT :: "stailq_mem \<Rightarrow> addr option \<Rightarrow> addr option option" where
  "STAILQ_NEXT m elm = do { e \<leftarrow> elem_at m elm; Some (stqe_next e) }"

definition stq_set_next :: "addr option \<Rightarrow> addr option \<Rightarrow> stailq_mem \<Rightarrow> stailq_mem option" where
  "stq_set_next elm v m = upd_elem elm (\<lambda>e. e\<lparr>stqe_next := v\<rparr>) m"

definition stq_set_first :: "addr \<Rightarrow> addr option \<Rightarrow> stailq_mem \<Rightarrow> stailq_mem option" where
  "stq_set_first head v m = upd_head head (\<lambda>hd. hd\<lparr>stqh_first := v\<rparr>) m"

definition stq_set_last :: "addr \<Rightarrow> slot \<Rightarrow> stailq_mem \<Rightarrow> stailq_mem option" where
  "stq_set_last head v m = upd_head head (\<lambda>hd. hd\<lparr>stqh_last := v\<rparr>) m"

text \<open>An assignment through a pointer to a first-pointer or next-pointer.\<close>

fun stq_store :: "slot \<Rightarrow> addr option \<Rightarrow> stailq_mem \<Rightarrow> stailq_mem option" where
  "stq_store (First h) v m = stq_set_first h v m"
| "stq_store (Next a) v m = stq_set_next (Some a) v m"

definition STAILQ_INIT :: "addr \<Rightarrow> stailq_mem \<Rightarrow> stailq_mem option" where
  "STAILQ_INIT head m = do {
     m \<leftarrow> stq_set_first head None m;
     stq_set_last head (First head) m
   }"

definition STAILQ_CONCAT :: "addr \<Rightarrow> addr \<Rightarrow> stailq_mem \<Rightarrow> stailq_mem option" where
  "STAILQ_CONCAT head1 head2 m = do {
     empty \<leftarrow> STAILQ_EMPTY m head2;
     if \<not> empty then do {
       hd1 \<leftarrow> qheads m head1;
       first2 \<leftarrow> STAILQ_FIRST m head2;
       m \<leftarrow> stq_store (stqh_last hd1) first2 m;
       hd2 \<leftarrow> qheads m head2;
       m \<leftarrow> stq_set_last head1 (stqh_last hd2) m;
       STAILQ_INIT head2 m
     }
     else Some m
   }"

definition STAILQ_INSERT_AFTER :: "addr \<Rightarrow> addr option \<Rightarrow> addr option \<Rightarrow> stailq_mem \<Rightarrow> stailq_mem option" where
  "STAILQ_INSERT_AFTER head tqelm elm m = do {
     n \<leftarrow> STAILQ_NEXT m tqelm;
     m \<leftarrow> stq_set_next elm n m;
     m \<leftarrow> (if n = None then do { s \<leftarrow> next_field elm; stq_set_last head s m } else Some m);
     stq_set_next tqelm elm m
   }"

definition STAILQ_INSERT_HEAD :: "addr \<Rightarrow> addr option \<Rightarrow> stailq_mem \<Rightarrow> stailq_mem option" where
  "STAILQ_INSERT_HEAD head elm m = do {
     n \<leftarrow> STAILQ_FIRST m head;
     m \<leftarrow> stq_set_next elm n m;
     m \<leftarrow> (if n = None then do { s \<leftarrow> next_field elm; stq_set_last head s m } else Some m);
     stq_set_first head elm m
   }"

definition STAILQ_INSERT_TAIL :: "addr \<Rightarrow> addr option \<Rightarrow> stailq_mem \<Rightarrow> stailq_mem option" where
  "STAILQ_INSERT_TAIL head elm m = do {
     m \<leftarrow> stq_set_next elm None m;
     hd \<leftarrow> qheads m head;
     m \<leftarrow> stq_store (stqh_last hd) elm m;
     s \<leftarrow> next_field elm;
     stq_set_last head s m
   }"

text \<open>\<open>STAILQ_LAST\<close> takes the last next-pointer for that of an element; that of the head has no element around it.\<close>

definition STAILQ_LAST :: "stailq_mem \<Rightarrow> addr \<Rightarrow> addr option option" where
  "STAILQ_LAST m head = do {
     empty \<leftarrow> STAILQ_EMPTY m head;
     if empty then Some None
     else do {
       hd \<leftarrow> qheads m head;
       (case stqh_last hd of Next a \<Rightarrow> Some (Some a) | First h \<Rightarrow> None)
     }
   }"

definition STAILQ_REMOVE_HEAD :: "addr \<Rightarrow> stailq_mem \<Rightarrow> stailq_mem option" where
  "STAILQ_REMOVE_HEAD head m = do {
     f \<leftarrow> STAILQ_FIRST m head;
     n \<leftarrow> STAILQ_NEXT m f;
     m \<leftarrow> stq_set_first head n m;
     if n = None then stq_set_last head (First head) m else Some m
   }"

definition STAILQ_REMOVE_AFTER :: "addr \<Rightarrow> addr option \<Rightarrow> stailq_mem \<Rightarrow> stailq_mem option" where
  "STAILQ_REMOVE_AFTER head elm m = do {
     n \<leftarrow> STAILQ_NEXT m elm;
     n \<leftarrow> STAILQ_NEXT m n;
     m \<leftarrow> stq_set_next elm n m;
     if n = None then do { s \<leftarrow> next_field elm; stq_set_last head s m } else Some m
   }"

definition STAILQ_REMOVE :: "addr \<Rightarrow> addr option \<Rightarrow> stailq_mem \<Rightarrow> stailq_mem option" where
  "STAILQ_REMOVE head elm m = do {
     f \<leftarrow> STAILQ_FIRST m head;
     if f = elm then STAILQ_REMOVE_HEAD head m
     else do {
       curelm \<leftarrow> slist_remove_loop (stq_links (qelems m)) f elm;
       STAILQ_REMOVE_AFTER head curelm m
     }
   }"

definition STAILQ_SWAP :: "addr \<Rightarrow> addr \<Rightarrow> stailq_mem \<Rightarrow> stailq_mem option" where
  "STAILQ_SWAP head1 head2 m = do {
     hd1 \<leftarrow> qheads m head1;
     let swap_first = stqh_first hd1;
     let swap_last = stqh_last hd1;
     hd2 \<leftarrow> qheads m head2;
     m \<leftarrow> stq_set_first head1 (stqh_first hd2) m;
     m \<leftarrow> stq_set_last head1 (stqh_last hd2) m;
     m \<leftarrow> stq_set_first head2 swap_first m;
     m \<leftarrow> stq_set_last head2 swap_last m;
     empty \<leftarrow> STAILQ_EMPTY m head1;
     m \<leftarrow> (if empty then stq_set_last head1 (First head1) m else Some m);
     empty \<leftarrow> STAILQ_EMPTY m head2;
     if empty then stq_set_last head2 (First head2) m else Some m
   }"

text \<open>The iteration macros, with the loops of \<open>SLIST_FOREACH\<close> and \<open>SLIST_FOREACH_SAFE\<close> on the next fields.\<close>

definition STAILQ_FOREACH :: "('s \<Rightarrow> stailq_mem) \<Rightarrow> (addr \<Rightarrow> 's \<Rightarrow> 's option) \<Rightarrow> addr \<Rightarrow> 's \<Rightarrow> 's option" where
  "STAILQ_FOREACH get body head s = do {
     f \<leftarrow> STAILQ_FIRST (get s) head;
     slist_foreach_loop (\<lambda>s. stq_links (qelems (get s))) body f s
   }"

definition STAILQ_FOREACH_FROM ::
  "('s \<Rightarrow> stailq_mem) \<Rightarrow> (addr \<Rightarrow> 's \<Rightarrow> 's option) \<Rightarrow> addr option \<Rightarrow> addr \<Rightarrow> 's \<Rightarrow> 's option" where
  "STAILQ_FOREACH_FROM get body var head s = do {
     f \<leftarrow> (if var \<noteq> None then Some var else STAILQ_FIRST (get s) head);
     slist_foreach_loop (\<lambda>s. stq_links (qelems (get s))) body f s
   }"

definition STAILQ_FOREACH_SAFE :: "('s \<Rightarrow> stailq_mem) \<Rightarrow> (addr \<Rightarrow> 's \<Rightarrow> 's option) \<Rightarrow> addr \<Rightarrow> 's \<Rightarrow> 's option" where
  "STAILQ_FOREACH_SAFE get body head s = do {
     f \<leftarrow> STAILQ_FIRST (get s) head;
     slist_foreach_safe_loop (\<lambda>s. stq_links (qelems (get s))) body f s
   }"

definition STAILQ_FOREACH_FROM_SAFE ::
  "('s \<Rightarrow> stailq_mem) \<Rightarrow> (addr \<Rightarrow> 's \<Rightarrow> 's option) \<Rightarrow> addr option \<Rightarrow> addr \<Rightarrow> 's \<Rightarrow> 's option" where
  "STAILQ_FOREACH_FROM_SAFE get body var head s = do {
     f \<leftarrow> (if var \<noteq> None then Some var else STAILQ_FIRST (get s) head);
     slist_foreach_safe_loop (\<lambda>s. stq_links (qelems (get s))) body f s
   }"

fun stailq_run :: "queue_op \<Rightarrow> stailq_mem \<Rightarrow> stailq_mem option" where
  "stailq_run (Init h) m = STAILQ_INIT h m"
| "stailq_run (InsertHead h a) m = STAILQ_INSERT_HEAD h (Some a) m"
| "stailq_run (InsertTail h a) m = STAILQ_INSERT_TAIL h (Some a) m"
| "stailq_run (InsertAfter h b a) m = STAILQ_INSERT_AFTER h (Some b) (Some a) m"
| "stailq_run (RemoveElem h a) m = STAILQ_REMOVE h (Some a) m"
| "stailq_run (RemoveHead h) m = STAILQ_REMOVE_HEAD h m"
| "stailq_run (RemoveAfter h b) m = STAILQ_REMOVE_AFTER h (Some b) m"
| "stailq_run (Concat h1 h2) m = STAILQ_CONCAT h1 h2 m"
| "stailq_run (Swap h1 h2) m = STAILQ_SWAP h1 h2 m"
| "stailq_run (InsertBefore h b a) m = None"

fun stailq_supported :: "queue_op \<Rightarrow> bool" where
  "stailq_supported (InsertBefore h b a) \<longleftrightarrow> False"
| "stailq_supported _ \<longleftrightarrow> True"

section \<open>Abstraction\<close>

definition stailq :: "stailq_mem \<Rightarrow> addr \<Rightarrow> addr list \<Rightarrow> bool" where
  "stailq m h xs \<longleftrightarrow>
     (\<exists>hd. qheads m h = Some hd \<and> slist (stq_links (qelems m)) (stqh_first hd) xs \<and>
           stqh_last hd = last_slot (First h) xs)"

lemma stq_links_simps [simp]:
  "stq_links (es(a \<mapsto> e)) = (stq_links es)(a \<mapsto> stqe_next e)"
  "stq_links es a = None \<longleftrightarrow> es a = None"
  "stq_links es a = Some n \<longleftrightarrow> (\<exists>e. es a = Some e \<and> stqe_next e = n)"
  "es a = Some e \<Longrightarrow> stq_links es a = Some (stqe_next e)"
  by (auto simp: stq_links_def)

lemmas stailq_macros =
  STAILQ_FIRST_def STAILQ_EMPTY_def STAILQ_NEXT_def stq_set_next_def stq_set_first_def stq_set_last_def STAILQ_INIT_def

lemma stailq_frame:
  assumes "stailq m h xs" and "same_outside H E m m'" and "h \<notin> H" and "set xs \<inter> E = {}"
  shows "stailq m' h xs"
proof -
  have "stq_links (qelems m') x = stq_links (qelems m) x" if "x \<in> set xs" for x
    using assms that by (auto simp: same_outside_def stq_links_def)
  then show ?thesis
    using assms slist_frame [of "stq_links (qelems m)" _ xs "stq_links (qelems m')"]
    by (auto simp: stailq_def same_outside_def)
qed

section \<open>The macros on the abstraction\<close>

text \<open>The result of an operation on one list: the new list, and the rest of the memory as it was.\<close>

definition stailq_becomes :: "stailq_mem \<Rightarrow> stailq_mem option \<Rightarrow> addr \<Rightarrow> addr list \<Rightarrow> addr set \<Rightarrow> bool" where
  "stailq_becomes m r h xs E \<longleftrightarrow> (\<exists>m'. r = Some m' \<and> stailq m' h xs \<and> same_outside {h} E m m')"

lemma stailq_init: "stailq m h xs \<Longrightarrow> stailq_becomes m (STAILQ_INIT h m) h [] (set xs)"
  by (auto simp: stailq_becomes_def stailq_def stailq_macros same_outside_def)

lemma stailq_insert_head:
  assumes "stailq m h xs" and "a \<in> dom (qelems m)" and "a \<notin> set xs"
  shows "stailq_becomes m (STAILQ_INSERT_HEAD h (Some a) m) h (a # xs) (insert a (set xs))"
  using assms
  by (cases xs) (auto simp: stailq_becomes_def stailq_def STAILQ_INSERT_HEAD_def stailq_macros same_outside_def
      slist_Cons simp del: slist.simps(2))

lemma stailq_insert_tail:
  assumes "stailq m h xs" and "a \<in> dom (qelems m)" and "a \<notin> set xs"
  shows "stailq_becomes m (STAILQ_INSERT_TAIL h (Some a) m) h (xs @ [a]) (insert a (set xs))"
proof (cases xs rule: rev_cases)
  case Nil
  then show ?thesis
    using assms by (auto simp: stailq_becomes_def stailq_def STAILQ_INSERT_TAIL_def stailq_macros same_outside_def)
next
  case (snoc ys c)
  let ?l = "stq_links (qelems m)"
  obtain hd where hd: "qheads m h = Some hd" "slist ?l (stqh_first hd) xs" "stqh_last hd = Next c"
    using assms(1) snoc by (auto simp: stailq_def)
  obtain e where e: "qelems m c = Some e" using slist_allocated [OF hd(2), of c] snoc by auto
  have "slist (?l(a \<mapsto> None)) (stqh_first hd) (ys @ [c])" "slist (?l(a \<mapsto> None)) (Some a) [a]"
    using hd(2) assms(3) snoc by simp_all
  then have "slist (?l(a \<mapsto> None, c \<mapsto> Some a)) (stqh_first hd) (ys @ c # [a])"
    using assms(3) snoc by (intro slist_link_last) auto
  then show ?thesis
    using hd e assms(2,3) snoc
    by (auto simp: stailq_becomes_def stailq_def STAILQ_INSERT_TAIL_def stailq_macros same_outside_def)
qed

lemma slist_last_iff:
  assumes "slist l p xs" and "b \<in> set xs"
  shows "l b = Some None \<longleftrightarrow> b = last xs"
proof -
  obtain us vs where xs: "xs = us @ b # vs" using split_list [OF assms(2)] by blast
  then obtain q where "slist l q (b # vs)" using slist_suffix assms(1) by blast
  moreover have "b \<notin> set vs" using slist_distinct [OF assms(1)] xs by simp
  ultimately show ?thesis using xs by (cases vs) (auto split: option.splits)
qed

lemma stailq_insert_after:
  assumes "stailq m h xs" and "a \<in> dom (qelems m)" and "a \<notin> set xs" and "b \<in> set xs"
  shows "stailq_becomes m (STAILQ_INSERT_AFTER h (Some b) (Some a) m) h (insert_after b a xs) (insert a (set xs))"
proof -
  let ?l = "stq_links (qelems m)"
  obtain hd where hd: "qheads m h = Some hd" "slist ?l (stqh_first hd) xs" "stqh_last hd = last_slot (First h) xs"
    using assms(1) by (auto simp: stailq_def)
  obtain e where e: "qelems m b = Some e" using slist_allocated [OF hd(2) assms(4)] by auto
  obtain us vs where xs: "xs = us @ b # vs" "b \<notin> set us" using slist_first_split [OF assms(4)] by blast
  have last: "stqe_next e = None \<longleftrightarrow> vs = []"
    using slist_last_iff [OF hd(2) assms(4)] slist_distinct [OF hd(2)] e xs by (auto simp: last_in_set split: if_splits)
  have "slist (?l(a \<mapsto> stqe_next e, b \<mapsto> Some a)) (stqh_first hd) (insert_after b a xs)"
    using slist_insert_after_at [OF hd(2) _ assms(3,4)] assms(2,3,4) e by (auto simp: SLIST_INSERT_AFTER_def)
  moreover have "last_slot (First h) (insert_after b a xs) = (if vs = [] then Next a else stqh_last hd)"
    using hd(3) xs by (cases vs) (simp_all add: insert_after_split)
  ultimately show ?thesis
    using hd(1) e assms(2,3,4) last
    by (auto simp: stailq_becomes_def stailq_def STAILQ_INSERT_AFTER_def stailq_macros same_outside_def)
qed

lemma stailq_remove_head:
  assumes "stailq m h xs" and "xs \<noteq> []"
  shows "stailq_becomes m (STAILQ_REMOVE_HEAD h m) h (tl xs) (set xs)"
proof -
  obtain x ys where xs: "xs = x # ys" using assms(2) by (cases xs) auto
  then show ?thesis
    using assms
    by (cases ys) (auto simp: stailq_becomes_def stailq_def STAILQ_REMOVE_HEAD_def stailq_macros same_outside_def
        slist_Cons simp del: slist.simps(2))
qed

lemma stailq_remove_after:
  assumes "stailq m h xs" and "b \<in> set xs" and "b \<noteq> last xs"
  shows "stailq_becomes m (STAILQ_REMOVE_AFTER h (Some b) m) h (remove_after b xs) (set xs)"
proof -
  let ?l = "stq_links (qelems m)"
  obtain hd where hd: "qheads m h = Some hd" "slist ?l (stqh_first hd) xs" "stqh_last hd = last_slot (First h) xs"
    using assms(1) by (auto simp: stailq_def)
  obtain us vs where "xs = us @ b # vs" "b \<notin> set us" using slist_first_split [OF assms(2)] by blast
  moreover then obtain y ys where "vs = y # ys" using assms(3) by (cases vs) auto
  ultimately have xs: "xs = us @ b # y # ys" "b \<notin> set us" by simp_all
  obtain e where e: "qelems m y = Some e" using slist_allocated [OF hd(2), of y] xs by auto
  have u: "slist (?l(b \<mapsto> stqe_next e)) (stqh_first hd) (us @ b # ys)" "?l b = Some (Some y)"
    using slist_unlink [of ?l "stqh_first hd" us b y ys "stqe_next e"] hd(2) e xs by auto
  have "y = last xs \<longleftrightarrow> ys = []" using slist_distinct [OF hd(2)] xs by (auto split: if_splits)
  then have last: "stqe_next e = None \<longleftrightarrow> ys = []"
    using slist_last_iff [OF hd(2), of y] e xs by simp
  show ?thesis
    using hd(1,3) e u last xs
    by (cases ys) (auto simp: stailq_becomes_def stailq_def STAILQ_REMOVE_AFTER_def stailq_macros same_outside_def
        remove_after_split)
qed

lemma stailq_remove:
  assumes "stailq m h xs" and "a \<in> set xs"
  shows "stailq_becomes m (STAILQ_REMOVE h (Some a) m) h (remove1 a xs) (set xs)"
proof -
  let ?l = "stq_links (qelems m)"
  obtain hd where hd: "qheads m h = Some hd" "slist ?l (stqh_first hd) xs" using assms(1) by (auto simp: stailq_def)
  obtain us vs where xs: "xs = us @ a # vs" "a \<notin> set us" using slist_first_split [OF assms(2)] by blast
  show ?thesis
  proof (cases us rule: rev_cases)
    case Nil
    then have "STAILQ_REMOVE h (Some a) m = STAILQ_REMOVE_HEAD h m"
      using hd xs by (simp add: STAILQ_REMOVE_def stailq_macros)
    then show ?thesis using stailq_remove_head [OF assms(1)] xs Nil by simp
  next
    case (snoc ws c)
    then have "us \<noteq> []" by simp
    then obtain b zs where us: "us = b # zs" by (meson neq_Nil_conv)
    have first: "stqh_first hd = Some b" "b \<noteq> a" using hd(2) xs us by auto
    have "slist_remove_loop ?l (Some b) (Some a) = Some (Some c)"
      using remove_loop_finds [of ?l b zs a vs] hd(2) xs us first snoc by (metis append_Cons append_Nil last_snoc)
    then have run: "STAILQ_REMOVE h (Some a) m = STAILQ_REMOVE_AFTER h (Some c) m"
      using hd(1) first by (simp add: STAILQ_REMOVE_def stailq_macros)
    have d: "distinct xs" by (rule slist_distinct [OF hd(2)])
    then have "remove_after c xs = remove1 a xs"
      using xs snoc remove_after_split [of c ws "a # vs"] by (simp add: remove1_append)
    moreover have "c \<noteq> last xs" using d xs snoc by (auto split: if_splits)
    ultimately show ?thesis using stailq_remove_after [OF assms(1), of c] run xs snoc by simp
  qed
qed

text \<open>The operations on two lists.\<close>

lemma stailq_concat:
  assumes "stailq m h1 xs" and "stailq m h2 ys" and "h1 \<noteq> h2" and "set xs \<inter> set ys = {}"
  shows "\<exists>m'. STAILQ_CONCAT h1 h2 m = Some m' \<and> stailq m' h1 (xs @ ys) \<and> stailq m' h2 [] \<and>
           same_outside {h1, h2} (set xs \<union> set ys) m m'"
proof -
  let ?l = "stq_links (qelems m)"
  obtain hd1 hd2 where hd: "qheads m h1 = Some hd1" "slist ?l (stqh_first hd1) xs" "stqh_last hd1 = last_slot (First h1) xs"
      "qheads m h2 = Some hd2" "slist ?l (stqh_first hd2) ys" "stqh_last hd2 = last_slot (First h2) ys"
    using assms(1,2) by (auto simp: stailq_def)
  show ?thesis
  proof (cases "ys = []")
    case True
    then show ?thesis using hd assms(1,2) by (simp add: STAILQ_CONCAT_def stailq_macros same_outside_def)
  next
    case ys: False
    then have nz: "stqh_first hd2 \<noteq> None" using slist_nonempty [OF hd(5)] by auto
    have tail: "last_slot s ys = last_slot s' ys" for s s' using ys by (simp add: last_slot_def)
    show ?thesis
    proof (cases xs rule: rev_cases)
      case Nil
      then show ?thesis
        using hd nz assms(3) tail [of "First h2" "First h1"]
        by (auto simp: STAILQ_CONCAT_def stailq_macros stailq_def same_outside_def)
    next
      case (snoc zs c)
      obtain e where e: "qelems m c = Some e" using slist_allocated [OF hd(2), of c] snoc by auto
      have "slist (?l(c \<mapsto> stqh_first hd2)) (stqh_first hd1) (zs @ c # ys)"
        using hd(2,5) assms(4) snoc by (intro slist_link_last) auto
      then show ?thesis
        using hd nz e assms(3) snoc tail [of "First h2" "Next c"]
        by (auto simp: STAILQ_CONCAT_def stailq_macros stailq_def same_outside_def)
    qed
  qed
qed

lemma stailq_swap:
  assumes "stailq m h1 xs" and "stailq m h2 ys" and "h1 \<noteq> h2"
  shows "\<exists>m'. STAILQ_SWAP h1 h2 m = Some m' \<and> stailq m' h1 ys \<and> stailq m' h2 xs \<and>
           same_outside {h1, h2} (set xs \<union> set ys) m m'"
proof -
  have tail: "zs \<noteq> [] \<Longrightarrow> last_slot s zs = last_slot s' zs" for s s' zs by (simp add: last_slot_def)
  show ?thesis
    using assms tail [of xs "First h1" "First h2"] tail [of ys "First h1" "First h2"]
    by (cases "xs = []"; cases "ys = []")
      (auto simp: STAILQ_SWAP_def stailq_macros stailq_def same_outside_def Let_def dest: slist_nonempty)
qed

lemma stailq_law:
  assumes sup: "stailq_supported op" and pre: "op_pre op A" and new: "op_new op \<subseteq> dom (qelems m)"
    and rep: "\<And>h. h \<in> op_heads op \<Longrightarrow> stailq m h (A h)"
  shows "\<exists>m'. stailq_run op m = Some m' \<and> (\<forall>h \<in> op_heads op. stailq m' h (spec_op op A h)) \<and>
           same_outside (op_heads op) (op_new op \<union> (\<Union>h \<in> op_heads op. set (A h))) m m'"
proof (cases op)
  case (Init h)
  then show ?thesis using stailq_init [OF rep [of h]] by (auto simp: stailq_becomes_def)
next
  case (InsertHead h a)
  then show ?thesis using stailq_insert_head [OF rep [of h]] pre new by (auto simp: stailq_becomes_def)
next
  case (InsertTail h a)
  then show ?thesis using stailq_insert_tail [OF rep [of h]] pre new by (auto simp: stailq_becomes_def)
next
  case (InsertAfter h b a)
  then show ?thesis using stailq_insert_after [OF rep [of h]] pre new by (auto simp: stailq_becomes_def)
next
  case (RemoveElem h a)
  then show ?thesis using stailq_remove [OF rep [of h]] pre by (auto simp: stailq_becomes_def)
next
  case (RemoveHead h)
  then show ?thesis using stailq_remove_head [OF rep [of h]] pre by (auto simp: stailq_becomes_def)
next
  case (RemoveAfter h b)
  then show ?thesis using stailq_remove_after [OF rep [of h]] pre by (auto simp: stailq_becomes_def)
next
  case (Concat h1 h2)
  then show ?thesis using stailq_concat [OF rep [of h1] rep [of h2]] pre by auto
next
  case (Swap h1 h2)
  then show ?thesis using stailq_swap [OF rep [of h1] rep [of h2]] pre by auto
qed (use sup in simp)

interpretation stq: linked_queue stailq stailq_run stailq_supported
  by unfold_locales (fact stailq_frame stailq_law)+

text \<open>Reading the queue.\<close>

lemma stailq_last: "stailq m h xs \<Longrightarrow> STAILQ_LAST m h = Some (if xs = [] then None else Some (last xs))"
  by (cases xs rule: rev_cases) (auto simp: stailq_def STAILQ_LAST_def stailq_macros dest: slist_nonempty)

lemma stailq_first: "stailq m h xs \<Longrightarrow> STAILQ_FIRST m h = Some (if xs = [] then None else Some (hd xs))"
  by (cases xs) (auto simp: stailq_def stailq_macros)

lemma stailq_foreach:
  assumes "stailq (get s) h xs" and "\<And>x s s'. x \<in> set xs \<Longrightarrow> body x s = Some s' \<Longrightarrow> get s' = get s"
  shows "STAILQ_FOREACH get body h s = visit body xs s"
  using assms foreach_visit [of "\<lambda>s. stq_links (qelems (get s))" s _ xs body]
  by (auto simp: stailq_def STAILQ_FOREACH_def stailq_macros)

lemma stailq_foreach_safe:
  assumes "P xs s" and "stailq (get s) h xs"
    and "\<And>ys s. P ys s \<Longrightarrow> \<exists>q. slist (stq_links (qelems (get s))) q ys"
    and "\<And>x ys s s'. P (x # ys) s \<Longrightarrow> body x s = Some s' \<Longrightarrow> P ys s'"
  shows "STAILQ_FOREACH_SAFE get body h s = visit body xs s"
  using assms(2) foreach_safe_visit [of P xs s "\<lambda>s. stq_links (qelems (get s))" _ body, OF assms(1) _ assms(3,4)]
  by (auto simp: stailq_def STAILQ_FOREACH_SAFE_def stailq_macros)

section \<open>Properties\<close>

text \<open>
  C27. The singly-linked tail queue macros refine lists: any sequence of their operations on any number of queues that keeps
  to the callers' rules runs to its end without an invalid access, each queue then holds the list that the same
  operations give on lists, and \<open>STAILQ_FIRST\<close> and \<open>STAILQ_LAST\<close> return its ends (\<open>NULL\<close> for an empty one), so
  the address of the last next-pointer is kept right by every operation.
\<close>

theorem stailq_refines_lists:
  assumes "\<forall>h \<in> H. stailq m h (A h)" and "separated H A" and "ops_ok stailq_supported H (dom (qelems m)) ops A"
  shows "\<exists>m'. run_ops stailq_run ops m = Some m' \<and>
    (\<forall>h \<in> H. stailq m' h (fold spec_op ops A h) \<and>
       STAILQ_FIRST m' h = Some (if fold spec_op ops A h = [] then None else Some (hd (fold spec_op ops A h))) \<and>
       STAILQ_LAST m' h = Some (if fold spec_op ops A h = [] then None else Some (last (fold spec_op ops A h))))"
  using stq.run_refines [OF assms] stailq_first stailq_last by blast

definition demo_stailq :: stailq_mem where
  "demo_stailq =
     \<lparr>qheads = [0 \<mapsto> STAILQ_HEAD_INITIALIZER 0, 1 \<mapsto> STAILQ_HEAD_INITIALIZER 1],
      qelems = (\<lambda>a. if a < 10 then Some \<lparr>stqe_next = None\<rparr> else None)\<rparr>"

theorem stailq_refines_lists_witness:
  "\<exists>m'. run_ops stailq_run [InsertTail 0 5, InsertTail 0 6, InsertHead 1 7, Concat 0 1, RemoveElem 0 6] demo_stailq = Some m' \<and>
     stailq m' 0 [5, 7] \<and> STAILQ_LAST m' 0 = Some (Some 7) \<and> stailq m' 1 []"
proof -
  have "\<forall>h \<in> {0, 1}. stailq demo_stailq h []"
    by (simp add: stailq_def demo_stailq_def STAILQ_HEAD_INITIALIZER_def)
  moreover have "dom (qelems demo_stailq) = {..<10}"
    by (auto simp: demo_stailq_def split: if_splits)
  ultimately show ?thesis
    using stailq_refines_lists [of "{0, 1}" demo_stailq "\<lambda>_. []"
        "[InsertTail 0 5, InsertTail 0 6, InsertHead 1 7, Concat 0 1, RemoveElem 0 6]"]
    by (simp add: separated_def) blast
qed

end
