(* ===== verification/List_Queue.thy ===== *)
theory List_Queue
  imports Queue_Spec
begin

text \<open>
  The doubly-linked list macros \<open>LIST_*\<close> of \<open>server/queue.h\<close>, with the consistency checks of the kernel build
  under \<open>INVARIANTS\<close> (argument \<open>chk\<close>; a failing check is a panic and has no result). An element holds the next
  pointer and the address of the pointer that refers to it. \<open>dlist\<close> relates a head to the list of its elements;
  the macros satisfy the contract \<open>linked_queue\<close> in both builds, so that no check ever fails. The doubly-linked
  segments \<open>dseg\<close> are used for the tail queues as well.
\<close>

section \<open>Doubly-linked segments\<close>

text \<open>
  \<open>es\<close> gives the next pointer and the back pointer of each element. The segment starts at \<open>p\<close>, which is stored
  in the pointer at \<open>s\<close>, and its last next-pointer holds \<open>q\<close>.
\<close>

fun dseg :: "(addr \<rightharpoonup> addr option \<times> slot) \<Rightarrow> slot \<Rightarrow> addr option \<Rightarrow> addr list \<Rightarrow> addr option \<Rightarrow> bool" where
  "dseg es s p [] q \<longleftrightarrow> p = q"
| "dseg es s p (x # xs) q \<longleftrightarrow> p = Some x \<and> (\<exists>n. es x = Some (n, s) \<and> dseg es (Next x) n xs q)"

definition first_ptr :: "addr list \<Rightarrow> addr option \<Rightarrow> addr option" where
  "first_ptr xs q = (case xs of [] \<Rightarrow> q | x # _ \<Rightarrow> Some x)"

lemma first_ptr_simps [simp]:
  "first_ptr [] q = q" "first_ptr (x # xs) q = Some x" "first_ptr (xs @ ys) q = first_ptr xs (first_ptr ys q)"
  by (auto simp: first_ptr_def split: list.splits)

lemma dseg_first: "dseg es s p xs q \<Longrightarrow> p = first_ptr xs q"
  by (cases xs) auto

lemma dseg_append [simp]:
  "dseg es s p (xs @ ys) q \<longleftrightarrow>
     dseg es s p xs (first_ptr ys q) \<and> dseg es (last_slot s xs) (first_ptr ys q) ys q"
proof (induction xs arbitrary: s p)
  case Nil
  then show ?case using dseg_first by auto
qed auto

lemma dseg_update [simp]: "x \<notin> set xs \<Longrightarrow> dseg (es(x := v)) s p xs q = dseg es s p xs q"
  by (induction xs arbitrary: s p) auto

lemma dseg_frame: "dseg es s p xs q \<Longrightarrow> (\<And>x. x \<in> set xs \<Longrightarrow> es' x = es x) \<Longrightarrow> dseg es' s p xs q"
  by (induction xs arbitrary: s p) auto

lemma dseg_allocated: "dseg es s p xs q \<Longrightarrow> x \<in> set xs \<Longrightarrow> es x \<noteq> None"
  by (induction xs arbitrary: s p) auto

lemma dseg_slist: "dseg es s p xs None \<Longrightarrow> slist (\<lambda>a. map_option fst (es a)) p xs"
  by (induction xs arbitrary: s p) (auto simp: slist_Cons simp del: slist.simps(2))

lemma dseg_distinct: "dseg es s p xs None \<Longrightarrow> distinct xs"
  using dseg_slist slist_distinct by blast

text \<open>Another pointer is made to refer to the segment: only the back pointer of its first element changes.\<close>

lemma dseg_start: "dseg es s p (x # xs) q \<Longrightarrow> x \<notin> set xs \<Longrightarrow> \<exists>n. es x = Some (n, s) \<and> dseg (es(x \<mapsto> (n, s'))) s' p (x # xs) q"
  by auto

section \<open>The macros\<close>

record list_head =
  lh_first :: "addr option"

record list_entry =
  le_next :: "addr option"
  le_prev :: slot

type_synonym list_mem = "(list_head, list_entry) queue_mem"

definition list_links :: "(addr \<rightharpoonup> list_entry) \<Rightarrow> links" where
  "list_links es = (\<lambda>a. map_option le_next (es a))"

definition LIST_HEAD_INITIALIZER :: list_head where
  "LIST_HEAD_INITIALIZER = \<lparr>lh_first = None\<rparr>"

definition LIST_FIRST :: "list_mem \<Rightarrow> addr \<Rightarrow> addr option option" where
  "LIST_FIRST m head = do { hd \<leftarrow> qheads m head; Some (lh_first hd) }"

definition LIST_EMPTY :: "list_mem \<Rightarrow> addr \<Rightarrow> bool option" where
  "LIST_EMPTY m head = do { hd \<leftarrow> qheads m head; Some (lh_first hd = None) }"

definition LIST_NEXT :: "list_mem \<Rightarrow> addr option \<Rightarrow> addr option option" where
  "LIST_NEXT m elm = do { e \<leftarrow> elem_at m elm; Some (le_next e) }"

definition list_set_first :: "addr \<Rightarrow> addr option \<Rightarrow> list_mem \<Rightarrow> list_mem option" where
  "list_set_first head v m = upd_head head (\<lambda>hd. hd\<lparr>lh_first := v\<rparr>) m"

definition list_set_next :: "addr option \<Rightarrow> addr option \<Rightarrow> list_mem \<Rightarrow> list_mem option" where
  "list_set_next elm v m = upd_elem elm (\<lambda>e. e\<lparr>le_next := v\<rparr>) m"

definition list_set_prev :: "addr option \<Rightarrow> slot \<Rightarrow> list_mem \<Rightarrow> list_mem option" where
  "list_set_prev elm v m = upd_elem elm (\<lambda>e. e\<lparr>le_prev := v\<rparr>) m"

text \<open>Reading and writing through an address in \<open>le_prev\<close>.\<close>

fun list_load :: "slot \<Rightarrow> list_mem \<Rightarrow> addr option option" where
  "list_load (First h) m = LIST_FIRST m h"
| "list_load (Next a) m = LIST_NEXT m (Some a)"

fun list_store :: "slot \<Rightarrow> addr option \<Rightarrow> list_mem \<Rightarrow> list_mem option" where
  "list_store (First h) v m = list_set_first h v m"
| "list_store (Next a) v m = list_set_next (Some a) v m"

definition QMD_LIST_CHECK_HEAD :: "bool \<Rightarrow> addr \<Rightarrow> list_mem \<Rightarrow> unit option" where
  "QMD_LIST_CHECK_HEAD chk head m =
     (if chk then do {
        f \<leftarrow> LIST_FIRST m head;
        if f \<noteq> None then do { e \<leftarrow> elem_at m f; ensure (le_prev e = First head) } else Some ()
      } else Some ())"

definition QMD_LIST_CHECK_NEXT :: "bool \<Rightarrow> addr option \<Rightarrow> list_mem \<Rightarrow> unit option" where
  "QMD_LIST_CHECK_NEXT chk elm m =
     (if chk then do {
        n \<leftarrow> LIST_NEXT m elm;
        if n \<noteq> None then do { e \<leftarrow> elem_at m n; s \<leftarrow> next_field elm; ensure (le_prev e = s) } else Some ()
      } else Some ())"

definition QMD_LIST_CHECK_PREV :: "bool \<Rightarrow> addr option \<Rightarrow> list_mem \<Rightarrow> unit option" where
  "QMD_LIST_CHECK_PREV chk elm m =
     (if chk then do {
        e \<leftarrow> elem_at m elm;
        v \<leftarrow> list_load (le_prev e) m;
        ensure (v = elm)
      } else Some ())"

definition LIST_INIT :: "addr \<Rightarrow> list_mem \<Rightarrow> list_mem option" where
  "LIST_INIT head m = list_set_first head None m"

definition LIST_CONCAT :: "addr \<Rightarrow> addr \<Rightarrow> list_mem \<Rightarrow> list_mem option" where
  "LIST_CONCAT head1 head2 m = do {
     curelm \<leftarrow> LIST_FIRST m head1;
     first2 \<leftarrow> LIST_FIRST m head2;
     if curelm = None then do {
       m \<leftarrow> list_set_first head1 first2 m;
       if first2 \<noteq> None then do {
         f \<leftarrow> LIST_FIRST m head2;
         m \<leftarrow> list_set_prev f (First head1) m;
         LIST_INIT head2 m
       } else Some m
     }
     else if first2 \<noteq> None then do {
       curelm \<leftarrow> slist_last_loop (list_links (qelems m)) curelm;
       m \<leftarrow> list_set_next curelm first2 m;
       f \<leftarrow> LIST_FIRST m head2;
       s \<leftarrow> next_field curelm;
       m \<leftarrow> list_set_prev f s m;
       LIST_INIT head2 m
     }
     else Some m
   }"

definition LIST_INSERT_AFTER :: "bool \<Rightarrow> addr option \<Rightarrow> addr option \<Rightarrow> list_mem \<Rightarrow> list_mem option" where
  "LIST_INSERT_AFTER chk listelm elm m = do {
     QMD_LIST_CHECK_NEXT chk listelm m;
     n \<leftarrow> LIST_NEXT m listelm;
     m \<leftarrow> list_set_next elm n m;
     m \<leftarrow> (if n \<noteq> None then do {
            n \<leftarrow> LIST_NEXT m listelm;
            s \<leftarrow> next_field elm;
            list_set_prev n s m
          } else Some m);
     m \<leftarrow> list_set_next listelm elm m;
     s \<leftarrow> next_field listelm;
     list_set_prev elm s m
   }"

definition LIST_INSERT_BEFORE :: "bool \<Rightarrow> addr option \<Rightarrow> addr option \<Rightarrow> list_mem \<Rightarrow> list_mem option" where
  "LIST_INSERT_BEFORE chk listelm elm m = do {
     QMD_LIST_CHECK_PREV chk listelm m;
     e \<leftarrow> elem_at m listelm;
     m \<leftarrow> list_set_prev elm (le_prev e) m;
     m \<leftarrow> list_set_next elm listelm m;
     e \<leftarrow> elem_at m listelm;
     m \<leftarrow> list_store (le_prev e) elm m;
     s \<leftarrow> next_field elm;
     list_set_prev listelm s m
   }"

definition LIST_INSERT_HEAD :: "bool \<Rightarrow> addr \<Rightarrow> addr option \<Rightarrow> list_mem \<Rightarrow> list_mem option" where
  "LIST_INSERT_HEAD chk head elm m = do {
     QMD_LIST_CHECK_HEAD chk head m;
     f \<leftarrow> LIST_FIRST m head;
     m \<leftarrow> list_set_next elm f m;
     m \<leftarrow> (if f \<noteq> None then do {
            f \<leftarrow> LIST_FIRST m head;
            s \<leftarrow> next_field elm;
            list_set_prev f s m
          } else Some m);
     m \<leftarrow> list_set_first head elm m;
     list_set_prev elm (First head) m
   }"

definition LIST_PREV :: "list_mem \<Rightarrow> addr option \<Rightarrow> addr \<Rightarrow> addr option option" where
  "LIST_PREV m elm head = do {
     e \<leftarrow> elem_at m elm;
     if le_prev e = First head then Some None
     else (case le_prev e of Next a \<Rightarrow> Some (Some a) | First h \<Rightarrow> None)
   }"

definition LIST_REMOVE :: "bool \<Rightarrow> addr option \<Rightarrow> list_mem \<Rightarrow> list_mem option" where
  "LIST_REMOVE chk elm m = do {
     QMD_LIST_CHECK_NEXT chk elm m;
     QMD_LIST_CHECK_PREV chk elm m;
     n \<leftarrow> LIST_NEXT m elm;
     m \<leftarrow> (if n \<noteq> None then do {
            e \<leftarrow> elem_at m elm;
            list_set_prev n (le_prev e) m
          } else Some m);
     e \<leftarrow> elem_at m elm;
     list_store (le_prev e) (le_next e) m
   }"

definition LIST_SWAP :: "addr \<Rightarrow> addr \<Rightarrow> list_mem \<Rightarrow> list_mem option" where
  "LIST_SWAP head1 head2 m = do {
     swap_tmp \<leftarrow> LIST_FIRST m head1;
     f \<leftarrow> LIST_FIRST m head2;
     m \<leftarrow> list_set_first head1 f m;
     m \<leftarrow> list_set_first head2 swap_tmp m;
     swap_tmp \<leftarrow> LIST_FIRST m head1;
     m \<leftarrow> (if swap_tmp \<noteq> None then list_set_prev swap_tmp (First head1) m else Some m);
     swap_tmp \<leftarrow> LIST_FIRST m head2;
     if swap_tmp \<noteq> None then list_set_prev swap_tmp (First head2) m else Some m
   }"

definition LIST_FOREACH :: "('s \<Rightarrow> list_mem) \<Rightarrow> (addr \<Rightarrow> 's \<Rightarrow> 's option) \<Rightarrow> addr \<Rightarrow> 's \<Rightarrow> 's option" where
  "LIST_FOREACH get body head s = do {
     f \<leftarrow> LIST_FIRST (get s) head;
     slist_foreach_loop (\<lambda>s. list_links (qelems (get s))) body f s
   }"

definition LIST_FOREACH_FROM ::
  "('s \<Rightarrow> list_mem) \<Rightarrow> (addr \<Rightarrow> 's \<Rightarrow> 's option) \<Rightarrow> addr option \<Rightarrow> addr \<Rightarrow> 's \<Rightarrow> 's option" where
  "LIST_FOREACH_FROM get body var head s = do {
     f \<leftarrow> (if var \<noteq> None then Some var else LIST_FIRST (get s) head);
     slist_foreach_loop (\<lambda>s. list_links (qelems (get s))) body f s
   }"

definition LIST_FOREACH_SAFE :: "('s \<Rightarrow> list_mem) \<Rightarrow> (addr \<Rightarrow> 's \<Rightarrow> 's option) \<Rightarrow> addr \<Rightarrow> 's \<Rightarrow> 's option" where
  "LIST_FOREACH_SAFE get body head s = do {
     f \<leftarrow> LIST_FIRST (get s) head;
     slist_foreach_safe_loop (\<lambda>s. list_links (qelems (get s))) body f s
   }"

definition LIST_FOREACH_FROM_SAFE ::
  "('s \<Rightarrow> list_mem) \<Rightarrow> (addr \<Rightarrow> 's \<Rightarrow> 's option) \<Rightarrow> addr option \<Rightarrow> addr \<Rightarrow> 's \<Rightarrow> 's option" where
  "LIST_FOREACH_FROM_SAFE get body var head s = do {
     f \<leftarrow> (if var \<noteq> None then Some var else LIST_FIRST (get s) head);
     slist_foreach_safe_loop (\<lambda>s. list_links (qelems (get s))) body f s
   }"

fun list_run :: "bool \<Rightarrow> queue_op \<Rightarrow> list_mem \<Rightarrow> list_mem option" where
  "list_run chk (Init h) m = LIST_INIT h m"
| "list_run chk (InsertHead h a) m = LIST_INSERT_HEAD chk h (Some a) m"
| "list_run chk (InsertAfter h b a) m = LIST_INSERT_AFTER chk (Some b) (Some a) m"
| "list_run chk (InsertBefore h b a) m = LIST_INSERT_BEFORE chk (Some b) (Some a) m"
| "list_run chk (RemoveElem h a) m = LIST_REMOVE chk (Some a) m"
| "list_run chk (Concat h1 h2) m = LIST_CONCAT h1 h2 m"
| "list_run chk (Swap h1 h2) m = LIST_SWAP h1 h2 m"
| "list_run chk _ m = None"

fun list_supported :: "queue_op \<Rightarrow> bool" where
  "list_supported (InsertTail h a) \<longleftrightarrow> False"
| "list_supported (RemoveHead h) \<longleftrightarrow> False"
| "list_supported (RemoveAfter h b) \<longleftrightarrow> False"
| "list_supported _ \<longleftrightarrow> True"

section \<open>Abstraction\<close>

definition list_pairs :: "(addr \<rightharpoonup> list_entry) \<Rightarrow> addr \<rightharpoonup> addr option \<times> slot" where
  "list_pairs es = (\<lambda>a. map_option (\<lambda>e. (le_next e, le_prev e)) (es a))"

definition dlist :: "list_mem \<Rightarrow> addr \<Rightarrow> addr list \<Rightarrow> bool" where
  "dlist m h xs \<longleftrightarrow>
     (\<exists>hd. qheads m h = Some hd \<and> dseg (list_pairs (qelems m)) (First h) (lh_first hd) xs None)"

lemma list_pairs_simps [simp]:
  "list_pairs (es(a \<mapsto> e)) = (list_pairs es)(a \<mapsto> (le_next e, le_prev e))"
  "list_pairs es a = None \<longleftrightarrow> es a = None"
  "list_pairs es a = Some (n, s) \<longleftrightarrow> (\<exists>e. es a = Some e \<and> le_next e = n \<and> le_prev e = s)"
  by (auto simp: list_pairs_def)

lemmas list_macros =
  LIST_FIRST_def LIST_EMPTY_def LIST_NEXT_def list_set_first_def list_set_next_def list_set_prev_def LIST_INIT_def
  QMD_LIST_CHECK_HEAD_def QMD_LIST_CHECK_NEXT_def QMD_LIST_CHECK_PREV_def

lemma dlist_distinct: "dlist m h xs \<Longrightarrow> distinct xs"
  by (auto simp: dlist_def dest: dseg_distinct)

lemma dlist_frame:
  assumes "dlist m h xs" and "same_outside H E m m'" and "h \<notin> H" and "set xs \<inter> E = {}"
  shows "dlist m' h xs"
proof -
  have "list_pairs (qelems m') x = list_pairs (qelems m) x" if "x \<in> set xs" for x
    using assms that by (auto simp: same_outside_def list_pairs_def)
  then show ?thesis
    using assms dseg_frame [of "list_pairs (qelems m)" _ _ xs None "list_pairs (qelems m')"]
    by (auto simp: dlist_def same_outside_def)
qed

section \<open>The macros on the abstraction\<close>

definition dlist_becomes :: "list_mem \<Rightarrow> list_mem option \<Rightarrow> addr \<Rightarrow> addr list \<Rightarrow> addr set \<Rightarrow> bool" where
  "dlist_becomes m r h xs E \<longleftrightarrow> (\<exists>m'. r = Some m' \<and> dlist m' h xs \<and> same_outside {h} E m m')"

lemma dlist_init: "dlist m h xs \<Longrightarrow> dlist_becomes m (LIST_INIT h m) h [] (set xs)"
  by (auto simp: dlist_becomes_def dlist_def list_macros same_outside_def)

lemma dlist_insert_head:
  assumes "dlist m h xs" and "a \<in> dom (qelems m)" and "a \<notin> set xs"
  shows "dlist_becomes m (LIST_INSERT_HEAD chk h (Some a) m) h (a # xs) (insert a (set xs))"
  using assms dlist_distinct [OF assms(1)]
  by (cases xs) (auto simp: dlist_becomes_def dlist_def LIST_INSERT_HEAD_def list_macros same_outside_def)

lemma dlist_insert_after:
  assumes "dlist m h xs" and "a \<in> dom (qelems m)" and "a \<notin> set xs" and "b \<in> set xs"
  shows "dlist_becomes m (LIST_INSERT_AFTER chk (Some b) (Some a) m) h (insert_after b a xs) (insert a (set xs))"
proof -
  obtain us vs where xs: "xs = us @ b # vs" "b \<notin> set us" using slist_first_split [OF assms(4)] by blast
  then show ?thesis
    using assms dlist_distinct [OF assms(1)]
    by (cases vs)
      (auto simp: dlist_becomes_def dlist_def LIST_INSERT_AFTER_def list_macros same_outside_def insert_after_split)
qed

lemma dlist_insert_before:
  assumes "dlist m h xs" and "a \<in> dom (qelems m)" and "a \<notin> set xs" and "b \<in> set xs"
  shows "dlist_becomes m (LIST_INSERT_BEFORE chk (Some b) (Some a) m) h (insert_before b a xs) (insert a (set xs))"
proof -
  obtain us vs where xs: "xs = us @ b # vs" "b \<notin> set us" using slist_first_split [OF assms(4)] by blast
  then have new: "insert_before b a xs = us @ a # b # vs" by (simp add: insert_before_split)
  show ?thesis
    unfolding new using assms dlist_distinct [OF assms(1)] xs
    by (cases us rule: rev_cases)
      (auto simp: dlist_becomes_def dlist_def LIST_INSERT_BEFORE_def list_macros same_outside_def)
qed

lemma dlist_remove:
  assumes "dlist m h xs" and "a \<in> set xs"
  shows "dlist_becomes m (LIST_REMOVE chk (Some a) m) h (remove1 a xs) (set xs)"
proof -
  obtain us vs where xs: "xs = us @ a # vs" "a \<notin> set us" using slist_first_split [OF assms(2)] by blast
  then show ?thesis
    using assms dlist_distinct [OF assms(1)]
    by (cases us rule: rev_cases; cases vs)
      (auto simp: dlist_becomes_def dlist_def LIST_REMOVE_def list_macros same_outside_def remove1_append)
qed

lemma list_links_pairs: "list_links es = (\<lambda>a. map_option fst (list_pairs es a))"
  by (auto simp: list_links_def list_pairs_def option.map_comp comp_def)

lemma list_last_loop:
  assumes "dseg (list_pairs es) s (Some b) (xs @ [c]) None"
  shows "slist_last_loop (list_links es) (Some b) = Some (Some c)"
proof -
  have l: "slist (list_links es) (Some b) (xs @ [c])"
    using dseg_slist [OF assms] by (simp add: list_links_pairs)
  then obtain zs where "xs @ [c] = b # zs" by (cases "xs @ [c]") auto
  then show ?thesis using last_loop [of "list_links es" b zs] l by (metis last_snoc)
qed

lemma dlist_concat:
  assumes "dlist m h1 xs" and "dlist m h2 ys" and "h1 \<noteq> h2" and "set xs \<inter> set ys = {}"
  shows "\<exists>m'. LIST_CONCAT h1 h2 m = Some m' \<and> dlist m' h1 (xs @ ys) \<and> dlist m' h2 [] \<and>
           same_outside {h1, h2} (set xs \<union> set ys) m m'"
proof -
  obtain hd1 hd2 where hd: "qheads m h1 = Some hd1" "dseg (list_pairs (qelems m)) (First h1) (lh_first hd1) xs None"
      "qheads m h2 = Some hd2" "dseg (list_pairs (qelems m)) (First h2) (lh_first hd2) ys None"
    using assms(1,2) by (auto simp: dlist_def)
  have d: "distinct xs" "distinct ys" using dlist_distinct assms(1,2) by blast+
  show ?thesis
  proof (cases xs rule: rev_cases)
    case Nil
    then show ?thesis
      using hd d assms(3) by (cases ys) (auto simp: LIST_CONCAT_def list_macros dlist_def same_outside_def)
  next
    case (snoc zs c)
    obtain b where b: "lh_first hd1 = Some b" using dseg_first [OF hd(2)] snoc by (cases zs) auto
    have "slist_last_loop (list_links (qelems m)) (Some b) = Some (Some c)"
      using list_last_loop hd(2) b snoc by auto
    then show ?thesis
      using hd d b assms(3,4) snoc
      by (cases ys) (auto simp: LIST_CONCAT_def list_macros dlist_def same_outside_def)
  qed
qed

lemma dlist_swap:
  assumes "dlist m h1 xs" and "dlist m h2 ys" and "h1 \<noteq> h2" and "set xs \<inter> set ys = {}"
  shows "\<exists>m'. LIST_SWAP h1 h2 m = Some m' \<and> dlist m' h1 ys \<and> dlist m' h2 xs \<and>
           same_outside {h1, h2} (set xs \<union> set ys) m m'"
  using assms dlist_distinct [OF assms(1)] dlist_distinct [OF assms(2)]
  by (cases xs; cases ys) (auto simp: LIST_SWAP_def list_macros dlist_def same_outside_def)

lemma dlist_law:
  assumes sup: "list_supported op" and pre: "op_pre op A" and new: "op_new op \<subseteq> dom (qelems m)"
    and rep: "\<And>h. h \<in> op_heads op \<Longrightarrow> dlist m h (A h)"
  shows "\<exists>m'. list_run chk op m = Some m' \<and> (\<forall>h \<in> op_heads op. dlist m' h (spec_op op A h)) \<and>
           same_outside (op_heads op) (op_new op \<union> (\<Union>h \<in> op_heads op. set (A h))) m m'"
proof (cases op)
  case (Init h)
  then show ?thesis using dlist_init [OF rep [of h]] by (auto simp: dlist_becomes_def)
next
  case (InsertHead h a)
  then show ?thesis using dlist_insert_head [OF rep [of h], of a chk] pre new by (auto simp: dlist_becomes_def)
next
  case (InsertAfter h b a)
  then show ?thesis using dlist_insert_after [OF rep [of h], of a b chk] pre new by (auto simp: dlist_becomes_def)
next
  case (InsertBefore h b a)
  then show ?thesis using dlist_insert_before [OF rep [of h], of a b chk] pre new by (auto simp: dlist_becomes_def)
next
  case (RemoveElem h a)
  then show ?thesis using dlist_remove [OF rep [of h], of a chk] pre by (auto simp: dlist_becomes_def)
next
  case (Concat h1 h2)
  then show ?thesis using dlist_concat [OF rep [of h1] rep [of h2]] pre by auto
next
  case (Swap h1 h2)
  then show ?thesis using dlist_swap [OF rep [of h1] rep [of h2]] pre by auto
qed (use sup in simp_all)

interpretation dl: linked_queue dlist "list_run chk" list_supported
  by unfold_locales (fact dlist_frame dlist_law)+

text \<open>Reading the list.\<close>

lemma dlist_first: "dlist m h xs \<Longrightarrow> LIST_FIRST m h = Some (first_ptr xs None)"
  by (auto simp: dlist_def list_macros dest: dseg_first)

lemma dlist_prev: "dlist m h (us @ x # vs) \<Longrightarrow> LIST_PREV m (Some x) h = Some (if us = [] then None else Some (last us))"
  by (cases us rule: rev_cases) (auto simp: dlist_def LIST_PREV_def)

lemma dlist_foreach:
  assumes "dlist (get s) h xs" and "\<And>x s s'. x \<in> set xs \<Longrightarrow> body x s = Some s' \<Longrightarrow> get s' = get s"
  shows "LIST_FOREACH get body h s = visit body xs s"
proof -
  obtain hh where hh: "qheads (get s) h = Some hh" "dseg (list_pairs (qelems (get s))) (First h) (lh_first hh) xs None"
    using assms(1) by (auto simp: dlist_def)
  then have "slist (list_links (qelems (get s))) (lh_first hh) xs"
    using dseg_slist by (simp add: list_links_pairs)
  then show ?thesis
    using foreach_visit [of "\<lambda>s. list_links (qelems (get s))" s _ xs body] assms(2) hh(1)
    by (simp add: LIST_FOREACH_def list_macros)
qed

section \<open>Properties\<close>

text \<open>
  C28. The doubly-linked list macros refine lists: any sequence of their operations on any number of lists that keeps to the
  callers' rules runs to its end without an invalid access and, in the build with \<open>INVARIANTS\<close>, without a panic;
  afterwards each list is the one that the same operations give on lists, and \<open>LIST_NEXT\<close> and \<open>LIST_PREV\<close> lead to
  the neighbours of every element.
\<close>

theorem list_refines_lists:
  assumes "\<forall>h \<in> H. dlist m h (A h)" and "separated H A" and "ops_ok list_supported H (dom (qelems m)) ops A"
  shows "\<exists>m'. run_ops (list_run chk) ops m = Some m' \<and>
    (\<forall>h \<in> H. dlist m' h (fold spec_op ops A h) \<and>
       (\<forall>us x vs. fold spec_op ops A h = us @ x # vs \<longrightarrow>
          LIST_PREV m' (Some x) h = Some (if us = [] then None else Some (last us)) \<and>
          LIST_NEXT m' (Some x) = Some (first_ptr vs None)))"
proof -
  have next_elem: "LIST_NEXT m (Some x) = Some (first_ptr vs None)" if "dlist m h (us @ x # vs)" for m h us x vs
    using that by (auto simp: dlist_def list_macros dest: dseg_first)
  show ?thesis using dl.run_refines [OF assms, of chk] dlist_prev next_elem by metis
qed

definition demo_list :: list_mem where
  "demo_list =
     \<lparr>qheads = [0 \<mapsto> LIST_HEAD_INITIALIZER, 1 \<mapsto> LIST_HEAD_INITIALIZER],
      qelems = (\<lambda>a. if a < 10 then Some \<lparr>le_next = None, le_prev = First 0\<rparr> else None)\<rparr>"

theorem list_refines_lists_witness:
  "\<exists>m'. run_ops (list_run True) [InsertHead 0 5, InsertAfter 0 5 6, InsertBefore 0 6 7, RemoveElem 0 5, Swap 0 1] demo_list = Some m' \<and>
     dlist m' 0 [] \<and> dlist m' 1 [7, 6] \<and> LIST_PREV m' (Some 6) 1 = Some (Some 7)"
proof -
  let ?ops = "[InsertHead 0 5, InsertAfter 0 5 6, InsertBefore 0 6 7, RemoveElem 0 5, Swap 0 1]"
  have "\<forall>h \<in> {0, 1}. dlist demo_list h []"
    by (simp add: dlist_def demo_list_def LIST_HEAD_INITIALIZER_def)
  moreover have "dom (qelems demo_list) = {..<10}"
    by (auto simp: demo_list_def split: if_splits)
  ultimately obtain m' where m': "run_ops (list_run True) ?ops demo_list = Some m'"
      "\<forall>h \<in> {0, 1}. dlist m' h (fold spec_op ?ops (\<lambda>_. []) h) \<and>
        (\<forall>us x vs. fold spec_op ?ops (\<lambda>_. []) h = us @ x # vs \<longrightarrow>
           LIST_PREV m' (Some x) h = Some (if us = [] then None else Some (last us)) \<and>
           LIST_NEXT m' (Some x) = Some (first_ptr vs None))"
    using list_refines_lists [of "{0, 1}" demo_list "\<lambda>_. []" ?ops True] by (auto simp: separated_def)
  have f: "fold spec_op ?ops (\<lambda>_. []) 1 = [7] @ 6 # []" "fold spec_op ?ops (\<lambda>_. []) 0 = []" by simp_all
  have "dlist m' 0 []" "dlist m' 1 [7, 6]" using m'(2) by auto
  moreover have "LIST_PREV m' (Some 6) 1 = Some (Some 7)"
  proof -
    have "LIST_PREV m' (Some 6) 1 = Some (if [7 :: addr] = [] then None else Some (last [7]))"
      using m'(2) f(1) by blast
    then show ?thesis by simp
  qed
  ultimately show ?thesis using m'(1) by blast
qed

end
