(* ===== verification/Tailq.thy ===== *)
theory Tailq
  imports List_Queue
begin

text \<open>
  The doubly-linked tail queue macros \<open>TAILQ_*\<close> of \<open>server/queue.h\<close>, with the consistency checks of the kernel
  build under \<open>INVARIANTS\<close> (argument \<open>chk\<close>; a failing check is a panic and has no result). \<open>TAILQ_LAST\<close> and
  \<open>TAILQ_PREV\<close> read an element through the type of the head: they rely on the two structures having the same
  layout, first or next pointer before the pointer to a pointer, which \<open>tailq_second\<close> models.
\<close>

section \<open>The macros\<close>

record tailq_head =
  tqh_first :: "addr option"
  tqh_last :: slot

record tailq_entry =
  tqe_next :: "addr option"
  tqe_prev :: slot

type_synonym tailq_mem = "(tailq_head, tailq_entry) queue_mem"

definition tailq_links :: "(addr \<rightharpoonup> tailq_entry) \<Rightarrow> links" where
  "tailq_links es = (\<lambda>a. map_option tqe_next (es a))"

definition TAILQ_HEAD_INITIALIZER :: "addr \<Rightarrow> tailq_head" where
  "TAILQ_HEAD_INITIALIZER h = \<lparr>tqh_first = None, tqh_last = First h\<rparr>"

definition TAILQ_FIRST :: "tailq_mem \<Rightarrow> addr \<Rightarrow> addr option option" where
  "TAILQ_FIRST m head = do { hd \<leftarrow> qheads m head; Some (tqh_first hd) }"

definition TAILQ_EMPTY :: "tailq_mem \<Rightarrow> addr \<Rightarrow> bool option" where
  "TAILQ_EMPTY m head = do { hd \<leftarrow> qheads m head; Some (tqh_first hd = None) }"

definition TAILQ_NEXT :: "tailq_mem \<Rightarrow> addr option \<Rightarrow> addr option option" where
  "TAILQ_NEXT m elm = do { e \<leftarrow> elem_at m elm; Some (tqe_next e) }"

definition tailq_set_first :: "addr \<Rightarrow> addr option \<Rightarrow> tailq_mem \<Rightarrow> tailq_mem option" where
  "tailq_set_first head v m = upd_head head (\<lambda>hd. hd\<lparr>tqh_first := v\<rparr>) m"

definition tailq_set_last :: "addr \<Rightarrow> slot \<Rightarrow> tailq_mem \<Rightarrow> tailq_mem option" where
  "tailq_set_last head v m = upd_head head (\<lambda>hd. hd\<lparr>tqh_last := v\<rparr>) m"

definition tailq_set_next :: "addr option \<Rightarrow> addr option \<Rightarrow> tailq_mem \<Rightarrow> tailq_mem option" where
  "tailq_set_next elm v m = upd_elem elm (\<lambda>e. e\<lparr>tqe_next := v\<rparr>) m"

definition tailq_set_prev :: "addr option \<Rightarrow> slot \<Rightarrow> tailq_mem \<Rightarrow> tailq_mem option" where
  "tailq_set_prev elm v m = upd_elem elm (\<lambda>e. e\<lparr>tqe_prev := v\<rparr>) m"

text \<open>
  Reading and writing through a pointer to a pointer, and the second member of the structure it points into when
  this is taken for a head.
\<close>

fun tailq_load :: "slot \<Rightarrow> tailq_mem \<Rightarrow> addr option option" where
  "tailq_load (First h) m = TAILQ_FIRST m h"
| "tailq_load (Next a) m = TAILQ_NEXT m (Some a)"

fun tailq_store :: "slot \<Rightarrow> addr option \<Rightarrow> tailq_mem \<Rightarrow> tailq_mem option" where
  "tailq_store (First h) v m = tailq_set_first h v m"
| "tailq_store (Next a) v m = tailq_set_next (Some a) v m"

fun tailq_second :: "slot \<Rightarrow> tailq_mem \<Rightarrow> slot option" where
  "tailq_second (First h) m = map_option tqh_last (qheads m h)"
| "tailq_second (Next a) m = map_option tqe_prev (qelems m a)"

definition QMD_TAILQ_CHECK_HEAD :: "bool \<Rightarrow> addr \<Rightarrow> tailq_mem \<Rightarrow> unit option" where
  "QMD_TAILQ_CHECK_HEAD chk head m =
     (if chk then do {
        empty \<leftarrow> TAILQ_EMPTY m head;
        if \<not> empty then do {
          f \<leftarrow> TAILQ_FIRST m head;
          e \<leftarrow> elem_at m f;
          ensure (tqe_prev e = First head)
        } else Some ()
      } else Some ())"

definition QMD_TAILQ_CHECK_TAIL :: "bool \<Rightarrow> addr \<Rightarrow> tailq_mem \<Rightarrow> unit option" where
  "QMD_TAILQ_CHECK_TAIL chk head m =
     (if chk then do {
        hd \<leftarrow> qheads m head;
        v \<leftarrow> tailq_load (tqh_last hd) m;
        ensure (v = None)
      } else Some ())"

definition QMD_TAILQ_CHECK_NEXT :: "bool \<Rightarrow> addr option \<Rightarrow> tailq_mem \<Rightarrow> unit option" where
  "QMD_TAILQ_CHECK_NEXT chk elm m =
     (if chk then do {
        n \<leftarrow> TAILQ_NEXT m elm;
        if n \<noteq> None then do { e \<leftarrow> elem_at m n; s \<leftarrow> next_field elm; ensure (tqe_prev e = s) } else Some ()
      } else Some ())"

definition QMD_TAILQ_CHECK_PREV :: "bool \<Rightarrow> addr option \<Rightarrow> tailq_mem \<Rightarrow> unit option" where
  "QMD_TAILQ_CHECK_PREV chk elm m =
     (if chk then do {
        e \<leftarrow> elem_at m elm;
        v \<leftarrow> tailq_load (tqe_prev e) m;
        ensure (v = elm)
      } else Some ())"

definition TAILQ_INIT :: "addr \<Rightarrow> tailq_mem \<Rightarrow> tailq_mem option" where
  "TAILQ_INIT head m = do {
     m \<leftarrow> tailq_set_first head None m;
     tailq_set_last head (First head) m
   }"

definition TAILQ_CONCAT :: "addr \<Rightarrow> addr \<Rightarrow> tailq_mem \<Rightarrow> tailq_mem option" where
  "TAILQ_CONCAT head1 head2 m = do {
     empty \<leftarrow> TAILQ_EMPTY m head2;
     if \<not> empty then do {
       hd1 \<leftarrow> qheads m head1;
       first2 \<leftarrow> TAILQ_FIRST m head2;
       m \<leftarrow> tailq_store (tqh_last hd1) first2 m;
       first2 \<leftarrow> TAILQ_FIRST m head2;
       hd1 \<leftarrow> qheads m head1;
       m \<leftarrow> tailq_set_prev first2 (tqh_last hd1) m;
       hd2 \<leftarrow> qheads m head2;
       m \<leftarrow> tailq_set_last head1 (tqh_last hd2) m;
       TAILQ_INIT head2 m
     }
     else Some m
   }"

definition TAILQ_INSERT_AFTER :: "bool \<Rightarrow> addr \<Rightarrow> addr option \<Rightarrow> addr option \<Rightarrow> tailq_mem \<Rightarrow> tailq_mem option" where
  "TAILQ_INSERT_AFTER chk head listelm elm m = do {
     QMD_TAILQ_CHECK_NEXT chk listelm m;
     n \<leftarrow> TAILQ_NEXT m listelm;
     m \<leftarrow> tailq_set_next elm n m;
     s \<leftarrow> next_field elm;
     m \<leftarrow> (if n \<noteq> None then do { n \<leftarrow> TAILQ_NEXT m elm; tailq_set_prev n s m }
          else tailq_set_last head s m);
     m \<leftarrow> tailq_set_next listelm elm m;
     s \<leftarrow> next_field listelm;
     tailq_set_prev elm s m
   }"

definition TAILQ_INSERT_BEFORE :: "bool \<Rightarrow> addr option \<Rightarrow> addr option \<Rightarrow> tailq_mem \<Rightarrow> tailq_mem option" where
  "TAILQ_INSERT_BEFORE chk listelm elm m = do {
     QMD_TAILQ_CHECK_PREV chk listelm m;
     e \<leftarrow> elem_at m listelm;
     m \<leftarrow> tailq_set_prev elm (tqe_prev e) m;
     m \<leftarrow> tailq_set_next elm listelm m;
     e \<leftarrow> elem_at m listelm;
     m \<leftarrow> tailq_store (tqe_prev e) elm m;
     s \<leftarrow> next_field elm;
     tailq_set_prev listelm s m
   }"

definition TAILQ_INSERT_HEAD :: "bool \<Rightarrow> addr \<Rightarrow> addr option \<Rightarrow> tailq_mem \<Rightarrow> tailq_mem option" where
  "TAILQ_INSERT_HEAD chk head elm m = do {
     QMD_TAILQ_CHECK_HEAD chk head m;
     f \<leftarrow> TAILQ_FIRST m head;
     m \<leftarrow> tailq_set_next elm f m;
     s \<leftarrow> next_field elm;
     m \<leftarrow> (if f \<noteq> None then do { f \<leftarrow> TAILQ_FIRST m head; tailq_set_prev f s m }
          else tailq_set_last head s m);
     m \<leftarrow> tailq_set_first head elm m;
     tailq_set_prev elm (First head) m
   }"

definition TAILQ_INSERT_TAIL :: "bool \<Rightarrow> addr \<Rightarrow> addr option \<Rightarrow> tailq_mem \<Rightarrow> tailq_mem option" where
  "TAILQ_INSERT_TAIL chk head elm m = do {
     QMD_TAILQ_CHECK_TAIL chk head m;
     m \<leftarrow> tailq_set_next elm None m;
     hd \<leftarrow> qheads m head;
     m \<leftarrow> tailq_set_prev elm (tqh_last hd) m;
     hd \<leftarrow> qheads m head;
     m \<leftarrow> tailq_store (tqh_last hd) elm m;
     s \<leftarrow> next_field elm;
     tailq_set_last head s m
   }"

definition TAILQ_LAST :: "tailq_mem \<Rightarrow> addr \<Rightarrow> addr option option" where
  "TAILQ_LAST m head = do {
     hd \<leftarrow> qheads m head;
     s \<leftarrow> tailq_second (tqh_last hd) m;
     tailq_load s m
   }"

definition TAILQ_PREV :: "tailq_mem \<Rightarrow> addr option \<Rightarrow> addr option option" where
  "TAILQ_PREV m elm = do {
     e \<leftarrow> elem_at m elm;
     s \<leftarrow> tailq_second (tqe_prev e) m;
     tailq_load s m
   }"

definition TAILQ_REMOVE :: "bool \<Rightarrow> addr \<Rightarrow> addr option \<Rightarrow> tailq_mem \<Rightarrow> tailq_mem option" where
  "TAILQ_REMOVE chk head elm m = do {
     QMD_TAILQ_CHECK_NEXT chk elm m;
     QMD_TAILQ_CHECK_PREV chk elm m;
     e \<leftarrow> elem_at m elm;
     m \<leftarrow> (if tqe_next e \<noteq> None then tailq_set_prev (tqe_next e) (tqe_prev e) m
          else tailq_set_last head (tqe_prev e) m);
     e \<leftarrow> elem_at m elm;
     tailq_store (tqe_prev e) (tqe_next e) m
   }"

definition TAILQ_SWAP :: "addr \<Rightarrow> addr \<Rightarrow> tailq_mem \<Rightarrow> tailq_mem option" where
  "TAILQ_SWAP head1 head2 m = do {
     hd1 \<leftarrow> qheads m head1;
     hd2 \<leftarrow> qheads m head2;
     m \<leftarrow> tailq_set_first head1 (tqh_first hd2) m;
     m \<leftarrow> tailq_set_last head1 (tqh_last hd2) m;
     m \<leftarrow> tailq_set_first head2 (tqh_first hd1) m;
     m \<leftarrow> tailq_set_last head2 (tqh_last hd1) m;
     swap_first \<leftarrow> TAILQ_FIRST m head1;
     m \<leftarrow> (if swap_first \<noteq> None then tailq_set_prev swap_first (First head1) m
          else tailq_set_last head1 (First head1) m);
     swap_first \<leftarrow> TAILQ_FIRST m head2;
     if swap_first \<noteq> None then tailq_set_prev swap_first (First head2) m
     else tailq_set_last head2 (First head2) m
   }"

definition TAILQ_FOREACH :: "('s \<Rightarrow> tailq_mem) \<Rightarrow> (addr \<Rightarrow> 's \<Rightarrow> 's option) \<Rightarrow> addr \<Rightarrow> 's \<Rightarrow> 's option" where
  "TAILQ_FOREACH get body head s = do {
     f \<leftarrow> TAILQ_FIRST (get s) head;
     slist_foreach_loop (\<lambda>s. tailq_links (qelems (get s))) body f s
   }"

definition TAILQ_FOREACH_FROM ::
  "('s \<Rightarrow> tailq_mem) \<Rightarrow> (addr \<Rightarrow> 's \<Rightarrow> 's option) \<Rightarrow> addr option \<Rightarrow> addr \<Rightarrow> 's \<Rightarrow> 's option" where
  "TAILQ_FOREACH_FROM get body var head s = do {
     f \<leftarrow> (if var \<noteq> None then Some var else TAILQ_FIRST (get s) head);
     slist_foreach_loop (\<lambda>s. tailq_links (qelems (get s))) body f s
   }"

definition TAILQ_FOREACH_SAFE :: "('s \<Rightarrow> tailq_mem) \<Rightarrow> (addr \<Rightarrow> 's \<Rightarrow> 's option) \<Rightarrow> addr \<Rightarrow> 's \<Rightarrow> 's option" where
  "TAILQ_FOREACH_SAFE get body head s = do {
     f \<leftarrow> TAILQ_FIRST (get s) head;
     slist_foreach_safe_loop (\<lambda>s. tailq_links (qelems (get s))) body f s
   }"

definition TAILQ_FOREACH_FROM_SAFE ::
  "('s \<Rightarrow> tailq_mem) \<Rightarrow> (addr \<Rightarrow> 's \<Rightarrow> 's option) \<Rightarrow> addr option \<Rightarrow> addr \<Rightarrow> 's \<Rightarrow> 's option" where
  "TAILQ_FOREACH_FROM_SAFE get body var head s = do {
     f \<leftarrow> (if var \<noteq> None then Some var else TAILQ_FIRST (get s) head);
     slist_foreach_safe_loop (\<lambda>s. tailq_links (qelems (get s))) body f s
   }"

text \<open>The loops of the reverse iteration, plain and safe.\<close>

partial_function (option) tailq_reverse_loop ::
  "('s \<Rightarrow> tailq_mem) \<Rightarrow> (addr \<Rightarrow> 's \<Rightarrow> 's option) \<Rightarrow> addr option \<Rightarrow> 's \<Rightarrow> 's option" where
  "tailq_reverse_loop get body var s =
     (case var of
        None \<Rightarrow> Some s
      | Some a \<Rightarrow> do {
          s \<leftarrow> body a s;
          p \<leftarrow> TAILQ_PREV (get s) var;
          tailq_reverse_loop get body p s
        })"

partial_function (option) tailq_reverse_safe_loop ::
  "('s \<Rightarrow> tailq_mem) \<Rightarrow> (addr \<Rightarrow> 's \<Rightarrow> 's option) \<Rightarrow> addr option \<Rightarrow> 's \<Rightarrow> 's option" where
  "tailq_reverse_safe_loop get body var s =
     (case var of
        None \<Rightarrow> Some s
      | Some a \<Rightarrow> do {
          tvar \<leftarrow> TAILQ_PREV (get s) var;
          s \<leftarrow> body a s;
          tailq_reverse_safe_loop get body tvar s
        })"

definition TAILQ_FOREACH_REVERSE :: "('s \<Rightarrow> tailq_mem) \<Rightarrow> (addr \<Rightarrow> 's \<Rightarrow> 's option) \<Rightarrow> addr \<Rightarrow> 's \<Rightarrow> 's option" where
  "TAILQ_FOREACH_REVERSE get body head s = do {
     l \<leftarrow> TAILQ_LAST (get s) head;
     tailq_reverse_loop get body l s
   }"

definition TAILQ_FOREACH_REVERSE_FROM ::
  "('s \<Rightarrow> tailq_mem) \<Rightarrow> (addr \<Rightarrow> 's \<Rightarrow> 's option) \<Rightarrow> addr option \<Rightarrow> addr \<Rightarrow> 's \<Rightarrow> 's option" where
  "TAILQ_FOREACH_REVERSE_FROM get body var head s = do {
     l \<leftarrow> (if var \<noteq> None then Some var else TAILQ_LAST (get s) head);
     tailq_reverse_loop get body l s
   }"

definition TAILQ_FOREACH_REVERSE_SAFE :: "('s \<Rightarrow> tailq_mem) \<Rightarrow> (addr \<Rightarrow> 's \<Rightarrow> 's option) \<Rightarrow> addr \<Rightarrow> 's \<Rightarrow> 's option" where
  "TAILQ_FOREACH_REVERSE_SAFE get body head s = do {
     l \<leftarrow> TAILQ_LAST (get s) head;
     tailq_reverse_safe_loop get body l s
   }"

definition TAILQ_FOREACH_REVERSE_FROM_SAFE ::
  "('s \<Rightarrow> tailq_mem) \<Rightarrow> (addr \<Rightarrow> 's \<Rightarrow> 's option) \<Rightarrow> addr option \<Rightarrow> addr \<Rightarrow> 's \<Rightarrow> 's option" where
  "TAILQ_FOREACH_REVERSE_FROM_SAFE get body var head s = do {
     l \<leftarrow> (if var \<noteq> None then Some var else TAILQ_LAST (get s) head);
     tailq_reverse_safe_loop get body l s
   }"

fun tailq_run :: "bool \<Rightarrow> queue_op \<Rightarrow> tailq_mem \<Rightarrow> tailq_mem option" where
  "tailq_run chk (Init h) m = TAILQ_INIT h m"
| "tailq_run chk (InsertHead h a) m = TAILQ_INSERT_HEAD chk h (Some a) m"
| "tailq_run chk (InsertTail h a) m = TAILQ_INSERT_TAIL chk h (Some a) m"
| "tailq_run chk (InsertAfter h b a) m = TAILQ_INSERT_AFTER chk h (Some b) (Some a) m"
| "tailq_run chk (InsertBefore h b a) m = TAILQ_INSERT_BEFORE chk (Some b) (Some a) m"
| "tailq_run chk (RemoveElem h a) m = TAILQ_REMOVE chk h (Some a) m"
| "tailq_run chk (Concat h1 h2) m = TAILQ_CONCAT h1 h2 m"
| "tailq_run chk (Swap h1 h2) m = TAILQ_SWAP h1 h2 m"
| "tailq_run chk _ m = None"

fun tailq_supported :: "queue_op \<Rightarrow> bool" where
  "tailq_supported (RemoveHead h) \<longleftrightarrow> False"
| "tailq_supported (RemoveAfter h b) \<longleftrightarrow> False"
| "tailq_supported _ \<longleftrightarrow> True"

section \<open>Abstraction\<close>

definition tailq_pairs :: "(addr \<rightharpoonup> tailq_entry) \<Rightarrow> addr \<rightharpoonup> addr option \<times> slot" where
  "tailq_pairs es = (\<lambda>a. map_option (\<lambda>e. (tqe_next e, tqe_prev e)) (es a))"

definition tailq :: "tailq_mem \<Rightarrow> addr \<Rightarrow> addr list \<Rightarrow> bool" where
  "tailq m h xs \<longleftrightarrow>
     (\<exists>hd. qheads m h = Some hd \<and> dseg (tailq_pairs (qelems m)) (First h) (tqh_first hd) xs None \<and>
           tqh_last hd = last_slot (First h) xs)"

lemma tailq_pairs_simps [simp]:
  "tailq_pairs (es(a \<mapsto> e)) = (tailq_pairs es)(a \<mapsto> (tqe_next e, tqe_prev e))"
  "tailq_pairs es a = None \<longleftrightarrow> es a = None"
  "tailq_pairs es a = Some (n, s) \<longleftrightarrow> (\<exists>e. es a = Some e \<and> tqe_next e = n \<and> tqe_prev e = s)"
  by (auto simp: tailq_pairs_def)

lemmas tailq_macros =
  TAILQ_FIRST_def TAILQ_EMPTY_def TAILQ_NEXT_def tailq_set_first_def tailq_set_last_def tailq_set_next_def
  tailq_set_prev_def TAILQ_INIT_def QMD_TAILQ_CHECK_HEAD_def QMD_TAILQ_CHECK_TAIL_def QMD_TAILQ_CHECK_NEXT_def
  QMD_TAILQ_CHECK_PREV_def

lemma tailq_distinct: "tailq m h xs \<Longrightarrow> distinct xs"
  by (auto simp: tailq_def dest: dseg_distinct)

lemma tailq_frame:
  assumes "tailq m h xs" and "same_outside H E m m'" and "h \<notin> H" and "set xs \<inter> E = {}"
  shows "tailq m' h xs"
proof -
  have "tailq_pairs (qelems m') x = tailq_pairs (qelems m) x" if "x \<in> set xs" for x
    using assms that by (auto simp: same_outside_def tailq_pairs_def)
  then show ?thesis
    using assms dseg_frame [of "tailq_pairs (qelems m)" _ _ xs None "tailq_pairs (qelems m')"]
    by (auto simp: tailq_def same_outside_def)
qed

section \<open>The macros on the abstraction\<close>

definition tailq_becomes :: "tailq_mem \<Rightarrow> tailq_mem option \<Rightarrow> addr \<Rightarrow> addr list \<Rightarrow> addr set \<Rightarrow> bool" where
  "tailq_becomes m r h xs E \<longleftrightarrow> (\<exists>m'. r = Some m' \<and> tailq m' h xs \<and> same_outside {h} E m m')"

lemma tailq_init: "tailq m h xs \<Longrightarrow> tailq_becomes m (TAILQ_INIT h m) h [] (set xs)"
  by (auto simp: tailq_becomes_def tailq_def tailq_macros same_outside_def)

lemma tailq_insert_head:
  assumes "tailq m h xs" and "a \<in> dom (qelems m)" and "a \<notin> set xs"
  shows "tailq_becomes m (TAILQ_INSERT_HEAD chk h (Some a) m) h (a # xs) (insert a (set xs))"
  using assms tailq_distinct [OF assms(1)]
  by (cases xs) (auto simp: tailq_becomes_def tailq_def TAILQ_INSERT_HEAD_def tailq_macros same_outside_def)

lemma tailq_insert_tail:
  assumes "tailq m h xs" and "a \<in> dom (qelems m)" and "a \<notin> set xs"
  shows "tailq_becomes m (TAILQ_INSERT_TAIL chk h (Some a) m) h (xs @ [a]) (insert a (set xs))"
  using assms tailq_distinct [OF assms(1)]
  by (cases xs rule: rev_cases)
    (auto simp: tailq_becomes_def tailq_def TAILQ_INSERT_TAIL_def tailq_macros same_outside_def)

lemma tailq_insert_after:
  assumes "tailq m h xs" and "a \<in> dom (qelems m)" and "a \<notin> set xs" and "b \<in> set xs"
  shows "tailq_becomes m (TAILQ_INSERT_AFTER chk h (Some b) (Some a) m) h (insert_after b a xs) (insert a (set xs))"
proof -
  obtain us vs where xs: "xs = us @ b # vs" "b \<notin> set us" using slist_first_split [OF assms(4)] by blast
  then have new: "insert_after b a xs = us @ b # a # vs" by (simp add: insert_after_split)
  show ?thesis
    unfolding new using assms tailq_distinct [OF assms(1)] xs
    by (cases vs)
      (auto simp: tailq_becomes_def tailq_def TAILQ_INSERT_AFTER_def tailq_macros same_outside_def)
qed

lemma tailq_insert_before:
  assumes "tailq m h xs" and "a \<in> dom (qelems m)" and "a \<notin> set xs" and "b \<in> set xs"
  shows "tailq_becomes m (TAILQ_INSERT_BEFORE chk (Some b) (Some a) m) h (insert_before b a xs) (insert a (set xs))"
proof -
  obtain us vs where xs: "xs = us @ b # vs" "b \<notin> set us" using slist_first_split [OF assms(4)] by blast
  then have new: "insert_before b a xs = us @ a # b # vs" by (simp add: insert_before_split)
  show ?thesis
    unfolding new using assms tailq_distinct [OF assms(1)] xs
    by (cases us rule: rev_cases)
      (auto simp: tailq_becomes_def tailq_def TAILQ_INSERT_BEFORE_def tailq_macros same_outside_def)
qed

lemma tailq_remove:
  assumes "tailq m h xs" and "a \<in> set xs"
  shows "tailq_becomes m (TAILQ_REMOVE chk h (Some a) m) h (remove1 a xs) (set xs)"
proof -
  obtain us vs where xs: "xs = us @ a # vs" "a \<notin> set us" using slist_first_split [OF assms(2)] by blast
  then have new: "remove1 a xs = us @ vs" by (simp add: remove1_append)
  show ?thesis
    unfolding new using assms tailq_distinct [OF assms(1)] xs
    by (cases us rule: rev_cases; cases vs)
      (auto simp: tailq_becomes_def tailq_def TAILQ_REMOVE_def tailq_macros same_outside_def)
qed

lemma tailq_concat:
  assumes "tailq m h1 xs" and "tailq m h2 ys" and "h1 \<noteq> h2" and "set xs \<inter> set ys = {}"
  shows "\<exists>m'. TAILQ_CONCAT h1 h2 m = Some m' \<and> tailq m' h1 (xs @ ys) \<and> tailq m' h2 [] \<and>
           same_outside {h1, h2} (set xs \<union> set ys) m m'"
  using assms tailq_distinct [OF assms(1)] tailq_distinct [OF assms(2)]
  by (cases xs rule: rev_cases; cases ys) (auto simp: TAILQ_CONCAT_def tailq_macros tailq_def same_outside_def)

lemma tailq_swap:
  assumes "tailq m h1 xs" and "tailq m h2 ys" and "h1 \<noteq> h2" and "set xs \<inter> set ys = {}"
  shows "\<exists>m'. TAILQ_SWAP h1 h2 m = Some m' \<and> tailq m' h1 ys \<and> tailq m' h2 xs \<and>
           same_outside {h1, h2} (set xs \<union> set ys) m m'"
  using assms tailq_distinct [OF assms(1)] tailq_distinct [OF assms(2)]
  by (cases xs; cases ys) (auto simp: TAILQ_SWAP_def tailq_macros tailq_def same_outside_def)

lemma tailq_law:
  assumes sup: "tailq_supported op" and pre: "op_pre op A" and new: "op_new op \<subseteq> dom (qelems m)"
    and rep: "\<And>h. h \<in> op_heads op \<Longrightarrow> tailq m h (A h)"
  shows "\<exists>m'. tailq_run chk op m = Some m' \<and> (\<forall>h \<in> op_heads op. tailq m' h (spec_op op A h)) \<and>
           same_outside (op_heads op) (op_new op \<union> (\<Union>h \<in> op_heads op. set (A h))) m m'"
proof (cases op)
  case (Init h)
  then show ?thesis using tailq_init [OF rep [of h]] by (auto simp: tailq_becomes_def)
next
  case (InsertHead h a)
  then show ?thesis using tailq_insert_head [OF rep [of h], of a chk] pre new by (auto simp: tailq_becomes_def)
next
  case (InsertTail h a)
  then show ?thesis using tailq_insert_tail [OF rep [of h], of a chk] pre new by (auto simp: tailq_becomes_def)
next
  case (InsertAfter h b a)
  then show ?thesis using tailq_insert_after [OF rep [of h], of a b chk] pre new by (auto simp: tailq_becomes_def)
next
  case (InsertBefore h b a)
  then show ?thesis using tailq_insert_before [OF rep [of h], of a b chk] pre new by (auto simp: tailq_becomes_def)
next
  case (RemoveElem h a)
  then show ?thesis using tailq_remove [OF rep [of h], of a chk] pre by (auto simp: tailq_becomes_def)
next
  case (Concat h1 h2)
  then show ?thesis using tailq_concat [OF rep [of h1] rep [of h2]] pre by auto
next
  case (Swap h1 h2)
  then show ?thesis using tailq_swap [OF rep [of h1] rep [of h2]] pre by auto
qed (use sup in simp_all)

interpretation tq: linked_queue tailq "tailq_run chk" tailq_supported
  by unfold_locales (fact tailq_frame tailq_law)+

section \<open>Reading the queue in both directions\<close>

definition last_ptr :: "addr list \<Rightarrow> addr option" where
  "last_ptr xs = (if xs = [] then None else Some (last xs))"

lemma last_ptr_simps [simp]: "last_ptr [] = None" "last_ptr (xs @ [x]) = Some x"
  by (simp_all add: last_ptr_def)

lemma tailq_load_slot: "tailq m h (us @ vs) \<Longrightarrow> tailq_load (last_slot (First h) us) m = Some (first_ptr vs None)"
  by (cases us rule: rev_cases) (auto simp: tailq_def tailq_macros dest: dseg_first)

lemma tailq_back: "tailq m h (us @ x # vs) \<Longrightarrow> \<exists>e. qelems m x = Some e \<and> tqe_prev e = last_slot (First h) us"
  by (auto simp: tailq_def)

text \<open>The double indirection of \<open>TAILQ_LAST\<close> and \<open>TAILQ_PREV\<close> leads to the element before a pointer.\<close>

lemma tailq_behind:
  assumes "tailq m h (us @ vs)" and "us \<noteq> [] \<or> vs \<noteq> []"
  shows "\<exists>s. tailq_second (last_slot (First h) us) m = Some s \<and> tailq_load s m = Some (last_ptr us)"
proof (cases us rule: rev_cases)
  case Nil
  obtain hh where hh: "qheads m h = Some hh" "tqh_last hh = last_slot (First h) vs"
    using assms(1) Nil by (auto simp: tailq_def)
  then show ?thesis using tailq_load_slot [of m h vs "[]"] assms(1) Nil by simp
next
  case (snoc ys y)
  then obtain e where e: "qelems m y = Some e" "tqe_prev e = last_slot (First h) ys"
    using tailq_back [of m h ys y vs] assms(1) by auto
  then show ?thesis using tailq_load_slot [of m h ys "y # vs"] assms(1) snoc by simp
qed

lemma tailq_prev:
  assumes "tailq m h (us @ x # vs)"
  shows "TAILQ_PREV m (Some x) = Some (last_ptr us)"
proof -
  obtain e where "qelems m x = Some e" "tqe_prev e = last_slot (First h) us" using tailq_back [OF assms] by blast
  then show ?thesis using tailq_behind [OF assms] by (auto simp: TAILQ_PREV_def)
qed

lemma tailq_last:
  assumes "tailq m h xs"
  shows "TAILQ_LAST m h = Some (last_ptr xs)"
proof -
  obtain hh where hh: "qheads m h = Some hh" "tqh_last hh = last_slot (First h) xs" "tqh_first hh = first_ptr xs None"
    using assms by (auto simp: tailq_def dest: dseg_first)
  show ?thesis
  proof (cases "xs = []")
    case True
    then show ?thesis using hh by (simp add: TAILQ_LAST_def tailq_macros)
  next
    case False
    then show ?thesis using tailq_behind [of m h xs "[]"] assms hh by (auto simp: TAILQ_LAST_def)
  qed
qed

lemma tailq_next: "tailq m h (us @ x # vs) \<Longrightarrow> TAILQ_NEXT m (Some x) = Some (first_ptr vs None)"
  by (auto simp: tailq_def tailq_macros dest: dseg_first)

lemma tailq_links_pairs: "tailq_links es = (\<lambda>a. map_option fst (tailq_pairs es a))"
  by (auto simp: tailq_links_def tailq_pairs_def option.map_comp comp_def)

lemma tailq_foreach:
  assumes "tailq (get s) h xs" and "\<And>x s s'. x \<in> set xs \<Longrightarrow> body x s = Some s' \<Longrightarrow> get s' = get s"
  shows "TAILQ_FOREACH get body h s = visit body xs s"
proof -
  obtain hh where hh: "qheads (get s) h = Some hh" "dseg (tailq_pairs (qelems (get s))) (First h) (tqh_first hh) xs None"
    using assms(1) by (auto simp: tailq_def)
  then have "slist (tailq_links (qelems (get s))) (tqh_first hh) xs"
    using dseg_slist by (simp add: tailq_links_pairs)
  then show ?thesis
    using foreach_visit [of "\<lambda>s. tailq_links (qelems (get s))" s _ xs body] assms(2) hh(1)
    by (simp add: TAILQ_FOREACH_def tailq_macros)
qed

lemma reverse_loop_visit:
  assumes "tailq (get s) h (us @ vs)" and "\<And>x s s'. x \<in> set us \<Longrightarrow> body x s = Some s' \<Longrightarrow> get s' = get s"
  shows "tailq_reverse_loop get body (last_ptr us) s = visit body (rev us) s"
  using assms
proof (induction us arbitrary: vs s rule: rev_induct)
  case Nil
  then show ?case by (subst tailq_reverse_loop.simps) simp
next
  case (snoc x us)
  show ?case
  proof (cases "body x s")
    case None
    then show ?thesis by (subst tailq_reverse_loop.simps) simp
  next
    case (Some s')
    then have same: "get s' = get s" using snoc.prems(2) [of x s s'] by simp
    then have rest: "tailq (get s') h (us @ x # vs)" using snoc.prems(1) by simp
    have "tailq_reverse_loop get body (last_ptr us) s' = visit body (rev us) s'"
      by (rule snoc.IH [OF rest]) (rule snoc.prems(2), simp_all)
    then show ?thesis using Some tailq_prev [OF rest] by (subst tailq_reverse_loop.simps) simp
  qed
qed

text \<open>The safe loop allows the body to remove the element it is run on.\<close>

lemma reverse_safe_loop_visit:
  assumes "tailq (get s) h us"
    and step: "\<And>us x s s'. tailq (get s) h (us @ [x]) \<Longrightarrow> body x s = Some s' \<Longrightarrow> tailq (get s') h us"
  shows "tailq_reverse_safe_loop get body (last_ptr us) s = visit body (rev us) s"
  using assms(1)
proof (induction us arbitrary: s rule: rev_induct)
  case Nil
  then show ?case by (subst tailq_reverse_safe_loop.simps) simp
next
  case (snoc x us)
  show ?case
  proof (cases "body x s")
    case None
    then show ?thesis using tailq_prev [OF snoc.prems] by (subst tailq_reverse_safe_loop.simps) simp
  next
    case (Some s')
    then show ?thesis
      using snoc.IH [OF step [OF snoc.prems Some]] tailq_prev [OF snoc.prems]
      by (subst tailq_reverse_safe_loop.simps) simp
  qed
qed

text \<open>A body that removes the current element and records it.\<close>

definition take_out :: "bool \<Rightarrow> addr \<Rightarrow> addr \<Rightarrow> tailq_mem \<times> addr list \<Rightarrow> (tailq_mem \<times> addr list) option" where
  "take_out chk h x s = do { m \<leftarrow> TAILQ_REMOVE chk h (Some x) (fst s); Some (m, snd s @ [x]) }"

lemma take_out_last:
  assumes "tailq m h (us @ [x])"
  shows "\<exists>m'. take_out chk h x (m, seen) = Some (m', seen @ [x]) \<and> tailq m' h us"
proof -
  have "x \<notin> set us" using tailq_distinct [OF assms] by simp
  then have "remove1 x (us @ [x]) = us" by (simp add: remove1_append)
  then show ?thesis
    using tailq_remove [OF assms, of x chk] by (auto simp: tailq_becomes_def take_out_def)
qed

lemma visit_take_out:
  "tailq m h us \<Longrightarrow> \<exists>m'. visit (take_out chk h) (rev us) (m, seen) = Some (m', seen @ rev us) \<and> tailq m' h []"
proof (induction us arbitrary: m seen rule: rev_induct)
  case (snoc x us)
  then obtain m1 where "take_out chk h x (m, seen) = Some (m1, seen @ [x])" "tailq m1 h us"
    using take_out_last by blast
  then show ?case using snoc.IH [of m1 "seen @ [x]"] by simp
qed simp

section \<open>Properties\<close>

text \<open>
  C26. The tail queue macros refine lists. Any sequence of initialisations, insertions (at the head, at the tail, after and
  before an element), removals, concatenations and swaps on any number of queues that keeps to the callers' rules (a
  new element is allocated and in no queue, the named elements are in the named queue) runs to its end without an
  invalid access and, in the build with \<open>INVARIANTS\<close>, without a panic. Afterwards each queue holds the list that
  the same operations give on lists, its last element is found by \<open>TAILQ_LAST\<close>, and \<open>TAILQ_NEXT\<close> and
  \<open>TAILQ_PREV\<close> lead to the neighbours of every element.
\<close>

theorem tailq_refines_lists:
  assumes "\<forall>h \<in> H. tailq m h (A h)" and "separated H A" and "ops_ok tailq_supported H (dom (qelems m)) ops A"
  shows "\<exists>m'. run_ops (tailq_run chk) ops m = Some m' \<and>
    (\<forall>h \<in> H. tailq m' h (fold spec_op ops A h) \<and> TAILQ_LAST m' h = Some (last_ptr (fold spec_op ops A h)) \<and>
       (\<forall>us x vs. fold spec_op ops A h = us @ x # vs \<longrightarrow>
          TAILQ_PREV m' (Some x) = Some (last_ptr us) \<and> TAILQ_NEXT m' (Some x) = Some (first_ptr vs None)))"
  using tq.run_refines [OF assms, of chk] tailq_last tailq_prev tailq_next by metis

definition demo_tailq :: tailq_mem where
  "demo_tailq =
     \<lparr>qheads = [0 \<mapsto> TAILQ_HEAD_INITIALIZER 0, 1 \<mapsto> TAILQ_HEAD_INITIALIZER 1],
      qelems = (\<lambda>a. if a < 10 then Some \<lparr>tqe_next = None, tqe_prev = First 0\<rparr> else None)\<rparr>"

theorem tailq_refines_lists_witness:
  "\<exists>m'. run_ops (tailq_run True) [InsertTail 0 5, InsertTail 0 6, InsertBefore 0 6 7, InsertHead 1 8, Concat 0 1, RemoveElem 0 5]
       demo_tailq = Some m' \<and> tailq m' 0 [7, 6, 8] \<and> TAILQ_LAST m' 0 = Some (Some 8) \<and> tailq m' 1 []"
proof -
  let ?ops = "[InsertTail 0 5, InsertTail 0 6, InsertBefore 0 6 7, InsertHead 1 8, Concat 0 1, RemoveElem 0 5]"
  have start: "\<forall>h \<in> {0, 1}. tailq demo_tailq h []"
    by (simp add: tailq_def demo_tailq_def TAILQ_HEAD_INITIALIZER_def)
  have "dom (qelems demo_tailq) = {..<10}"
    by (auto simp: demo_tailq_def split: if_splits)
  then obtain m' where "run_ops (tailq_run True) ?ops demo_tailq = Some m'"
      "\<forall>h \<in> {0, 1}. tailq m' h (fold spec_op ?ops (\<lambda>_. []) h) \<and> TAILQ_LAST m' h = Some (last_ptr (fold spec_op ?ops (\<lambda>_. []) h))"
    using tailq_refines_lists [of "{0, 1}" demo_tailq "\<lambda>_. []" ?ops True] start by (auto simp: separated_def)
  then show ?thesis by (intro exI [of _ m']) (auto simp: last_ptr_def)
qed

text \<open>Reverse iteration over a tail queue is iteration over the reversed list, also when the body removes its element.\<close>

lemma tailq_reverse_iteration:
  assumes "tailq (get s) h xs" and "\<forall>x s s'. body x s = Some s' \<longrightarrow> get s' = get s"
  shows "TAILQ_FOREACH_REVERSE get body h s = visit body (rev xs) s \<and>
    (\<exists>m'. TAILQ_FOREACH_REVERSE_SAFE fst (take_out chk h) h (get s, []) = Some (m', rev xs) \<and> tailq m' h [])"
proof -
  have "TAILQ_FOREACH_REVERSE get body h s = visit body (rev xs) s"
    using reverse_loop_visit [of get s h xs "[]" body] assms by (simp add: TAILQ_FOREACH_REVERSE_def tailq_last)
  moreover have "tailq_reverse_safe_loop fst (take_out chk h) (last_ptr xs) (get s, []) =
      visit (take_out chk h) (rev xs) (get s, [])"
  proof (rule reverse_safe_loop_visit)
    show "tailq (fst (get s, [])) h xs" using assms(1) by simp
    show "tailq (fst r') h us" if "tailq (fst r) h (us @ [x])" "take_out chk h x r = Some r'" for us x r r'
      using take_out_last [OF that(1), of chk "snd r"] that(2) by auto
  qed
  ultimately show ?thesis
    using visit_take_out [OF assms(1), of chk "[]"] tailq_last [OF assms(1)]
    by (simp add: TAILQ_FOREACH_REVERSE_SAFE_def)
qed

lemma tailq_reverse_iteration_witness:
  "TAILQ_FOREACH_REVERSE (\<lambda>_. demo_tailq\<lparr>qheads := [0 \<mapsto> \<lparr>tqh_first = Some 1, tqh_last = Next 2\<rparr>],
       qelems := [1 \<mapsto> \<lparr>tqe_next = Some 2, tqe_prev = First 0\<rparr>, 2 \<mapsto> \<lparr>tqe_next = None, tqe_prev = Next 1\<rparr>]\<rparr>)
     (\<lambda>x seen. Some (seen @ [x])) 0 [] = Some [2, 1]"
proof -
  let ?m = "demo_tailq\<lparr>qheads := [0 \<mapsto> \<lparr>tqh_first = Some 1, tqh_last = Next 2\<rparr>],
       qelems := [1 \<mapsto> \<lparr>tqe_next = Some 2, tqe_prev = First 0\<rparr>, 2 \<mapsto> \<lparr>tqe_next = None, tqe_prev = Next 1\<rparr>]\<rparr>"
  have "tailq ?m 0 [1, 2]" by (simp add: tailq_def)
  then show ?thesis
    using tailq_reverse_iteration [of "\<lambda>_ :: addr list. ?m" "[]" 0 "[1, 2]" "\<lambda>x seen. Some (seen @ [x])" True] by simp
qed

end
