(* ===== verification/Queue_Debug.thy ===== *)
theory Queue_Debug
  imports STailq Tailq
begin

text \<open>
  The debugging configuration of \<open>server/queue.h\<close> (\<open>QUEUE_MACRO_DEBUG\<close>): the remove macros overwrite the links of the
  removed element with an invalid pointer, and the tail queue macros note in heads and elements where they were used
  last. \<open>debug_queue\<close> shows for all four families that this does not change what the macros do on lists.
\<close>

section \<open>Invalid links\<close>

text \<open>
  \<open>(void *)-1\<close>, as a pointer to an element and as a pointer to a pointer. There is no object at this address: reading
  or writing through it has no result.
\<close>

definition TRASH :: addr where
  "TRASH = 2 ^ 64 - 1"

text \<open>
  The remove macros with \<open>TRASHIT\<close>. \<open>QMD_SAVELINK\<close> takes the addresses of the link fields before the element is
  unlinked; they do not change.
\<close>

definition SLIST_REMOVE_debug :: "links \<Rightarrow> slist_head \<Rightarrow> addr option \<Rightarrow> (links \<times> slist_head) option" where
  "SLIST_REMOVE_debug l head elm = do {
     (l, head) \<leftarrow> SLIST_REMOVE l head elm;
     l \<leftarrow> set_next l elm (Some TRASH);
     Some (l, head)
   }"

definition STAILQ_REMOVE_debug :: "addr \<Rightarrow> addr option \<Rightarrow> stailq_mem \<Rightarrow> stailq_mem option" where
  "STAILQ_REMOVE_debug head elm m = do {
     m \<leftarrow> STAILQ_REMOVE head elm m;
     stq_set_next elm (Some TRASH) m
   }"

definition LIST_REMOVE_debug :: "bool \<Rightarrow> addr option \<Rightarrow> list_mem \<Rightarrow> list_mem option" where
  "LIST_REMOVE_debug chk elm m = do {
     m \<leftarrow> LIST_REMOVE chk elm m;
     m \<leftarrow> list_set_next elm (Some TRASH) m;
     list_set_prev elm (Next TRASH) m
   }"

definition TAILQ_REMOVE_debug :: "bool \<Rightarrow> addr \<Rightarrow> addr option \<Rightarrow> tailq_mem \<Rightarrow> tailq_mem option" where
  "TAILQ_REMOVE_debug chk head elm m = do {
     m \<leftarrow> TAILQ_REMOVE chk head elm m;
     m \<leftarrow> tailq_set_next elm (Some TRASH) m;
     tailq_set_prev elm (Next TRASH) m
   }"

text \<open>The operations of each family in the debugging configuration: only the removal of an element differs.\<close>

fun slist_debug :: "queue_op \<Rightarrow> slist_mem \<Rightarrow> slist_mem option" where
  "slist_debug (RemoveElem h a) m = do {
     hd \<leftarrow> qheads m h;
     (l, hd) \<leftarrow> SLIST_REMOVE_debug (qelems m) hd (Some a);
     Some (m\<lparr>qheads := (qheads m)(h \<mapsto> hd), qelems := l\<rparr>)
   }"
| "slist_debug op m = slist_run op m"

fun stailq_debug :: "queue_op \<Rightarrow> stailq_mem \<Rightarrow> stailq_mem option" where
  "stailq_debug (RemoveElem h a) m = STAILQ_REMOVE_debug h (Some a) m"
| "stailq_debug op m = stailq_run op m"

fun list_debug :: "bool \<Rightarrow> queue_op \<Rightarrow> list_mem \<Rightarrow> list_mem option" where
  "list_debug chk (RemoveElem h a) m = LIST_REMOVE_debug chk (Some a) m"
| "list_debug chk op m = list_run chk op m"

fun tailq_debug :: "bool \<Rightarrow> queue_op \<Rightarrow> tailq_mem \<Rightarrow> tailq_mem option" where
  "tailq_debug chk (RemoveElem h a) m = TAILQ_REMOVE_debug chk h (Some a) m"
| "tailq_debug chk op m = tailq_run chk op m"

section \<open>The contract\<close>

text \<open>
  A family whose removal is followed by a change of the removed element only. \<open>debug\<close> are the operations with this
  change.
\<close>

locale debug_queue = linked_queue rep run supported
  for rep :: "('h, 'e) queue_mem \<Rightarrow> addr \<Rightarrow> addr list \<Rightarrow> bool"
    and run :: "queue_op \<Rightarrow> ('h, 'e) queue_mem \<Rightarrow> ('h, 'e) queue_mem option"
    and supported :: "queue_op \<Rightarrow> bool" +
  fixes debug :: "queue_op \<Rightarrow> ('h, 'e) queue_mem \<Rightarrow> ('h, 'e) queue_mem option"
    and trashed :: "'e \<Rightarrow> bool"
  assumes law_distinct: "rep m h xs \<Longrightarrow> distinct xs"
    and law_same: "(\<And>h a. op \<noteq> RemoveElem h a) \<Longrightarrow> debug op m = run op m"
    and law_remove: "run (RemoveElem h a) m = Some m1 \<Longrightarrow> a \<in> dom (qelems m1) \<Longrightarrow>
      \<exists>m2 e. debug (RemoveElem h a) m = Some m2 \<and> same_outside {} {a} m1 m2 \<and> qelems m2 a = Some e \<and> trashed e"
    and law_allocated: "rep m h xs \<Longrightarrow> a \<in> set xs \<Longrightarrow> a \<in> dom (qelems m)"
begin

lemma debug_remove:
  assumes "supported (RemoveElem h a)" and "rep m h xs" and "a \<in> set xs"
  shows "\<exists>m' e. debug (RemoveElem h a) m = Some m' \<and> rep m' h (remove1 a xs) \<and> same_outside {h} (set xs) m m' \<and>
    qelems m' a = Some e \<and> trashed e"
proof -
  obtain m1 where m1: "run (RemoveElem h a) m = Some m1" "rep m1 h (remove1 a xs)" "same_outside {h} (set xs) m m1"
    using law_run [of "RemoveElem h a" "\<lambda>_. xs" m] assms by auto
  have "a \<in> dom (qelems m1)" using law_allocated [OF assms(2,3)] m1(3) by (simp add: same_outside_def)
  then obtain m2 e where m2: "debug (RemoveElem h a) m = Some m2" "same_outside {} {a} m1 m2"
      "qelems m2 a = Some e" "trashed e"
    using law_remove [OF m1(1)] by blast
  have "set (remove1 a xs) \<inter> {a} = {}" using law_distinct [OF assms(2)] by simp
  then have "rep m2 h (remove1 a xs)" using frame [OF m1(2) m2(2)] by simp
  moreover have "same_outside {h} (set xs) m m2" using m1(3) m2(2) assms(3) by (auto simp: same_outside_def)
  ultimately show ?thesis using m2 by blast
qed

lemma debug_run:
  assumes "supported op" and "op_pre op A" and "op_new op \<subseteq> dom (qelems m)"
    and "\<And>h. h \<in> op_heads op \<Longrightarrow> rep m h (A h)"
  shows "\<exists>m'. debug op m = Some m' \<and> (\<forall>h \<in> op_heads op. rep m' h (spec_op op A h)) \<and>
    same_outside (op_heads op) (op_new op \<union> (\<Union>h \<in> op_heads op. set (A h))) m m'"
proof (cases "\<exists>h a. op = RemoveElem h a")
  case True
  then show ?thesis using debug_remove assms by fastforce
next
  case False
  then show ?thesis using law_run [OF assms] law_same [of op m] by simp
qed

end

sublocale debug_queue \<subseteq> dbg: linked_queue rep debug supported
  by unfold_locales (fact frame, rule debug_run)

interpretation dsl: debug_queue slist_at slist_run slist_supported slist_debug "\<lambda>e. e = Some TRASH"
proof
  show "distinct xs" if "slist_at m h xs" for m h xs
    using that slist_distinct by (auto simp: slist_at_def)
  show "slist_debug op m = slist_run op m" if "\<And>h a. op \<noteq> RemoveElem h a" for op m
    using that by (cases op) auto
  show "\<exists>m2 e. slist_debug (RemoveElem h a) m = Some m2 \<and> same_outside {} {a} m1 m2 \<and> qelems m2 a = Some e \<and> e = Some TRASH"
    if "slist_run (RemoveElem h a) m = Some m1" "a \<in> dom (qelems m1)" for h a m m1
    using that by (auto simp: SLIST_REMOVE_debug_def same_outside_def Option.bind_eq_Some_conv)
  show "a \<in> dom (qelems m)" if "slist_at m h xs" "a \<in> set xs" for m h xs a
    using that slist_allocated by (auto simp: slist_at_def)
qed

interpretation dst: debug_queue stailq stailq_run stailq_supported stailq_debug "\<lambda>e. stqe_next e = Some TRASH"
proof
  show "distinct xs" if "stailq m h xs" for m h xs
    using that slist_distinct by (auto simp: stailq_def)
  show "stailq_debug op m = stailq_run op m" if "\<And>h a. op \<noteq> RemoveElem h a" for op m
    using that by (cases op) auto
  show "\<exists>m2 e. stailq_debug (RemoveElem h a) m = Some m2 \<and> same_outside {} {a} m1 m2 \<and> qelems m2 a = Some e \<and>
      stqe_next e = Some TRASH"
    if "stailq_run (RemoveElem h a) m = Some m1" "a \<in> dom (qelems m1)" for h a m m1
    using that by (auto simp: STAILQ_REMOVE_debug_def stq_set_next_def same_outside_def)
  show "a \<in> dom (qelems m)" if "stailq m h xs" "a \<in> set xs" for m h xs a
    using that slist_allocated by (fastforce simp: stailq_def stq_links_def)
qed

interpretation ddl: debug_queue dlist "list_run chk" list_supported "list_debug chk"
    "\<lambda>e. le_next e = Some TRASH \<and> le_prev e = Next TRASH" for chk
proof
  show "distinct xs" if "dlist m h xs" for m h xs
    using that by (rule dlist_distinct)
  show "list_debug chk op m = list_run chk op m" if "\<And>h a. op \<noteq> RemoveElem h a" for op m
    using that by (cases op) auto
  show "\<exists>m2 e. list_debug chk (RemoveElem h a) m = Some m2 \<and> same_outside {} {a} m1 m2 \<and> qelems m2 a = Some e \<and>
      le_next e = Some TRASH \<and> le_prev e = Next TRASH"
    if "list_run chk (RemoveElem h a) m = Some m1" "a \<in> dom (qelems m1)" for h a m m1
    using that by (auto simp: LIST_REMOVE_debug_def list_set_next_def list_set_prev_def same_outside_def)
  show "a \<in> dom (qelems m)" if "dlist m h xs" "a \<in> set xs" for m h xs a
    using that dseg_allocated by (fastforce simp: dlist_def)
qed

interpretation dtq: debug_queue tailq "tailq_run chk" tailq_supported "tailq_debug chk"
    "\<lambda>e. tqe_next e = Some TRASH \<and> tqe_prev e = Next TRASH" for chk
proof
  show "distinct xs" if "tailq m h xs" for m h xs
    using that by (rule tailq_distinct)
  show "tailq_debug chk op m = tailq_run chk op m" if "\<And>h a. op \<noteq> RemoveElem h a" for op m
    using that by (cases op) auto
  show "\<exists>m2 e. tailq_debug chk (RemoveElem h a) m = Some m2 \<and> same_outside {} {a} m1 m2 \<and> qelems m2 a = Some e \<and>
      tqe_next e = Some TRASH \<and> tqe_prev e = Next TRASH"
    if "tailq_run chk (RemoveElem h a) m = Some m1" "a \<in> dom (qelems m1)" for h a m m1
    using that by (auto simp: TAILQ_REMOVE_debug_def tailq_set_next_def tailq_set_prev_def same_outside_def)
  show "a \<in> dom (qelems m)" if "tailq m h xs" "a \<in> set xs" for m h xs a
    using that dseg_allocated by (fastforce simp: tailq_def)
qed

section \<open>Traces\<close>

record qm_trace =
  lastline :: nat
  prevline :: nat
  lastfile :: "string option"
  prevfile :: "string option"

definition TRACEBUF_INITIALIZER :: "nat \<Rightarrow> string \<Rightarrow> qm_trace" where
  "TRACEBUF_INITIALIZER line file = \<lparr>lastline = line, prevline = 0, lastfile = Some file, prevfile = None\<rparr>"

text \<open>The trace fields of the heads and of the elements; \<open>line\<close> and \<open>file\<close> are those of the use of the macro.\<close>

record traces =
  head_trace :: "addr \<Rightarrow> qm_trace"
  elem_trace :: "addr \<Rightarrow> qm_trace"

definition QMD_TRACE :: "nat \<Rightarrow> string \<Rightarrow> qm_trace \<Rightarrow> qm_trace" where
  "QMD_TRACE line file t = \<lparr>lastline = line, prevline = lastline t, lastfile = Some file, prevfile = lastfile t\<rparr>"

definition QMD_TRACE_HEAD :: "nat \<Rightarrow> string \<Rightarrow> addr \<Rightarrow> traces \<Rightarrow> traces" where
  "QMD_TRACE_HEAD line file h t = t\<lparr>head_trace := (head_trace t)(h := QMD_TRACE line file (head_trace t h))\<rparr>"

definition QMD_TRACE_ELEM :: "nat \<Rightarrow> string \<Rightarrow> addr \<Rightarrow> traces \<Rightarrow> traces" where
  "QMD_TRACE_ELEM line file a t = t\<lparr>elem_trace := (elem_trace t)(a := QMD_TRACE line file (elem_trace t a))\<rparr>"

text \<open>What a tail queue macro writes to the traces when it is used in the memory \<open>m\<close>.\<close>

fun tailq_trace :: "nat \<Rightarrow> string \<Rightarrow> queue_op \<Rightarrow> tailq_mem \<Rightarrow> traces \<Rightarrow> traces" where
  "tailq_trace line file (Init h) m t = QMD_TRACE_HEAD line file h t"
| "tailq_trace line file (InsertHead h a) m t = QMD_TRACE_ELEM line file a (QMD_TRACE_HEAD line file h t)"
| "tailq_trace line file (InsertTail h a) m t = QMD_TRACE_ELEM line file a (QMD_TRACE_HEAD line file h t)"
| "tailq_trace line file (InsertAfter h b a) m t =
     (let t = (if TAILQ_NEXT m (Some b) = Some None then QMD_TRACE_HEAD line file h t else t)
      in QMD_TRACE_ELEM line file b (QMD_TRACE_ELEM line file a t))"
| "tailq_trace line file (InsertBefore h b a) m t = QMD_TRACE_ELEM line file b (QMD_TRACE_ELEM line file a t)"
| "tailq_trace line file (RemoveElem h a) m t =
     (let t = (if TAILQ_NEXT m (Some a) = Some None then QMD_TRACE_HEAD line file h t else t)
      in QMD_TRACE_ELEM line file a t)"
| "tailq_trace line file (Concat h1 h2) m t =
     (if TAILQ_EMPTY m h2 = Some False
      then QMD_TRACE_HEAD line file h2 (QMD_TRACE_HEAD line file h1 (QMD_TRACE_HEAD line file h2 t)) else t)"
| "tailq_trace line file op m t = t"

section \<open>Properties\<close>

text \<open>
  An element that has been removed can be recognised by its links, and removing it once more follows them to an address
  at which there is no element.
\<close>

lemma tailq_remove_trashed:
  assumes "qelems m a = Some e" and "tqe_next e = Some TRASH" and "qelems m TRASH = None"
  shows "TAILQ_REMOVE_debug chk h (Some a) m = None"
proof -
  have "TAILQ_REMOVE chk h (Some a) m = None"
    using assms by (cases "QMD_TAILQ_CHECK_NEXT chk (Some a) m"; cases "QMD_TAILQ_CHECK_PREV chk (Some a) m")
      (simp_all add: TAILQ_REMOVE_def tailq_set_prev_def)
  then show ?thesis by (simp add: TAILQ_REMOVE_debug_def)
qed

lemma tailq_remove_debug_trashes:
  assumes "tailq m h xs" and "a \<in> set xs"
  shows "\<exists>m' e. TAILQ_REMOVE_debug chk h (Some a) m = Some m' \<and> tailq m' h (remove1 a xs) \<and>
    qelems m' a = Some e \<and> tqe_next e = Some TRASH \<and> tqe_prev e = Next TRASH \<and>
    (qelems m TRASH = None \<longrightarrow> TAILQ_REMOVE_debug chk h (Some a) m' = None)"
proof -
  obtain m' e where m': "TAILQ_REMOVE_debug chk h (Some a) m = Some m'" "tailq m' h (remove1 a xs)"
      "same_outside {h} (set xs) m m'" "qelems m' a = Some e" "tqe_next e = Some TRASH" "tqe_prev e = Next TRASH"
    using dtq.debug_remove [OF _ assms, of chk] by auto
  have "qelems m' TRASH = None" if "qelems m TRASH = None" using m'(3) that by (auto simp: same_outside_def)
  then show ?thesis using m' tailq_remove_trashed [OF m'(4,5), of chk h] by (intro exI [of _ m'] exI [of _ e]) simp
qed

text \<open>
  C30. The tail queue macros with \<open>QUEUE_MACRO_DEBUG\<close> do the same on lists as without it: a sequence of operations that
  keeps to the callers' rules (a new element is allocated and in no queue, the named elements are in the named queue)
  runs to its end in both configurations, and both then represent the lists that the same operations give on lists. In
  addition an element that is removed in the debugging configuration has invalid links afterwards, so that removing it
  a second time, against the rules, has no defined run (if nothing is allocated at the invalid address); the
  configuration without debugging may run on in this case.
\<close>

theorem queue_debug_refines_lists:
  assumes "\<forall>h \<in> H. tailq m h (A h)" and "separated H A" and "ops_ok tailq_supported H (dom (qelems m)) ops A"
  shows "\<exists>m1 m2. run_ops (tailq_run chk) ops m = Some m1 \<and> run_ops (tailq_debug chk) ops m = Some m2 \<and>
    (\<forall>h \<in> H. tailq m1 h (fold spec_op ops A h) \<and> tailq m2 h (fold spec_op ops A h) \<and>
       (\<forall>a \<in> set (fold spec_op ops A h). \<exists>m' e. TAILQ_REMOVE_debug chk h (Some a) m2 = Some m' \<and>
          tailq m' h (remove1 a (fold spec_op ops A h)) \<and>
          qelems m' a = Some e \<and> tqe_next e = Some TRASH \<and> tqe_prev e = Next TRASH \<and>
          (qelems m2 TRASH = None \<longrightarrow> TAILQ_REMOVE_debug chk h (Some a) m' = None)))"
  using tq.run_refines [OF assms, of chk] dtq.dbg.run_refines [OF assms, of chk] tailq_remove_debug_trashes by metis

theorem queue_debug_refines_lists_witness:
  "\<exists>m1 m2. run_ops (tailq_run True) [InsertTail 0 5, InsertTail 0 6, RemoveElem 0 5, InsertHead 0 5] demo_tailq = Some m1 \<and>
     run_ops (tailq_debug True) [InsertTail 0 5, InsertTail 0 6, RemoveElem 0 5, InsertHead 0 5] demo_tailq = Some m2 \<and>
     tailq m1 0 [5, 6] \<and> tailq m2 0 [5, 6] \<and>
     (\<exists>m' e. TAILQ_REMOVE_debug True 0 (Some 5) m2 = Some m' \<and> tailq m' 0 [6] \<and> qelems m' 5 = Some e \<and> tqe_next e = Some TRASH)"
proof -
  let ?ops = "[InsertTail 0 5, InsertTail 0 6, RemoveElem 0 5, InsertHead 0 5]"
  have start: "\<forall>h \<in> {0}. tailq demo_tailq h []"
    by (simp add: tailq_def demo_tailq_def TAILQ_HEAD_INITIALIZER_def)
  have "dom (qelems demo_tailq) = {..<10}"
    by (auto simp: demo_tailq_def split: if_splits)
  then show ?thesis
    using queue_debug_refines_lists [of "{0}" demo_tailq "\<lambda>_. []" ?ops True] start by (fastforce simp: separated_def)
qed

text \<open>
  A trace does not cover every change: removing the first of several elements changes the head, but the trace of the
  head stays as it was.
\<close>

lemma tailq_trace_misses_head:
  assumes "tailq m h (x # y # ys)"
  shows "\<exists>m'. tailq_debug chk (RemoveElem h x) m = Some m' \<and> qheads m' h \<noteq> qheads m h \<and>
    head_trace (tailq_trace line file (RemoveElem h x) m t) h = head_trace t h"
proof -
  obtain m' where m': "tailq_debug chk (RemoveElem h x) m = Some m'" "tailq m' h (y # ys)"
    using dtq.debug_remove [OF _ assms, of x chk] by auto
  have "x \<noteq> y" using tailq_distinct [OF assms] by simp
  then have "qheads m' h \<noteq> qheads m h"
    using assms m'(2) by (auto simp: tailq_def)
  moreover have "TAILQ_NEXT m (Some x) \<noteq> Some None"
    using tailq_next [of m h "[]" x "y # ys"] assms by simp
  ultimately show ?thesis
    using m'(1) by (auto simp: QMD_TRACE_ELEM_def)
qed

end
