(* ===== verification/Systemcalls.thy ===== *)
theory Systemcalls
  imports Aesd_Prelude
begin

text \<open>
  \<open>examples/systemcalls/systemcalls.c\<close>: running a command with \<open>system\<close>, or with \<open>fork\<close>, \<open>execv\<close> and
  \<open>waitpid\<close>. \<open>fork\<close> returns in two processes, so a function is modelled by what it does in the process in
  which \<open>fork\<close> returned the given value: return, exit, or be replaced by the new program.
\<close>

section \<open>Processes\<close>

text \<open>The status \<open>waitpid\<close> stores, as the macros \<open>WIFEXITED\<close> and \<open>WIFSIGNALED\<close> tell it apart.\<close>

datatype wait_status = Exited nat | Signaled nat | OtherStatus

text \<open>
  How the running process leaves one of the functions: it returns to the caller, exits, or is replaced by the
  command with the given argument array. The last component is the standard output of the command: that of the
  caller (\<^const>\<open>None\<close>) or a file.
\<close>

datatype proc_result = Returns bool | Exits int | Replaced "string option list" "string option"

text \<open>
  \<open>status\<close> is \<^const>\<open>None\<close> when \<open>waitpid\<close> fails, which leaves the variable uninitialised. \<open>execv_fails\<close>,
  \<open>open_result\<close> and \<open>dup2_result\<close> are what the child gets.
\<close>

record proc_env =
  system :: "string \<Rightarrow> int"
  fork :: int
  status :: "wait_status option"
  execv_fails :: bool
  open_result :: "string \<Rightarrow> int"
  dup2_result :: "int \<Rightarrow> int"

section \<open>The functions\<close>

definition do_system :: "proc_env \<Rightarrow> string \<Rightarrow> bool" where
  "do_system env cmd = (if system env cmd = 0 then True else False)"

text \<open>
  The array \<open>command\<close>: \<open>count\<close> arguments and a null pointer. Reading more arguments than were passed, or an
  array of negative length, is undefined.
\<close>

definition build_command :: "int \<Rightarrow> string list \<Rightarrow> string option list option" where
  "build_command count varargs = do {
     ensure (0 \<le> count \<and> nat count \<le> length varargs);
     Some (map Some (take (nat count) varargs) @ [None])
   }"

text \<open>\<open>execv(command[0], command)\<close> on a null path fails.\<close>

definition execv :: "proc_env \<Rightarrow> string option list \<Rightarrow> string option list option" where
  "execv env command = (if execv_fails env \<or> hd command = None then None else Some command)"

definition do_exec :: "proc_env \<Rightarrow> int \<Rightarrow> string list \<Rightarrow> proc_result option" where
  "do_exec env count varargs = do {
     command \<leftarrow> build_command count varargs;
     let pid = fork env;
     if pid = -1 then Some (Returns True)
     else if pid > 0 then do {
       st \<leftarrow> status env;
       Some (case st of
          Exited exit_code \<Rightarrow> Returns (exit_code = 0)
        | Signaled _ \<Rightarrow> Returns True
        | OtherStatus \<Rightarrow> Returns True)
     }
     else
       Some (case execv env command of
          Some argv \<Rightarrow> Replaced argv None
        | None \<Rightarrow> Returns False)
   }"

definition do_exec_redirect :: "proc_env \<Rightarrow> string \<Rightarrow> int \<Rightarrow> string list \<Rightarrow> proc_result option" where
  "do_exec_redirect env outputfile count varargs = do {
     command \<leftarrow> build_command count varargs;
     let pid = fork env;
     if pid < 0 then Some (Exits 1)
     else if pid = 0 then do {
       let fd = open_result env outputfile;
       if fd < 0 then Some (Exits 1)
       else if dup2_result env fd < 0 then Some (Exits 1)
       else
         Some (case execv env command of
            Some argv \<Rightarrow> Replaced argv (Some outputfile)
          | None \<Rightarrow> Returns False)
     }
     else do {
       st \<leftarrow> status env;
       Some (Returns True)
     }
   }"

section \<open>Properties\<close>

lemma build_command_ok:
  "0 \<le> count \<Longrightarrow> nat count \<le> length varargs \<Longrightarrow>
     build_command count varargs = Some (map Some (take (nat count) varargs) @ [None])"
  by (simp add: build_command_def)


definition demo_env_killed :: proc_env where
  "demo_env_killed =
     \<lparr>system = (\<lambda>_. 0), fork = 41, status = Some (Signaled 9), execv_fails = False, open_result = (\<lambda>_. 3), dup2_result = (\<lambda>_. 1)\<rparr>"


text \<open>
  The child process of \<open>do_exec\<close> runs the command with exactly the passed arguments, terminated by a null
  pointer; after a failed \<open>execv\<close> it returns false to the caller of the function, so that the code of the caller
  continues in two processes.
\<close>

lemma execv_arguments:
  assumes "nat count \<le> length varargs" and "0 < count"
  shows "execv env (map Some (take (nat count) varargs) @ [None]) =
    (if execv_fails env then None else Some (map Some (take (nat count) varargs) @ [None]))"
proof -
  have "take (nat count) varargs \<noteq> []" using assms by auto
  then show ?thesis by (simp add: execv_def hd_append hd_map)
qed

lemma do_exec_child:
  assumes "nat count \<le> length varargs" and "0 < count" and "fork env = 0"
  shows "do_exec env count varargs =
    Some (if execv_fails env then Returns False else Replaced (map Some (take (nat count) varargs) @ [None]) None)"
  using assms by (simp add: do_exec_def build_command_ok execv_arguments)

text \<open>A process that is replaced by the command, with the output of the command in a file.\<close>

fun redirected :: "string \<Rightarrow> proc_result \<Rightarrow> proc_result" where
  "redirected outputfile (Replaced argv out) = Replaced argv (Some outputfile)"
| "redirected outputfile r = r"

text \<open>
  C34. When \<open>do_exec_redirect\<close> keeps its promise to behave like \<open>do_exec\<close> with the output in a file. In the calling process
  it does exactly when \<open>fork\<close> succeeds and the command does not exit with a status other than 0: such a status is
  reported by \<open>do_exec\<close> only, and a failed \<open>fork\<close> ends the process here while \<open>do_exec\<close> returns. In the child it does
  exactly when the file can be opened and made the standard output: then the same command runs with the same arguments
  and its output in the file, or \<open>execv\<close> fails for both. The argument list is not empty and valid, \<open>fork\<close>
  returns -1 or more, and \<open>waitpid\<close> succeeds.
\<close>

theorem do_exec_redirect_same_iff:
  assumes "0 < count" and "nat count \<le> length varargs" and "fork env \<ge> -1" and "fork env > 0 \<longrightarrow> status env \<noteq> None"
  shows "do_exec_redirect env outputfile count varargs = map_option (redirected outputfile) (do_exec env count varargs) \<longleftrightarrow>
    fork env > 0 \<and> (\<forall>c. status env = Some (Exited c) \<longrightarrow> c = 0) \<or>
    fork env = 0 \<and> open_result env outputfile \<ge> 0 \<and> dup2_result env (open_result env outputfile) \<ge> 0"
proof -
  let ?args = "map Some (take (nat count) varargs) @ [None]"
  have args: "build_command count varargs = Some ?args" using assms(1,2) by (simp add: build_command_ok)
  consider (failed) "fork env = -1" | (child) "fork env = 0" | (parent) st where "fork env > 0" "status env = Some st"
    using assms(3,4) by fastforce
  then show ?thesis
  proof cases
    case failed
    then show ?thesis by (simp add: do_exec_def do_exec_redirect_def args)
  next
    case child
    then show ?thesis
      by (cases "execv env ?args") (auto simp: do_exec_def do_exec_redirect_def args Let_def)
  next
    case (parent st)
    then show ?thesis by (cases st) (auto simp: do_exec_def do_exec_redirect_def args)
  qed
qed

theorem do_exec_redirect_same_iff_witness:
  "do_exec_redirect (demo_env_killed\<lparr>status := Some (Exited 7)\<rparr>) ''/tmp/out'' 1 [''/bin/false''] \<noteq>
     map_option (redirected ''/tmp/out'') (do_exec (demo_env_killed\<lparr>status := Some (Exited 7)\<rparr>) 1 [''/bin/false'']) \<and>
   do_exec_redirect (demo_env_killed\<lparr>fork := 0\<rparr>) ''/tmp/out'' 2 [''/bin/sleep'', ''9''] =
     map_option (redirected ''/tmp/out'') (do_exec (demo_env_killed\<lparr>fork := 0\<rparr>) 2 [''/bin/sleep'', ''9''])"
  using do_exec_redirect_same_iff [of 1 "[''/bin/false'']" "demo_env_killed\<lparr>status := Some (Exited 7)\<rparr>" "''/tmp/out''"]
    do_exec_redirect_same_iff [of 2 "[''/bin/sleep'', ''9'']" "demo_env_killed\<lparr>fork := 0\<rparr>" "''/tmp/out''"]
  by (simp add: demo_env_killed_def)

end
