(* ===== verification/Threading.thy ===== *)
theory Threading
  imports Aesd_Prelude
begin

text \<open>
  \<open>examples/threading/threading.[ch]\<close>: a thread that waits, holds a mutex for a while and reports success.
  The heap of \<open>thread_data\<close> structures is explicit; the results of the pthread calls are arguments, and the
  calls the thread makes are recorded in a trace.
\<close>

section \<open>Data\<close>

text \<open>The field \<open>m\<close> is called \<open>td_m\<close> here.\<close>

record thread_data =
  td_m :: addr
  wait_to_obtain_ms :: int
  wait_to_release_ms :: int
  thread_complete_success :: bool

datatype action = Sleep u32 | Lock addr | Unlock addr

text \<open>
  C division truncates towards zero, and the argument of \<open>sleep\<close> is an \<open>unsigned int\<close>.
\<close>

definition seconds :: "int \<Rightarrow> u32" where
  "seconds ms = of_int (if ms < 0 then - (- ms div 1000) else ms div 1000)"

section \<open>Functions\<close>

definition threadfunc ::
  "int \<Rightarrow> int \<Rightarrow> addr option \<Rightarrow> (addr \<rightharpoonup> thread_data) \<Rightarrow> (addr option \<times> (addr \<rightharpoonup> thread_data) \<times> action list) option" where
  "threadfunc lock_rc unlock_rc thread_param h = do {
     p \<leftarrow> thread_param;
     d \<leftarrow> h p;
     let mutex = td_m d;
     let tr = [Sleep (seconds (wait_to_obtain_ms d)), Lock mutex];
     if lock_rc \<noteq> 0 then Some (thread_param, h(p \<mapsto> d\<lparr>thread_complete_success := False\<rparr>), tr)
     else do {
       let tr = tr @ [Sleep (seconds (wait_to_release_ms d)), Unlock mutex];
       if unlock_rc \<noteq> 0 then Some (thread_param, h(p \<mapsto> d\<lparr>thread_complete_success := False\<rparr>), tr)
       else Some (thread_param, h(p \<mapsto> d\<lparr>thread_complete_success := True\<rparr>), tr)
     }
   }"

text \<open>
  \<open>malloc\<close> is given by its result. The result is the value returned and the argument of the thread that was
  started, if any.
\<close>

definition start_thread_obtaining_mutex ::
  "addr option \<Rightarrow> int \<Rightarrow> addr \<Rightarrow> int \<Rightarrow> int \<Rightarrow> (addr \<rightharpoonup> thread_data) \<Rightarrow> bool \<times> addr option \<times> (addr \<rightharpoonup> thread_data)" where
  "start_thread_obtaining_mutex malloc create_rc mutex obtain_ms release_ms h =
     (case malloc of
        None \<Rightarrow> (False, None, h)
      | Some p \<Rightarrow>
          let h = h(p \<mapsto> \<lparr>td_m = mutex, wait_to_obtain_ms = obtain_ms, wait_to_release_ms = release_ms,
                          thread_complete_success = False\<rparr>)
          in if create_rc \<noteq> 0 then (False, None, h(p := None)) else (True, Some p, h))"

section \<open>Properties\<close>

text \<open>The whole seconds in a number of milliseconds.\<close>

lemma seconds_truncate:
  assumes "0 \<le> ms" and "ms < 2 ^ 31"
  shows "uint (seconds ms) = ms div 1000" and "1000 * uint (seconds ms) \<le> ms" and "ms < 1000 * uint (seconds ms) + 1000"
proof -
  have "ms div 1000 < 2 ^ 32" "0 \<le> ms div 1000" using assms by auto
  then show u: "uint (seconds ms) = ms div 1000"
    using assms by (simp add: seconds_def unsigned_of_int take_bit_int_eq_self)
  show "1000 * uint (seconds ms) \<le> ms" "ms < 1000 * uint (seconds ms) + 1000" unfolding u by simp_all
qed

text \<open>
  C35. Starting and running a thread: when \<open>start_thread_obtaining_mutex\<close> returns true, the thread returns its own data
  structure, with the success flag set exactly when the mutex could be locked and unlocked. It sleeps, locks the
  mutex and, after a successful lock, sleeps and unlocks it, in this order. The header promises waits in milliseconds,
  but \<open>sleep\<close> is called with whole seconds: each sleep is as long as requested less a remainder of under 1000
  milliseconds, so a wait of less than a second does not take place. When it returns false, no memory is left
  allocated. The two times are not negative and fit into an \<open>int\<close>, and \<open>malloc\<close> returns memory not in use.
\<close>

theorem start_thread_then_run:
  assumes fresh: "\<forall>p. malloc = Some p \<longrightarrow> h p = None"
    and ms: "0 \<le> obtain_ms" "obtain_ms < 2 ^ 31" "0 \<le> release_ms" "release_ms < 2 ^ 31"
    and start: "start_thread_obtaining_mutex malloc create_rc mutex obtain_ms release_ms h = (ok, arg, h1)"
  shows "if ok then
      \<exists>p h2 tr d a b. arg = Some p \<and> threadfunc lock_rc unlock_rc arg h1 = Some (arg, h2, tr) \<and> h2 p = Some d \<and>
        (thread_complete_success d \<longleftrightarrow> lock_rc = 0 \<and> unlock_rc = 0) \<and>
        tr = (if lock_rc = 0 then [Sleep a, Lock mutex, Sleep b, Unlock mutex] else [Sleep a, Lock mutex]) \<and>
        1000 * uint a \<le> obtain_ms \<and> obtain_ms < 1000 * uint a + 1000 \<and>
        1000 * uint b \<le> release_ms \<and> release_ms < 1000 * uint b + 1000
    else arg = None \<and> h1 = h"
proof (cases malloc)
  case None
  then show ?thesis using start by (simp add: start_thread_obtaining_mutex_def)
next
  case (Some p)
  then have "h p = None" using fresh by simp
  then have "h(p := None) = h" by auto
  then show ?thesis
    using start Some seconds_truncate(2,3) [OF ms(1,2)] seconds_truncate(2,3) [OF ms(3,4)]
    by (auto simp: start_thread_obtaining_mutex_def threadfunc_def Let_def split: if_splits)
qed

theorem start_thread_then_run_witness:
  "\<exists>h2 tr a. threadfunc 0 0 (Some 5) (snd (snd (start_thread_obtaining_mutex (Some 5) 0 77 2500 999 Map.empty))) =
     Some (Some 5, h2, tr) \<and> tr = [Sleep a, Lock 77, Sleep 0, Unlock 77] \<and> uint a = 2"
proof -
  obtain h1 where h1: "start_thread_obtaining_mutex (Some 5) 0 77 2500 999 Map.empty = (True, Some 5, h1)"
    by (simp add: start_thread_obtaining_mutex_def)
  obtain h2 tr a b where "threadfunc 0 0 (Some 5) h1 = Some (Some 5, h2, tr)" "tr = [Sleep a, Lock 77, Sleep b, Unlock 77]"
      "1000 * uint a \<le> 2500" "2500 < 1000 * uint a + 1000" "1000 * uint b \<le> 999" "999 < 1000 * uint b + 1000"
    using start_thread_then_run [OF _ _ _ _ _ h1, of 0 0] by auto
  moreover from this have "uint a = 2" "uint b = 0" by linarith+
  moreover from this have "b = 0" by (simp add: uint_0_iff)
  ultimately show ?thesis using h1 by auto
qed

text \<open>
  The header promises milliseconds, but a delay is exact only when it is a multiple of 1000 milliseconds, and there is
  none at all below 1000 milliseconds.
\<close>

lemma seconds_exact_iff:
  assumes "0 \<le> ms" and "ms < 2 ^ 31"
  shows "(1000 * uint (seconds ms) = ms \<longleftrightarrow> 1000 dvd ms) \<and> (ms < 1000 \<longrightarrow> seconds ms = 0)"
  using assms seconds_truncate [OF assms]
  by (auto simp: seconds_def dvd_eq_mod_eq_0 minus_mod_eq_mult_div [symmetric])

end
