(* ===== verification/Writer.thy ===== *)
theory Writer
  imports Aesd_Prelude
begin

text \<open>
  \<open>finder-app/writer.c\<close>: writing a string to a file whose directories are created first. The file system is
  a parameter, the record \<open>fs\<close> of the calls the program makes on a world \<open>'w\<close>; \<open>fs_ok\<close> states what POSIX
  says about them. Messages to the terminal and to the system log are left out, and \<open>strdup\<close> is taken to succeed.
\<close>

section \<open>The file system\<close>

datatype fs_errno = EEXIST | ENOENT | EACCES

text \<open>
  \<open>stat\<close> tells whether the path exists, \<open>mkdir\<close> yields an error number or none, \<open>fopen_wb\<close> truncates or
  creates the file. \<open>fputs\<close> stands for the output of \<open>fprintf\<close> and \<open>fclose\<close> to it: whether both reported success, which
  the program does not look at, and the world afterwards. The last three fields are not calls of the program: \<open>named\<close>
  tells whether there is a directory entry of this name (a dangling symbolic link is one, although \<open>stat\<close> fails on
  it), \<open>is_dir\<close> whether the path leads to a directory, and \<open>contents\<close> gives the contents of a file.
\<close>

record 'w fs =
  stat :: "string \<Rightarrow> 'w \<Rightarrow> bool"
  mkdir :: "string \<Rightarrow> 'w \<Rightarrow> fs_errno option \<times> 'w"
  fopen_wb :: "string \<Rightarrow> 'w \<Rightarrow> 'w option"
  fputs :: "string \<Rightarrow> string \<Rightarrow> 'w \<Rightarrow> bool \<times> 'w"
  named :: "string \<Rightarrow> 'w \<Rightarrow> bool"
  is_dir :: "string \<Rightarrow> 'w \<Rightarrow> bool"
  contents :: "string \<Rightarrow> 'w \<Rightarrow> string option"

section \<open>The program\<close>

definition create_directory :: "'w fs \<Rightarrow> string \<Rightarrow> 'w \<Rightarrow> int \<times> 'w" where
  "create_directory io path w =
     (if \<not> stat io path w then
        (case mkdir io path w of
           (Some e, w) \<Rightarrow> if e \<noteq> EEXIST then (-1, w) else (0, w)
         | (None, w) \<Rightarrow> (0, w))
      else (0, w))"

text \<open>
  The loop over the characters of \<open>dir\<close>. At a slash the string is cut there, which leaves the prefix before
  it, and the slash is put back afterwards; the body is that of \<open>create_directory\<close>. After the loop the same is
  done for the whole string.
\<close>

function create_loop :: "'w fs \<Rightarrow> string \<Rightarrow> nat \<Rightarrow> 'w \<Rightarrow> int \<times> 'w" where
  "create_loop io dir p w =
     (if p < length dir then
        (if dir ! p = CHR ''/'' then
           let (r, w) = create_directory io (take p dir) w
           in if r = -1 then (-1, w) else create_loop io dir (p + 1) w
         else create_loop io dir (p + 1) w)
      else create_directory io dir w)"
  by auto

termination by (relation "measure (\<lambda>(io, dir, p, w). length dir - p)") auto

declare create_loop.simps [simp del]

text \<open>The loop starts at \<open>dir + 1\<close>, which is behind the terminator of an empty string.\<close>

definition create_directories :: "'w fs \<Rightarrow> string \<Rightarrow> 'w \<Rightarrow> (int \<times> 'w) option" where
  "create_directories io path w = do {
     ensure (path \<noteq> []);
     Some (create_loop io path 1 w)
   }"

fun strrchr :: "string \<Rightarrow> char \<Rightarrow> nat option" where
  "strrchr [] c = None"
| "strrchr (x # xs) c =
     (case strrchr xs c of
        Some i \<Rightarrow> Some (Suc i)
      | None \<Rightarrow> if x = c then Some 0 else None)"

text \<open>
  \<open>fprintf\<close> with a format and no arguments: \<open>%%\<close> prints a percent sign, every other conversion has no defined
  result.
\<close>

fun printf_format :: "string \<Rightarrow> string option" where
  "printf_format [] = Some []"
| "printf_format (c # cs) =
     (if c = CHR ''%'' then
        (case cs of
           [] \<Rightarrow> None
         | d # ds \<Rightarrow> if d = CHR ''%'' then map_option ((#) c) (printf_format ds) else None)
      else map_option ((#) c) (printf_format cs))"

definition create_file :: "'w fs \<Rightarrow> string \<Rightarrow> string \<Rightarrow> 'w \<Rightarrow> (int \<times> 'w) option" where
  "create_file io file_path data w = do {
     (r, w) \<leftarrow> (case strrchr file_path (CHR ''/'') of
                    Some last_slash \<Rightarrow> create_directories io (take last_slash file_path) w
                  | None \<Rightarrow> Some (0, w));
     if r = -1 then Some (-1, w)
     else
       (case fopen_wb io file_path w of
          None \<Rightarrow> Some (-1, w)
        | Some w \<Rightarrow> do {
            text \<leftarrow> printf_format data;
            Some (0, snd (fputs io file_path text w))
          })
   }"

text \<open>The status of the process; \<open>argv ! 0\<close> is the name of the program.\<close>

definition writer_main :: "'w fs \<Rightarrow> string list \<Rightarrow> 'w \<Rightarrow> (int \<times> 'w) option" where
  "writer_main io argv w =
     (if length argv < 3 then Some (1, w)
      else do {
        (r, w) \<leftarrow> create_file io (argv ! 1) (argv ! 2) w;
        Some (0, w)
      })"

section \<open>Directories\<close>

text \<open>The paths \<open>create_directories\<close> creates: the prefixes before each slash but the first character.\<close>

definition slash_prefixes :: "nat \<Rightarrow> string \<Rightarrow> string list" where
  "slash_prefixes p dir = map (\<lambda>i. take i dir) (filter (\<lambda>i. dir ! i = CHR ''/'') [p..<length dir]) @ [dir]"

fun create_all :: "'w fs \<Rightarrow> string list \<Rightarrow> 'w \<Rightarrow> int \<times> 'w" where
  "create_all io [] w = (0, w)"
| "create_all io (d # ds) w =
     (let (r, w) = create_directory io d w in if r = -1 then (-1, w) else create_all io ds w)"

lemma create_directory_result: "fst (create_directory io d w) \<in> {0, -1}"
  by (auto simp: create_directory_def split: prod.splits option.splits)

lemma create_all_single: "create_all io [d] w = create_directory io d w"
  using create_directory_result [of io d w] by (auto simp: Let_def split: prod.splits)

lemma create_loop_all: "create_loop io dir p w = create_all io (slash_prefixes p dir) w"
proof (induction io dir p w rule: create_loop.induct)
  case (1 io dir p w)
  show ?case
  proof (cases "p < length dir")
    case False
    then show ?thesis
      by (subst create_loop.simps) (simp add: slash_prefixes_def create_all_single del: create_all.simps)
  next
    case True
    then have "[p..<length dir] = p # [Suc p..<length dir]" by (simp add: upt_conv_Cons)
    then have pre: "slash_prefixes p dir =
        (if dir ! p = CHR ''/'' then take p dir # slash_prefixes (Suc p) dir else slash_prefixes (Suc p) dir)"
      by (simp add: slash_prefixes_def)
    show ?thesis
      using 1 True by (subst create_loop.simps) (auto simp: pre Let_def split: prod.split)
  qed
qed

text \<open>Nothing has happened but that directories were created.\<close>

definition only_mkdirs :: "'w fs \<Rightarrow> 'w \<Rightarrow> 'w \<Rightarrow> bool" where
  "only_mkdirs io w w' \<longleftrightarrow>
     (\<forall>q. (named io q w \<longrightarrow> named io q w') \<and> (is_dir io q w \<longrightarrow> is_dir io q w') \<and>
        (named io q w' \<longrightarrow> named io q w \<or> is_dir io q w') \<and> contents io q w' = contents io q w)"

text \<open>
  POSIX: \<open>mkdir\<close> without an error creates the directory and does nothing else; with an error it does nothing, and
  \<open>EEXIST\<close> says that there is an entry of this name, of whatever kind. A path on which \<open>stat\<close> succeeds names an entry.
  \<open>fopen\<close> with mode \<open>wb\<close> leaves an empty file, and output that was reported as successful is at the end of the file.
  Nothing is said about output that was not.
\<close>

definition mkdir_ok :: "'w fs \<Rightarrow> string \<Rightarrow> 'w \<Rightarrow> bool" where
  "mkdir_ok io p w \<longleftrightarrow>
     (case mkdir io p w of
        (None, w') \<Rightarrow> is_dir io p w' \<and> only_mkdirs io w w'
      | (Some e, w') \<Rightarrow> w' = w \<and> (e = EEXIST \<longrightarrow> named io p w))"

definition fs_ok :: "'w fs \<Rightarrow> bool" where
  "fs_ok io \<longleftrightarrow>
     (\<forall>p w. mkdir_ok io p w \<and> (is_dir io p w \<longrightarrow> stat io p w) \<and> (stat io p w \<longrightarrow> named io p w)) \<and>
     (\<forall>p w w'. fopen_wb io p w = Some w' \<longrightarrow> contents io p w' = Some []) \<and>
     (\<forall>p w w' bs old. contents io p w = Some old \<and> fputs io p bs w = (True, w') \<longrightarrow> contents io p w' = Some (old @ bs))"



lemma only_mkdirs_refl: "only_mkdirs io w w"
  by (simp add: only_mkdirs_def)

lemma only_mkdirs_trans: "only_mkdirs io w w1 \<Longrightarrow> only_mkdirs io w1 w2 \<Longrightarrow> only_mkdirs io w w2"
  by (auto simp: only_mkdirs_def)

lemma create_directory_named:
  assumes "fs_ok io" and "create_directory io d w = (r, w')"
  shows "only_mkdirs io w w' \<and> (r \<noteq> -1 \<longrightarrow> named io d w')"
proof -
  have "mkdir_ok io d w" "\<And>w. is_dir io d w \<Longrightarrow> named io d w" "\<And>w. stat io d w \<Longrightarrow> named io d w"
    using assms(1) by (auto simp: fs_ok_def)
  then show ?thesis
    using assms(2) only_mkdirs_refl [of io w]
    by (auto simp: mkdir_ok_def create_directory_def split: if_splits prod.splits option.splits)
qed

lemma create_all_named:
  assumes "fs_ok io" and "create_all io ds w = (r, w')"
  shows "only_mkdirs io w w' \<and> (r \<noteq> -1 \<longrightarrow> (\<forall>d \<in> set ds. named io d w'))"
  using assms(2)
proof (induction ds arbitrary: w)
  case Nil
  then show ?case by (simp add: only_mkdirs_refl)
next
  case (Cons d ds)
  obtain r1 w1 where 1: "create_directory io d w = (r1, w1)" by fastforce
  note d = create_directory_named [OF assms(1) 1]
  show ?case
  proof (cases "r1 = -1")
    case True
    then show ?thesis using Cons.prems 1 d by auto
  next
    case False
    then have rest: "create_all io ds w1 = (r, w')" using Cons.prems 1 by simp
    note ih = Cons.IH [OF rest]
    moreover have "named io d w'" using d ih False by (simp add: only_mkdirs_def)
    ultimately show ?thesis using d only_mkdirs_trans [of io w w1 w'] by auto
  qed
qed

lemma create_all_result: "fst (create_all io ds w) \<in> {0, -1}"
  by (induction ds arbitrary: w) (auto simp: Let_def split: prod.split)

section \<open>Properties\<close>

text \<open>
  A file system with directories, files and dangling symbolic links as sets of paths, in which \<open>mkdir\<close> and \<open>fopen\<close> need
  the directory before the last slash and no dangling link can be opened. It satisfies \<open>fs_ok\<close>.
\<close>

record flat_fs =
  dirs :: "string list"
  files :: "string \<rightharpoonup> string"
  dangling :: "string list"

definition parent_ok :: "string \<Rightarrow> flat_fs \<Rightarrow> bool" where
  "parent_ok p w = (case strrchr p (CHR ''/'') of None \<Rightarrow> True | Some i \<Rightarrow> i = 0 \<or> take i p \<in> set (dirs w))"

definition flat_named :: "string \<Rightarrow> flat_fs \<Rightarrow> bool" where
  "flat_named p w \<longleftrightarrow> p \<in> set (dirs w) \<or> files w p \<noteq> None \<or> p \<in> set (dangling w)"

definition flat_io :: "flat_fs fs" where
  "flat_io =
     \<lparr>stat = (\<lambda>p w. p \<in> set (dirs w) \<or> files w p \<noteq> None),
      mkdir = (\<lambda>p w. if flat_named p w then (Some EEXIST, w)
                     else if parent_ok p w then (None, w\<lparr>dirs := p # dirs w\<rparr>) else (Some ENOENT, w)),
      fopen_wb = (\<lambda>p w. if parent_ok p w \<and> p \<notin> set (dirs w) \<and> p \<notin> set (dangling w)
                        then Some (w\<lparr>files := (files w)(p \<mapsto> [])\<rparr>) else None),
      fputs = (\<lambda>p bs w. (True, w\<lparr>files := (files w)(p \<mapsto> (case files w p of None \<Rightarrow> [] | Some old \<Rightarrow> old) @ bs)\<rparr>)),
      named = flat_named,
      is_dir = (\<lambda>p w. p \<in> set (dirs w)),
      contents = (\<lambda>p w. files w p)\<rparr>"

lemma flat_io_ok: "fs_ok flat_io"
  by (auto simp: fs_ok_def mkdir_ok_def flat_io_def only_mkdirs_def flat_named_def split: if_splits)

lemma flat_create_directory:
  "create_directory flat_io d w =
     (if flat_named d w then (0, w) else if parent_ok d w then (0, w\<lparr>dirs := d # dirs w\<rparr>) else (-1, w))"
  by (auto simp: create_directory_def flat_io_def flat_named_def)

text \<open>
  C36. \<open>create_directories\<close> tries exactly the prefixes of the path before each slash after the first character and then
  the whole path, in this order, stopping at the first failure, and returns 0 or -1; existing directories and the
  contents of all files are kept. When it returns 0, each of these paths is a directory now or had an entry of this
  name before. The second case is all that the code checks of existing entries: a file, or a symbolic link that leads
  nowhere and for which \<open>mkdir\<close> reports \<open>EEXIST\<close>, counts as success (see \<open>create_directories_dangling\<close>). The
  path is not empty, and \<open>stat\<close> and \<open>mkdir\<close> are those of POSIX.
\<close>

theorem create_directories_creates:
  assumes "fs_ok io" and "path \<noteq> []"
  shows "\<exists>r w'. create_directories io path w = Some (r, w') \<and> (r, w') = create_all io (slash_prefixes 1 path) w \<and>
    r \<in> {0, -1} \<and> (\<forall>q. is_dir io q w \<longrightarrow> is_dir io q w') \<and> (\<forall>q. contents io q w' = contents io q w) \<and>
    (r = 0 \<longrightarrow> (\<forall>d \<in> set (slash_prefixes 1 path). is_dir io d w' \<or> named io d w))"
proof -
  obtain r w' where c: "create_all io (slash_prefixes 1 path) w = (r, w')" by fastforce
  then have "create_directories io path w = Some (r, w')"
    using assms(2) by (simp add: create_directories_def create_loop_all)
  moreover have "r \<in> {0, -1}" using create_all_result [of io "slash_prefixes 1 path" w] c by simp
  moreover note create_all_named [OF assms(1) c]
  ultimately show ?thesis using c by (auto simp: only_mkdirs_def)
qed

lemma demo_prefixes: "slash_prefixes (Suc 0) ''/tmp/a/b'' = [''/tmp'', ''/tmp/a'', ''/tmp/a/b'']"
  by (simp add: slash_prefixes_def upt_rec)

theorem create_directories_creates_witness:
  "\<exists>w'. create_directories flat_io ''/tmp/a/b'' \<lparr>dirs = [''/tmp''], files = Map.empty, dangling = []\<rparr> = Some (0, w') \<and>
     is_dir flat_io ''/tmp/a'' w' \<and> is_dir flat_io ''/tmp/a/b'' w'"
proof -
  let ?w = "\<lparr>dirs = [''/tmp''], files = Map.empty, dangling = []\<rparr>"
  obtain w' where w': "create_all flat_io (slash_prefixes 1 ''/tmp/a/b'') ?w = (0, w')"
    by (simp add: demo_prefixes flat_create_directory parent_ok_def flat_named_def)
  have "\<not> named flat_io ''/tmp/a'' ?w" "\<not> named flat_io ''/tmp/a/b'' ?w" by (simp_all add: flat_io_def flat_named_def)
  with create_directories_creates [OF flat_io_ok, of "''/tmp/a/b''" ?w]
  show ?thesis unfolding w' by (auto simp: demo_prefixes)
qed

text \<open>
  An entry that is not a directory counts as success: here a dangling link stands where the directory should be, and
  none exists afterwards.
\<close>

lemma create_directories_dangling:
  "create_directories flat_io ''/tmp/a'' \<lparr>dirs = [''/tmp''], files = Map.empty, dangling = [''/tmp/a'']\<rparr> =
     Some (0, \<lparr>dirs = [''/tmp''], files = Map.empty, dangling = [''/tmp/a'']\<rparr>)"
  by (simp add: create_directories_def create_loop_all slash_prefixes_def upt_rec flat_create_directory flat_named_def)






text \<open>
  Two inputs without defined behaviour: a file directly under the root, because \<open>create_directories\<close> starts
  behind the terminator of the empty string, and data with a conversion specification, because the data is the
  format of \<open>fprintf\<close>.
\<close>

theorem create_file_undefined:
  assumes "strrchr path (CHR ''/'') = Some 0 \<or>
    strrchr path (CHR ''/'') = None \<and> fopen_wb io path w \<noteq> None \<and> printf_format data = None"
  shows "create_file io path data w = None"
  using assms by (auto simp: create_file_def create_directories_def)

theorem create_file_undefined_witness:
  "create_file flat_io ''/f'' ''x'' \<lparr>dirs = [], files = Map.empty, dangling = []\<rparr> = None \<and>
   create_file flat_io ''f'' ''100%'' \<lparr>dirs = [], files = Map.empty, dangling = []\<rparr> = None"
  using create_file_undefined [of "''/f''" flat_io "\<lparr>dirs = [], files = Map.empty, dangling = []\<rparr>" "''x''"]
    create_file_undefined [of "''f''" flat_io "\<lparr>dirs = [], files = Map.empty, dangling = []\<rparr>" "''100%''"]
  by (simp add: flat_io_def parent_ok_def)

text \<open>
  The exit status of the program does not tell whether the file was written: with enough arguments it is 0
  also when \<open>create_file\<close> fails.
\<close>

lemma writer_main_status:
  assumes "create_file io (argv ! 1) (argv ! 2) w = Some (r, w')" and "3 \<le> length argv"
  shows "writer_main io argv w = Some (0, w')"
  using assms by (simp add: writer_main_def)

end
