(* ===== verification/Autotest.thy ===== *)
theory Autotest
  imports Driver_Session
begin

text \<open>
  The functions of \<open>examples/autotest-validate\<close> and the unit test of \<open>student-test\<close>. The assertion of the test
  framework and the function that reads \<open>conf/username.txt\<close> are in a submodule: they are arguments.
\<close>

definition this_function_returns_true :: bool where
  "this_function_returns_true = True"

definition this_function_returns_false :: bool where
  "this_function_returns_false = False"

definition my_username :: string where
  "my_username = ''mostafaelfallal90@gmail.com''"

text \<open>The output of the program and its status; \<open>main\<close> returns without a \<open>return\<close> statement.\<close>

definition bool_text :: "bool \<Rightarrow> string" where
  "bool_text b = (if b then ''true'' else ''false'')"

definition autotest_main :: "string \<times> int" where
  "autotest_main =
     (''this_function_returns_true returned '' @ bool_text this_function_returns_true @ [newline] @
      ''this_function_returns_false returned '' @ bool_text this_function_returns_false @ [newline], 0)"

text \<open>
  \<open>assert_equal expected actual message\<close> tells whether \<open>TEST_ASSERT_EQUAL_STRING_MESSAGE\<close> passes, \<open>conf\<close> is the
  result of \<open>malloc_username_from_conf_file\<close>.
\<close>

definition test_validate_my_username :: "(string \<Rightarrow> string \<Rightarrow> string \<Rightarrow> bool) \<Rightarrow> string \<Rightarrow> bool" where
  "test_validate_my_username assert_equal conf \<longleftrightarrow> assert_equal my_username conf ''they match''"

text \<open>With the documented meaning of the assertion, the test decides whether the configured name is the one in the code.\<close>

lemma username_test_passes_iff:
  assumes "\<And>a b msg. assert_equal a b msg \<longleftrightarrow> a = b"
  shows "test_validate_my_username assert_equal conf \<longleftrightarrow> conf = ''mostafaelfallal90@gmail.com''"
  using assms by (auto simp: test_validate_my_username_def my_username_def)

lemma autotest_output:
  "autotest_main = (''this_function_returns_true returned true'' @ [newline] @
     ''this_function_returns_false returned false'' @ [newline], 0)"
  by (simp add: autotest_main_def bool_text_def this_function_returns_true_def this_function_returns_false_def)

end
