(* ===== verification/Spec2Isabelle.thy ===== *)
theory Spec2Isabelle
  imports Server_Device Server_Main Server_Clock Queue_Debug Systemcalls Threading Writer Autotest
begin

text \<open>
  A verification of the programs in this repository: a Linux character driver that keeps the last ten lines written
  to it (\<open>aesd-char-driver/\<close>), a socket server that stores the lines of its clients and answers with everything
  stored (\<open>server/\<close>), the list macros the server uses (\<open>server/queue.h\<close>), and three smaller programs
  (\<open>finder-app/writer.c\<close>, \<open>examples/systemcalls/\<close>, \<open>examples/threading/\<close>), with the stubs of the course's test setup.

  \<^bold>\<open>How the parts interact.\<close> A client connects to the server; \<open>main\<close> of \<open>aesdsocket.c\<close> accepts it, starts a
  connection thread and enters it in an \<open>SLIST\<close> of threads. The thread (\<open>connector\<close>) receives one line, and under
  a mutex either writes it to the data file or, for \<open>AESDCHAR_IOCSEEKTO:x,y\<close>, issues an \<open>ioctl\<close>; then it sends
  the file from the current position to the end. In the default build the data file is \<open>/dev/aesdchar\<close>: the calls
  arrive in the handlers of \<open>main.c\<close>, which use the circular buffer of \<open>aesd-circular-buffer.c\<close>. In the other
  build it is a plain file, to which a further thread appends a time stamp every ten seconds.

  \<^bold>\<open>The model.\<close> A C computation is a value of an option type: \<open>None\<close> is an execution without a defined result
  (undefined behaviour, or a loop that never ends), so a theorem \<open>f x = Some y\<close> says that the code returns.
  Loops that may not end are \<open>partial_function (option)\<close>; there is no fuel. Error codes are values of sum types.
  The machine has 64-bit \<open>size_t\<close> and \<open>loff_t\<close>, 32-bit \<open>unsigned int\<close> and 8-bit \<open>uint8_t\<close>, as words with wrap-around.
  Services that are not in the repository (kernel allocator, user copies, system calls, C library) are arguments,
  grouped in records; what the code relies on is stated as named predicates (\<open>kernel_ok\<close>, \<open>fs_ok\<close>, \<open>event_ok\<close>,
  \<open>llseek_ok\<close>), which the witnesses instantiate with concrete functions.

  \<^bold>\<open>The theories.\<close>

  \<^item> \<open>Aesd_Prelude\<close>: widths, the option monad, conversions of bounded words.

  \<^item> \<open>Circular_Buffer\<close> (\<open>aesd-circular-buffer.[ch]\<close>): structures, the iteration macro, the three operations; the
    invariant \<open>cb_wf\<close> and the refinement to a list of at most ten entries; the contract \<open>bounded_history\<close>.

  \<^item> \<open>Char_Driver\<close> (\<open>main.c\<close>, \<open>aesdchar.h\<close>, \<open>aesd_ioctl.h\<close>): \<open>aesd_open\<close>, \<open>aesd_release\<close>, \<open>aesd_read\<close>,
    \<open>aesd_write\<close>, \<open>aesd_llseek\<close>, \<open>aesd_adjust_file_offset\<close>, \<open>aesd_ioctl\<close>, \<open>aesd_fops\<close>, and loading and
    unloading the module, over an explicit kernel heap, user memory and lock flag.

  \<^item> \<open>Driver_Refinement\<close>: the device invariant \<open>dev_wf\<close>, the abstraction to stored lines \<open>dev_cmds\<close> and an unfinished
    line \<open>dev_pending\<close>, the abstract operations \<open>spec_write\<close> and \<open>spec_seek\<close>, and each handler against them.
    \<open>Driver_System\<close>: the contract \<open>file_handler\<close> of the table of handlers; the properties of reading and writing.
    \<open>Driver_Session\<close>: seeking, module load and unload, sequences of calls on several files.

  \<^item> \<open>SList\<close>, \<open>Queue_Spec\<close>, \<open>STailq\<close>, \<open>List_Queue\<close>, \<open>Tailq\<close> (\<open>queue.h\<close>): the four families of macros over an
    explicit memory of heads and link fields, pointers to pointers included. The contract \<open>linked_queue\<close> gives for
    all of them that sequences of operations refine operations on lists; \<open>linked_bag\<close> is what the server uses.
    \<open>Queue_Debug\<close>: the configuration \<open>QUEUE_MACRO_DEBUG\<close>, where \<open>debug_queue\<close> extends \<open>linked_queue\<close> and is again one.

  \<^item> \<open>Connector\<close>, \<open>Server_Device\<close>, \<open>Timestamp\<close> (\<open>aesdsocket.c\<close>): the connection thread over the
    contract \<open>data_file\<close>, which holds for a plain file and, in \<open>Server_Device\<close>, for the driver under a buffered
    stream; the timestamp thread.

  \<^item> \<open>Server_Threads\<close>, \<open>Server_Progress\<close>: the connection threads at the same time. Each is a state machine over the
    statements of \<open>connector\<close> that touch the file or \<open>file_mutex\<close> (\<open>thread_step\<close>), and \<open>pool_step\<close> is a step of any of
    them. \<open>shared_file\<close> says how a stream splits into the file and what a thread keeps for itself; its instances are
    the plain file and the device. The first theory reduces interleavings to \<open>serve\<close>, the sequential execution; the
    second shows that no thread gets stuck and that executions end (\<open>inevitably\<close>). \<open>Server_Clock\<close> adds the timestamp
    thread, as a state machine of its own (\<open>stamp_step\<close>) that takes the same mutex: \<open>clocked_step\<close> is a step of any
    thread of the build without the driver, and \<open>log\<close> the order in which the mutex was taken.

  \<^item> \<open>Server_List\<close>, \<open>Server_Main\<close> (\<open>aesdsocket.c\<close>): the thread list, the accept loop, \<open>cleanup\<close> and the signal
    handler, with the states reachable by rounds of the loop, finishing threads and signals as an inductive
    relation; \<open>daemonize\<close>, binding, the failure paths and \<open>main\<close>.

  \<^item> \<open>Systemcalls\<close>, \<open>Threading\<close>, \<open>Writer\<close>, \<open>Autotest\<close>: the smaller programs. \<open>Spec2Isabelle\<close>: the server and the driver
    together, first one connection after the other, then all at the same time.

  \<^bold>\<open>What is shown.\<close> The driver: no handler goes outside a buffer, uses freed memory or keeps the lock, whatever the
  kernel services answer; the device holds the last ten lines; reads and the seek by \<open>ioctl\<close> deliver the right
  bytes; \<open>llseek\<close> is bounded by the length of the first ten lines. The server: every client gets the lines of the last ten connections (on a plain file: all
  messages and time stamps, in the order of the critical sections); threads that run at the same time behave as if
  their critical sections ran one after the other, and under every scheduler each client is answered and all threads
  end, the timestamp thread once the exit is requested; the thread list is consistent
  in every reachable state; everything is released at the end. The list macros: they do what they do on lists, with
  and without debugging, and the consistency checks of \<open>queue.h\<close> never fail. Where the code does not do what it means to, the theorem says exactly
  when: the file position after reads across entries, the size field after overwriting, memory leaked by a failed
  \<open>krealloc\<close>, by unloading the module and by a failed allocation of a list element, a seek command without a comma,
  a failed \<open>realloc\<close> while receiving, a thread that cannot open the data file and joins itself, an allocation
  that \<open>aesd_init_module\<close> does not test, sleeps in whole seconds where milliseconds are promised, the difference between
  \<open>do_exec\<close> and \<open>do_exec_redirect\<close>, and what the success of \<open>writer.c\<close> does not mean.

  \<^bold>\<open>Bounds.\<close> A write has 1 to $2^{31}$ bytes: the kernel limits a call to \<open>MAX_RW_COUNT\<close>, which is below $2^{31}$.
  \<open>kernel_ok\<close> says that the allocator returns no block above $2^{32}$ bytes, so that the sizes of ten entries
  cannot wrap. The end-to-end theorem asks that the stored lines fit into one block of the C library's read buffer;
  with larger contents a read spans entries and is affected by the position error. Numbers of a seek command are
  below $2^{31}$, beyond which \<open>atoi\<close> is undefined. \<open>llseek_ok\<close> gives the kernel's \<open>fixed_size_llseek\<close> only for sizes
  that are not negative as signed numbers; after whole lines, and between the connections of the server, the size
  field is at most ten times $2^{32}$. \<open>fs_ok\<close> is what POSIX says of \<open>stat\<close>, \<open>mkdir\<close>, \<open>fopen\<close> and of output that
  was reported as successful. \<open>fwrite\<close> on the device collects its output in one buffer until it is flushed. A step of a connection thread is one C library call on the data
  file, or the whole receive loop, which touches nothing shared; what a client sends is given, so \<open>recv\<close> does not
  wait for ever, and \<open>pthread_join\<close> on a connection assumes the same. A step of the
  timestamp thread is one such call, or all of a round before it takes the mutex; the exit flag and the clock
  are what the rounds see of them.

  \<^bold>\<open>Not modelled.\<close> Log output (\<open>PDEBUG\<close>, \<open>log_info\<close>, \<open>syslog\<close>, \<open>perror\<close>) and the text of the address that
  \<open>inet_ntop\<close> gives for it; the C++ spelling of the structures in \<open>queue.h\<close> (\<open>CLASS\<close> macros), which is the same
  data; shell scripts, init scripts and build files, which are not C code. Every other C function and macro of the
  repository has a definition here; the rest of the source lines are comments, includes and prototypes.
\<close>

section \<open>The server and the driver together\<close>

lemma fresh_stream_ok:
  assumes "smooth_kernel k" and "aesd_init_module env m = Some (0, m')" and "heap (msys m) = Map.empty"
    and "0 < unat blk" and "unat blk \<le> 2 ^ 31"
  shows "stream_ok k blk (dev_open (msys m'))" and "stream_content (dev_open (msys m')) = ([], [])"
proof -
  have f: "device (msys m') = fresh_device" "heap (msys m') = Map.empty"
    using init_ok [OF assms(2)] assms(3) by auto
  then have "no_leak (msys m')" using fresh_ok(6) by (simp add: no_leak_def)
  then show "stream_ok k blk (dev_open (msys m'))" "stream_content (dev_open (msys m')) = ([], [])"
    using fresh_ok [OF f(1)] assms
    by (simp_all add: stream_ok_def stream_content_def dev_open_def size_bounded_def tracked_def)
qed

lemma serve_device_lines:
  assumes k: "smooth_kernel k" and m: "aesd_init_module env m = Some (0, m')" "heap (msys m) = Map.empty"
    and blk: "unat blk \<le> 2 ^ 31" and re: "\<forall>n. realloc n"
    and cs: "\<forall>c \<in> set cs. plain_message (snd c) \<and> last (first_line (received (snd c))) = newline"
    and ms: "ms = map (\<lambda>c. first_line (received (snd c))) cs" "\<forall>x \<in> set ms. length x \<le> 2 ^ 22"
    and fit: "0 < unat blk" "\<forall>i < length ms. length (concat (drop (Suc i - 10) (take (Suc i) ms))) < unat blk"
  shows "\<exists>f'. serve (dev_stdio k blk) dev_reopen realloc cs (dev_open (msys m')) =
      Some (map (\<lambda>i. concat (drop (Suc i - 10) (take (Suc i) ms))) [0..<length cs], f') \<and>
    dev_cmds (fsys f') = drop (length ms - 10) ms \<and> dev_pending (fsys f') = []"
proof -
  note ok = fresh_stream_ok [OF k m fit(1) blk]
  have lines: "\<forall>x \<in> set ms. x \<noteq> [] \<and> last x = newline"
    using cs first_line_nonempty by (auto simp: ms(1) plain_message_def)
  note after = lines_after [OF lines, of "[]", simplified]
  have fits: "fits_all spec_write (stream_fits blk) ([], []) ms"
    using fit(2) ms(2) by (intro fits_all_contents) (auto simp: after)
  have fold: "fold (\<lambda>x c. spec_write c x) ms ([], []) = (drop (length ms - 10) ms, [])"
  proof -
    have "fold (\<lambda>x c. spec_write c x) ms c0 = (case rev (contents_after spec_write c0 ms) of [] \<Rightarrow> c0 | c # _ \<Rightarrow> c)"
      for c0 by (induction ms arbitrary: c0) (auto split: list.splits)
    then show ?thesis by (simp add: after) (cases ms rule: rev_cases; simp)
  qed
  show ?thesis
    using dv.serve_ok [OF ok(1) _ re, of cs] cs fits fold ok(2)
    by (auto simp: ms(1) [symmetric] after comp_def stream_content_def) (simp add: ms(1))
qed

text \<open>
  C1. The server on the driver, end to end. After the module has been loaded, connections that send one line each (cut
  into pieces by the network in any way) and no seek command are answered in the order of their critical sections:
  each client gets the lines of the last ten connections up to and including its own, and afterwards the device
  holds exactly the last ten lines and no unfinished one. The kernel services are assumed not to fail, every line
  has at most $2^{22}$ bytes, and the ten lines fit into one block of the C library's read buffer, which excludes
  the position error of \<open>aesd_read\<close> on reads that span entries.
\<close>

theorem server_replies_last_ten_lines:
  assumes k: "smooth_kernel k" and m: "aesd_init_module env m = Some (0, m')" "heap (msys m) = Map.empty"
    and blk: "unat blk \<le> 2 ^ 31" and re: "\<forall>n. realloc n"
    and cs: "\<forall>c \<in> set cs. plain_message (snd c) \<and> last (first_line (received (snd c))) = newline"
    and ms: "ms = map (\<lambda>c. first_line (received (snd c))) cs" "\<forall>x \<in> set ms. length x \<le> 2 ^ 22"
    and fit: "0 < unat blk" "\<forall>i < length ms. length (concat (drop (Suc i - 10) (take (Suc i) ms))) < unat blk"
  shows "\<exists>f'. serve (dev_stdio k blk) dev_reopen realloc cs (dev_open (msys m')) =
      Some (map (\<lambda>i. concat (drop (Suc i - 10) (take (Suc i) ms))) [0..<length cs], f') \<and>
    dev_cmds (fsys f') = drop (length ms - 10) ms \<and> dev_pending (fsys f') = []"
  using serve_device_lines [OF assms] .

definition demo_clients :: "(int \<times> char list list) list" where
  "demo_clients = [(4, [''a'', ''b'' @ [newline]]), (5, [''c'' @ [newline]])]"

lemma demo_clients_messages:
  "map (\<lambda>c. first_line (received (snd c))) demo_clients = [''ab'' @ [newline], ''c'' @ [newline]]"
  by (simp add: demo_clients_def first_line_def received_def)

lemma demo_clients_plain:
  "\<forall>c \<in> set demo_clients. plain_message (snd c) \<and> last (first_line (received (snd c))) = newline"
  by (simp add: demo_clients_def plain_message_def received_def first_line_def cstring_def NUL_def ioctlString_def)

lemma demo_loads: "\<exists>m'. aesd_init_module demo_env unloaded = Some (0, m')" "heap (msys unloaded) = Map.empty"
  by (simp_all add: init_eq demo_env_def unloaded_def)

theorem server_replies_last_ten_lines_witness:
  "\<exists>m' f'. aesd_init_module demo_env unloaded = Some (0, m') \<and>
     serve (dev_stdio smooth_demo 4096) dev_reopen (\<lambda>_. True) demo_clients (dev_open (msys m')) =
       Some ([''ab'' @ [newline], ''ab'' @ [newline] @ ''c'' @ [newline]], f')"
proof -
  obtain m' where m': "aesd_init_module demo_env unloaded = Some (0, m')" using demo_loads by blast
  have "\<forall>i < length [''ab'' @ [newline], ''c'' @ [newline]].
      length (concat (drop (Suc i - 10) (take (Suc i) [''ab'' @ [newline], ''c'' @ [newline]]))) < unat (4096 :: size_t)"
    by (auto simp: less_Suc_eq)
  then show ?thesis
    using server_replies_last_ten_lines [OF smooth_demo_ok m' demo_loads(2) _ _ demo_clients_plain
        demo_clients_messages [symmetric], of 4096 "\<lambda>_. True"] m'
    by (auto simp: upt_rec demo_clients_def)
qed

text \<open>
  C3. A seek command through the whole stack: a client that sends \<open>AESDCHAR_IOCSEEKTO:x,y\<close> and a newline, with both
  numbers in decimal and below $2^{31}$, gets the stored bytes from byte \<open>y\<close> of line \<open>x\<close> to the end when this
  position exists, and everything that is stored otherwise. The command itself is not stored, the thread marks itself
  finished and closes the connection. The assumptions: the kernel services and the allocations do not fail; the device
  is well formed, unlocked, has leaked nothing, and its size field is at most $2^{32}$ for each stored line; and the
  stored bytes are fewer than one block of the C library's read buffer, which is at most $2^{31}$ bytes. Larger
  contents need several reads, and the position error of \<open>aesd_read\<close> then makes the reply skip bytes.
\<close>

theorem server_seek_reply:
  assumes k: "smooth_kernel k" and s: "dev_wf s" "\<not> lock (device s)" "no_leak s" "size_bounded s"
    and blk: "length (concat (dev_cmds s)) < unat blk" "unat blk \<le> 2 ^ 31" and re: "\<forall>n. realloc n"
    and xy: "x < 2 ^ 31" "y < 2 ^ 31"
    and msg: "first_line (received chunks) = ioctlString @ show_nat x @ '','' @ show_nat y @ [newline]"
  shows "\<exists>e. connector (dev_stdio k blk) (Some (dev_open s)) realloc chunks False a = Some (Inr e) \<and>
      concat (sent e) =
        (if x < length (dev_cmds s) \<and> y < length (dev_cmds s ! x)
         then drop y (dev_cmds s ! x) @ concat (drop (Suc x) (dev_cmds s)) else concat (dev_cmds s)) \<and>
      dev_cmds (fsys (data e)) = dev_cmds s \<and> dev_pending (fsys (data e)) = dev_pending s \<and>
      finished (arg e) \<and> \<not> sock_open e"
proof -
  let ?m = "ioctlString @ show_nat x @ '','' @ show_nat y @ [newline]"
  let ?st = "\<lparr>write_cmd = of_nat x, write_cmd_offset = of_nat y\<rparr>"
  have st: "unat (write_cmd ?st) = x" "unat (write_cmd_offset ?st) = y"
    using xy by (simp_all add: unat_u32_of_nat)
  have ok: "stream_ok k blk (dev_open s)" using k s blk by (simp add: stream_ok_def dev_open_def)
  have c: "cstring (?m @ [NUL]) = ?m" by (rule cstring_seekto)
  have f: "strstr ?m ioctlString = Some ?m" by (rule strstr_prefix)
  have p: "parse_seekto ?m = Some ?st" using parse_seekto_show [OF xy, of "[newline]"] by simp
  have ne: "received chunks \<noteq> []" using msg by (auto simp: first_line_def ioctlString_def)
  have "drop (case spec_seek (dev_cmds s) x y of Some p \<Rightarrow> p | None \<Rightarrow> 0) (concat (dev_cmds s)) =
      (if x < length (dev_cmds s) \<and> y < length (dev_cmds s ! x)
       then drop y (dev_cmds s ! x) @ concat (drop (Suc x) (dev_cmds s)) else concat (dev_cmds s))"
    using spec_seek_drop(1) [of "dev_cmds s" x y] by (auto simp: spec_seek_def)
  then show ?thesis
    using dv.connector_seeks [OF ok _ ne re _ p, of a] msg c f st
    by (fastforce simp: stream_fresh_def dev_open_def stream_content_def)
qed

lemma demo_full_good: "no_leak demo_full" "size_bounded demo_full" "length (concat (dev_cmds demo_full)) = 10"
proof -
  have "buffptr ` set (map (\<lambda>i. \<lparr>buffptr = Some i, esize = 1\<rparr>) [0..<10]) = Some ` {0..<10}"
    by (simp only: set_map set_upt image_image aesd_buffer_entry.simps)
  moreover have "dev_entry (device demo_full) = Some \<lparr>buffptr = None, esize = 0\<rparr>"
    by (simp add: demo_full_def)
  ultimately have "owned demo_full = {0..<10}"
    unfolding owned_def demo_full_list by (simp only:) auto
  moreover have "dom (heap demo_full) = {0..<10}" by (auto simp: demo_full_def split: if_splits)
  ultimately show "no_leak demo_full" by (simp add: no_leak_def)
  show "length (concat (dev_cmds demo_full)) = 10" by (simp add: demo_full_wf(4) length_concat)
  show "size_bounded demo_full" by (simp add: size_bounded_def demo_full_wf(4)) (simp add: demo_full_def)
qed

theorem server_seek_reply_witness:
  "\<exists>e. connector (dev_stdio smooth_demo 4096) (Some (dev_open demo_full)) (\<lambda>_. True)
       [''AESDCHAR_IOC'', ''SEEKTO:8,0'' @ [newline]] False \<lparr>client_sock = 4, finished = False\<rparr> = Some (Inr e) \<and>
     concat (sent e) = [newline, newline] \<and> finished (arg e)"
proof -
  have n: "show_nat 8 = ''8''" "show_nat 0 = ''0''"
    by (simp_all add: show_nat.simps digit_char_def char_of_def bit_0)
  have "first_line (received [''AESDCHAR_IOC'', ''SEEKTO:8,0'' @ [newline]]) =
      ioctlString @ show_nat 8 @ '','' @ show_nat 0 @ [newline]"
    by (simp add: n received_def first_line_def ioctlString_def)
  then show ?thesis
    using server_seek_reply [OF smooth_demo_ok demo_full_wf(1,2) demo_full_good(1,2), of 4096 "\<lambda>_. True" 8 0 _ "\<lparr>client_sock = 4, finished = False\<rparr>"]
    by (fastforce simp: demo_full_good(3) demo_full_cmds)
qed

section \<open>All connections at the same time\<close>

lemma ten_lines_fit:
  assumes "\<forall>x \<in> set ms. 10 * length x < n" and "0 < (n :: nat)"
  shows "length (concat (drop (Suc i - 10) (take (Suc i) ms))) < n"
proof -
  let ?xs = "drop (Suc i - 10) (take (Suc i) ms)"
  have "set ?xs \<subseteq> set ms" by (meson set_drop_subset set_take_subset subset_trans)
  then have "\<forall>x \<in> set ?xs. length x \<le> (n - 1) div 10" using assms by fastforce
  then have "length (concat ?xs) \<le> length ?xs * ((n - 1) div 10)" by (rule length_concat_bound)
  also have "\<dots> \<le> 10 * ((n - 1) div 10)" by (intro mult_right_mono) auto
  also have "\<dots> < n" using assms(2) by linarith
  finally show ?thesis .
qed

text \<open>Lines on a freshly loaded device: silent clients, and clients that send one line that fits.\<close>

definition line_clients :: "size_t \<Rightarrow> (int \<times> char list list) list \<Rightarrow> bool" where
  "line_clients blk cs \<longleftrightarrow>
     (\<forall>c \<in> set cs. received (snd c) = [] \<or>
        plain_message (snd c) \<and> last (first_line (received (snd c))) = newline \<and>
        length (first_line (received (snd c))) \<le> 2 ^ 22 \<and> 10 * length (first_line (received (snd c))) < unat blk)"

lemma serve_any_order:
  assumes k: "smooth_kernel k" and m: "aesd_init_module env m = Some (0, m')" "heap (msys m) = Map.empty"
    and blk: "0 < unat blk" "unat blk \<le> 2 ^ 31" and re: "\<forall>n. realloc n" and cs: "line_clients blk cs"
    and js: "set js \<subseteq> {i. i < length cs \<and> received (snd (cs ! i)) \<noteq> []}"
    and ms: "ms = map (\<lambda>i. first_line (received (snd (cs ! i)))) js"
  shows "\<exists>f'. serve (dev_stdio k blk) dev_reopen realloc (map ((!) cs) js) (dev_open (msys m')) =
      Some (map (\<lambda>n. concat (drop (Suc n - 10) (take (Suc n) ms))) [0..<length ms], f') \<and>
    dev_cmds (fsys f') = drop (length ms - 10) ms \<and> dev_pending (fsys f') = []"
proof -
  let ?line = "\<lambda>c. first_line (received (snd c))"
  have line: "plain_message (snd (cs ! j)) \<and> last (?line (cs ! j)) = newline \<and>
      length (?line (cs ! j)) \<le> 2 ^ 22 \<and> 10 * length (?line (cs ! j)) < unat blk" if "j \<in> set js" for j
    using cs js that by (auto simp: subset_eq line_clients_def)
  then have "\<forall>x \<in> set ms. 10 * length x < unat blk" by (simp add: ms)
  note fit = ten_lines_fit [OF this blk(1)]
  show ?thesis
    using serve_device_lines [OF k m blk(2) re, of "map ((!) cs) js" ms] line fit blk(1)
    by (simp add: ms comp_def)
qed

lemma line_clients_defined:
  assumes "smooth_kernel k" and "aesd_init_module env m = Some (0, m')" "heap (msys m) = Map.empty"
    and "0 < unat blk" "unat blk \<le> 2 ^ 31" and re: "\<forall>n. realloc n" and "line_clients blk cs"
  shows "all_defined (dev_stdio k blk) dev_open fsys realloc cs (dev_open (msys m'))"
  using serve_any_order [OF assms _ refl] has_message_received [OF re]
  by (fastforce simp: all_defined_def dev_reopen_open)

text \<open>
  C2. All connections at the same time, end to end. After the module has been loaded, connection threads run
  concurrently under any scheduler, interleaved statement by statement; a client sends nothing, or one line without a
  seek command. Then every execution comes to an end: no thread blocks for ever, all threads return, and each of them
  that received a line has entered its critical section exactly once. With \<open>ms\<close> the lines in the order in which
  the threads took \<open>file_mutex\<close>, the client of line \<open>n\<close> has got the ten lines up to and including its own, and the device
  holds the last ten. The assumptions are those of the sequential theorem, with ten lines of any of the
  clients fitting into one block of the read buffer.
\<close>

theorem server_threads_answer:
  assumes k: "smooth_kernel k" and m: "aesd_init_module env m = Some (0, m')" "heap (msys m) = Map.empty"
    and blk: "0 < unat blk" "unat blk \<le> 2 ^ 31" and re: "\<forall>n. realloc n" and cs: "line_clients blk cs"
  shows "inevitably (pool_step (dev_stdio k blk) dev_open dev_attach fsys realloc)
    (\<lambda>p. all_finished p \<and> distinct (order p) \<and>
       set (order p) = {i. i < length cs \<and> received (snd (cs ! i)) \<noteq> []} \<and>
       (let ms = map (\<lambda>i. first_line (received (snd (cs ! i)))) (order p) in
          map (reply_of p) (order p) = map (\<lambda>n. concat (drop (Suc n - 10) (take (Suc n) ms))) [0..<length ms] \<and>
          dev_cmds (shared p) = drop (length ms - 10) ms \<and> dev_pending (shared p) = []))
    (pool_start (dev_open (msys m')) fsys cs)"
proof (rule inevitably_mono [OF ds.start_finishes [OF line_clients_defined [OF assms]]])
  fix p
  assume "good (dev_stdio k blk) dev_open dev_attach fsys realloc cs (dev_open (msys m')) p \<and> all_finished p"
  then have g: "good (dev_stdio k blk) dev_open dev_attach fsys realloc cs (dev_open (msys m')) p"
    and fin: "all_finished p" by auto
  note fd = ds.good_finished [OF g fin, unfolded dev_reopen_open has_message_received(1) [OF re]]
  obtain f where "serve (dev_stdio k blk) dev_reopen realloc (map ((!) cs) (order p)) (dev_open (msys m')) =
      Some (map (reply_of p) (order p), f)" "fsys f = shared p" using fd(3) by blast
  with serve_any_order [OF assms equalityD1 [OF fd(2)] refl] fin fd(1,2)
  show "all_finished p \<and> distinct (order p) \<and>
       set (order p) = {i. i < length cs \<and> received (snd (cs ! i)) \<noteq> []} \<and>
       (let ms = map (\<lambda>i. first_line (received (snd (cs ! i)))) (order p) in
          map (reply_of p) (order p) = map (\<lambda>n. concat (drop (Suc n - 10) (take (Suc n) ms))) [0..<length ms] \<and>
          dev_cmds (shared p) = drop (length ms - 10) ms \<and> dev_pending (shared p) = [])"
    by (auto simp: Let_def)
qed

lemma demo_pair_lines: "line_clients 4096 demo_pair"
  using demo_pair_messages by (simp add: line_clients_def demo_pair_def)

theorem server_threads_answer_witness:
  "\<exists>m'. aesd_init_module demo_env unloaded = Some (0, m') \<and>
     inevitably (pool_step (dev_stdio smooth_demo 4096) dev_open dev_attach fsys (\<lambda>_. True))
       (\<lambda>p. all_finished p \<and> reply_of p 0 = ''a'' @ [newline] \<and> dev_cmds (shared p) = [''a'' @ [newline]])
       (pool_start (dev_open (msys m')) fsys demo_pair)"
proof -
  obtain m' where m': "aesd_init_module demo_env unloaded = Some (0, m')" using demo_loads by blast
  have "inevitably (pool_step (dev_stdio smooth_demo 4096) dev_open dev_attach fsys (\<lambda>_. True))
       (\<lambda>p. all_finished p \<and> reply_of p 0 = ''a'' @ [newline] \<and> dev_cmds (shared p) = [''a'' @ [newline]])
       (pool_start (dev_open (msys m')) fsys demo_pair)"
  proof (rule inevitably_mono [OF server_threads_answer [OF smooth_demo_ok m' demo_loads(2) _ _ _ demo_pair_lines]],
      unfold demo_pair_speaker)
    fix p
    assume p: "all_finished p \<and> distinct (order p) \<and> set (order p) = {0} \<and>
       (let ms = map (\<lambda>i. first_line (received (snd (demo_pair ! i)))) (order p) in
          map (reply_of p) (order p) = map (\<lambda>n. concat (drop (Suc n - 10) (take (Suc n) ms))) [0..<length ms] \<and>
          dev_cmds (shared p) = drop (length ms - 10) ms \<and> dev_pending (shared p) = [])"
    have "order p = [0]" by (rule distinct_singleton) (use p in blast)+
    then show "all_finished p \<and> reply_of p 0 = ''a'' @ [newline] \<and> dev_cmds (shared p) = [''a'' @ [newline]]"
      using p by (simp add: demo_pair_messages)
  qed simp_all
  then show ?thesis using m' by blast
qed

text \<open>
  C4. \<open>file_mutex\<close> makes the connection threads serializable, for every kernel and every client: when a concurrent
  execution of the threads on the device has ended, the replies and the state of the device are those of running
  \<open>connector\<close> for one client after the other, in the order in which the threads took the mutex. Exactly the
  threads with a message took it, each once; the others sent nothing.
\<close>

theorem device_threads_serializable:
  assumes reach: "(pool_step (dev_stdio k blk) dev_open dev_attach fsys realloc)\<^sup>*\<^sup>* (pool_start (dev_open s) fsys cs) p"
    and fin: "all_finished p"
  shows "distinct (order p) \<and> set (order p) = {i. i < length cs \<and> has_message realloc (snd (cs ! i))} \<and>
    (\<exists>f. serve (dev_stdio k blk) dev_reopen realloc (map ((!) cs) (order p)) (dev_open s) =
           Some (map (reply_of p) (order p), f) \<and> fsys f = shared p) \<and>
    (\<forall>i < length cs. \<not> has_message realloc (snd (cs ! i)) \<longrightarrow> reply_of p i = [])"
  using ds.good_finished [OF ds.reachable_good [OF reach] fin] unfolding dev_reopen_open by blast

theorem device_threads_serializable_witness:
  "\<exists>m' (p :: (dev_stream, sys) pool) f. aesd_init_module demo_env unloaded = Some (0, m') \<and> all_finished p \<and>
     set (order p) = {0, 1} \<and>
     serve (dev_stdio smooth_demo 4096) dev_reopen (\<lambda>_. True) (map ((!) demo_clients) (order p)) (dev_open (msys m')) =
       Some (map (reply_of p) (order p), f) \<and> fsys f = shared p"
proof -
  obtain m' where m': "aesd_init_module demo_env unloaded = Some (0, m')" using demo_loads by blast
  have ln: "line_clients 4096 demo_clients"
    using demo_clients_plain demo_clients_messages by (simp add: line_clients_def demo_clients_def)
  obtain p where p: "(pool_step (dev_stdio smooth_demo 4096) dev_open dev_attach fsys (\<lambda>_. True))\<^sup>*\<^sup>*
      (pool_start (dev_open (msys m')) fsys demo_clients) p" "all_finished p"
    using inevitably_reachable [OF ds.start_finishes [OF line_clients_defined [OF smooth_demo_ok m' demo_loads(2)
          _ _ _ ln, of "\<lambda>_. True"]]] by auto
  have two: "{i. i < length demo_clients \<and> has_message (\<lambda>_. True) (snd (demo_clients ! i))} = {0, 1}"
    by (auto simp: demo_clients_def has_message_received received_def less_Suc_eq)
  note ser = device_threads_serializable [OF p, unfolded two]
  then obtain f where s: "set (order p) = {0, 1}"
      "serve (dev_stdio smooth_demo 4096) dev_reopen (\<lambda>_. True) (map ((!) demo_clients) (order p))
         (dev_open (msys m')) = Some (map (reply_of p) (order p), f)" "fsys f = shared p" by (elim conjE exE)
  show ?thesis by (intro exI [of _ m'] exI [of _ p] exI [of _ f] conjI m' p(2) s)
qed

end
